(* ===== verification/Xv6_Prelude.thy ===== *)
theory Xv6_Prelude
  imports Main "HOL-Library.Word"
begin

unbundle bit_operations_syntax

text \<open>
  Shared vocabulary of the development: the C integer types of \<^verbatim>\<open>kernel/types.h\<close>, the
  parameters of \<^verbatim>\<open>kernel/param.h\<close> and \<^verbatim>\<open>kernel/fs.h\<close>, the outcome type that every kernel
  operation returns, little-endian byte encodings, byte-addressed memory, and the generic
  lemmas on lists, words and memory that the component theories use.
\<close>

section \<open>C integer types\<close>

type_synonym uchar = "8 word"
type_synonym ushort = "16 word"
type_synonym uint = "32 word"
type_synonym uint64 = "64 word"

section \<open>Kernel parameters\<close>

abbreviation (input) NPROC :: nat where "NPROC \<equiv> 64"
abbreviation (input) NCPU :: nat where "NCPU \<equiv> 8"
abbreviation (input) NOFILE :: nat where "NOFILE \<equiv> 16"
abbreviation (input) NFILE :: nat where "NFILE \<equiv> 100"
abbreviation (input) NINODE :: nat where "NINODE \<equiv> 50"
abbreviation (input) NDEV :: nat where "NDEV \<equiv> 10"
abbreviation (input) ROOTDEV :: uint where "ROOTDEV \<equiv> 1"
abbreviation (input) MAXOPBLOCKS :: nat where "MAXOPBLOCKS \<equiv> 10"
abbreviation (input) LOGSIZE :: nat where "LOGSIZE \<equiv> 30"
definition NBUF :: nat where "NBUF = 30"
abbreviation (input) BSIZE :: nat where "BSIZE \<equiv> 1024"

section \<open>Outcomes\<close>

text \<open>
  A kernel operation returns a value, stops the machine with \<open>panic\<close>, puts the calling
  process to sleep because it has to wait for another process or a device, runs into C
  undefined behaviour (an access outside the object it is meant for, a null pointer, signed
  overflow), or follows a corrupted cyclic list forever.
\<close>

datatype 'a outcome = Ret 'a | Panic string | Sleeps | Undef | Loops

fun bindo :: "'a outcome \<Rightarrow> ('a \<Rightarrow> 'b outcome) \<Rightarrow> 'b outcome" where
  "bindo (Ret x) f = f x"
| "bindo (Panic e) f = Panic e"
| "bindo Sleeps f = Sleeps"
| "bindo Undef f = Undef"
| "bindo Loops f = Loops"

lemma bindo_Ret_iff:
  "bindo m f = Ret y \<longleftrightarrow> (\<exists>x. m = Ret x \<and> f x = Ret y)"
  by (cases m) auto

lemma bindo_RetE:
  assumes "bindo m f = Ret y"
  obtains x where "m = Ret x" and "f x = Ret y"
  using assms by (auto simp: bindo_Ret_iff)

lemma bindo_assoc: "bindo (bindo m f) g = bindo m (\<lambda>x. bindo (f x) g)"
  by (cases m) auto

lemma bindo_Ret_right [simp]: "bindo m Ret = m"
  by (cases m) auto

lemma bindo_cong [fundef_cong]:
  "m = m' \<Longrightarrow> (\<And>x. m' = Ret x \<Longrightarrow> f x = f' x) \<Longrightarrow> bindo m f = bindo m' f'"
  by (cases m') auto

lemma bindo_if: "bindo (if c then m else m') f = (if c then bindo m f else bindo m' f)"
  by simp

text \<open>A loop whose body may fail, over the values its variable takes.\<close>

primrec foldo :: "('b \<Rightarrow> 's \<Rightarrow> 's outcome) \<Rightarrow> 'b list \<Rightarrow> 's \<Rightarrow> 's outcome" where
  "foldo f [] s = Ret s"
| "foldo f (x # xs) s = bindo (f x s) (foldo f xs)"

lemma foldo_append: "foldo f (xs @ ys) s = bindo (foldo f xs s) (foldo f ys)"
  by (induction xs arbitrary: s) (auto simp: bindo_assoc intro!: bindo_cong)

text \<open>A loop returns when its body keeps an invariant of the values still to come.\<close>

lemma foldo_invariant:
  assumes "I xs s" and "\<And>x ys s. I (x # ys) s \<Longrightarrow> \<exists>s'. f x s = Ret s' \<and> I ys s'"
  shows "\<exists>s'. foldo f xs s = Ret s' \<and> I [] s'"
  using assms(1)
proof (induction xs arbitrary: s)
  case (Cons x xs)
  from assms(2)[OF Cons.prems] obtain s' where "f x s = Ret s'" "I xs s'" by blast
  then show ?case using Cons.IH by simp
qed simp

section \<open>Lists\<close>

lemma nth_map_upt0: "i < n \<Longrightarrow> map f [0..<n] ! i = f i"
  by simp

text \<open>\<open>overwrite bs i cs\<close> overwrites \<open>bs\<close> with \<open>cs\<close> from offset \<open>i\<close> on, as a C copy into an array does.\<close>

definition overwrite :: "'a list \<Rightarrow> nat \<Rightarrow> 'a list \<Rightarrow> 'a list" where
  "overwrite bs i cs = take i bs @ cs @ drop (i + length cs) bs"

lemma length_overwrite [simp]:
  "i + length cs \<le> length bs \<Longrightarrow> length (overwrite bs i cs) = length bs"
  by (simp add: overwrite_def)

lemma nth_overwrite:
  assumes "i + length cs \<le> length bs" "j < length bs"
  shows "overwrite bs i cs ! j = (if i \<le> j \<and> j < i + length cs then cs ! (j - i) else bs ! j)"
  using assms by (auto simp: overwrite_def nth_append)

lemma overwrite_Nil [simp]: "overwrite bs i [] = bs"
  by (simp add: overwrite_def)

lemma overwrite_all: "length cs = length bs \<Longrightarrow> overwrite bs 0 cs = cs"
  by (simp add: overwrite_def)

lemma take_drop_overwrite_same:
  "i + length cs \<le> length bs \<Longrightarrow> take (length cs) (drop i (overwrite bs i cs)) = cs"
  by (simp add: overwrite_def)

lemma take_drop_overwrite_other:
  assumes "i + length cs \<le> length bs" "j + n \<le> i \<or> i + length cs \<le> j" "j + n \<le> length bs"
  shows "take n (drop j (overwrite bs i cs)) = take n (drop j bs)"
  using assms by (intro nth_equalityI) (auto simp: nth_overwrite)

section \<open>Little-endian encodings\<close>

definition bytes_of :: "nat \<Rightarrow> 'a::len word \<Rightarrow> uchar list" where
  "bytes_of n w = map (\<lambda>i. ucast (drop_bit (8 * i) w)) [0..<n]"

definition of_bytes :: "uchar list \<Rightarrow> 'a::len word" where
  "of_bytes bs = foldr (\<lambda>b acc. ucast b OR push_bit 8 acc) bs 0"

lemma length_bytes_of [simp]: "length (bytes_of n w) = n"
  by (simp add: bytes_of_def)

lemma of_bytes_Nil [simp]: "of_bytes [] = 0"
  by (simp add: of_bytes_def)

lemma of_bytes_Cons [simp]: "of_bytes (b # bs) = ucast b OR push_bit 8 (of_bytes bs)"
  by (simp add: of_bytes_def)

lemma bit_of_bytes:
  "bit (of_bytes bs :: 'a::len word) k \<longleftrightarrow>
     k < LENGTH('a) \<and> k div 8 < length bs \<and> bit (bs ! (k div 8)) (k mod 8)"
proof (induction bs arbitrary: k)
  case Nil
  then show ?case by simp
next
  case (Cons b bs)
  show ?case
  proof (cases "k < 8")
    case True
    then show ?thesis
      by (auto simp: bit_or_iff bit_push_bit_iff bit_ucast_iff)
  next
    case False
    then have k: "k div 8 = Suc ((k - 8) div 8)" "k mod 8 = (k - 8) mod 8" "8 \<le> k"
      by (auto simp: le_div_geq le_mod_geq)
    have nb: "\<not> bit b k"
      using False by (auto dest: bit_imp_le_length)
    show ?thesis
      using Cons.IH[of "k - 8"] k(3) nb
      by (auto simp: bit_or_iff bit_push_bit_iff bit_ucast_iff k(1,2))
  qed
qed

lemma of_bytes_bytes_of:
  fixes w :: "'a::len word"
  assumes "LENGTH('a) \<le> 8 * n"
  shows "of_bytes (bytes_of n w) = w"
proof (rule bit_word_eqI)
  fix k assume "k < LENGTH('a)"
  moreover from this assms have "k div 8 < n" by auto
  moreover have "k mod 8 < 8" by simp
  ultimately show "bit (of_bytes (bytes_of n w) :: 'a word) k = bit w k"
    by (simp add: bit_of_bytes bytes_of_def bit_ucast_iff bit_drop_bit_eq)
qed

lemma bytes_of_of_bytes:
  assumes "length bs = n" "8 * n \<le> LENGTH('a::len)"
  shows "bytes_of n (of_bytes bs :: 'a word) = bs"
proof (rule nth_equalityI)
  show "length (bytes_of n (of_bytes bs :: 'a word)) = length bs"
    using assms by simp
next
  fix i assume "i < length (bytes_of n (of_bytes bs :: 'a word))"
  then have i: "i < n" by simp
  show "bytes_of n (of_bytes bs :: 'a word) ! i = bs ! i"
  proof (rule bit_word_eqI)
    fix k assume "k < LENGTH(8)"
    then have k: "k < 8" by simp
    then have "(8 * i + k) div 8 = i" "(8 * i + k) mod 8 = k" "8 * i + k < LENGTH('a)"
      using i assms by auto
    then show "bit (bytes_of n (of_bytes bs :: 'a word) ! i) k = bit (bs ! i) k"
      using i k assms by (simp add: bytes_of_def bit_ucast_iff bit_drop_bit_eq bit_of_bytes)
  qed
qed

lemma of_bytes_replicate0 [simp]: "of_bytes (replicate n 0) = 0"
  by (induction n) auto

text \<open>Reading and writing a 32-bit field of a byte array, as a C cast of the array does.\<close>

definition get32 :: "uchar list \<Rightarrow> nat \<Rightarrow> uint" where
  "get32 bs i = of_bytes (take 4 (drop i bs))"

definition put32 :: "uchar list \<Rightarrow> nat \<Rightarrow> uint \<Rightarrow> uchar list" where
  "put32 bs i w = overwrite bs i (bytes_of 4 w)"

definition get16 :: "uchar list \<Rightarrow> nat \<Rightarrow> ushort" where
  "get16 bs i = of_bytes (take 2 (drop i bs))"

definition put16 :: "uchar list \<Rightarrow> nat \<Rightarrow> ushort \<Rightarrow> uchar list" where
  "put16 bs i w = overwrite bs i (bytes_of 2 w)"

lemma length_put32 [simp]: "i + 4 \<le> length bs \<Longrightarrow> length (put32 bs i w) = length bs"
  by (simp add: put32_def)

lemma length_put16 [simp]: "i + 2 \<le> length bs \<Longrightarrow> length (put16 bs i w) = length bs"
  by (simp add: put16_def)

lemma get32_put32_same: "i + 4 \<le> length bs \<Longrightarrow> get32 (put32 bs i w) i = w"
  using take_drop_overwrite_same[of i "bytes_of 4 w" bs]
  by (simp add: get32_def put32_def of_bytes_bytes_of)

lemma get32_put32_other:
  "i + 4 \<le> length bs \<Longrightarrow> j + 4 \<le> length bs \<Longrightarrow> j + 4 \<le> i \<or> i + 4 \<le> j \<Longrightarrow>
   get32 (put32 bs i w) j = get32 bs j"
  using take_drop_overwrite_other[of i "bytes_of 4 w" bs j 4]
  by (simp add: get32_def put32_def)

lemma get16_put16_same: "i + 2 \<le> length bs \<Longrightarrow> get16 (put16 bs i w) i = w"
  using take_drop_overwrite_same[of i "bytes_of 2 w" bs]
  by (simp add: get16_def put16_def of_bytes_bytes_of)

lemma get16_put16_other:
  "i + 2 \<le> length bs \<Longrightarrow> j + 2 \<le> length bs \<Longrightarrow> j + 2 \<le> i \<or> i + 2 \<le> j \<Longrightarrow>
   get16 (put16 bs i w) j = get16 bs j"
  using take_drop_overwrite_other[of i "bytes_of 2 w" bs j 2]
  by (simp add: get16_def put16_def)

lemma get16_put32_other:
  "i + 4 \<le> length bs \<Longrightarrow> j + 2 \<le> length bs \<Longrightarrow> j + 2 \<le> i \<or> i + 4 \<le> j \<Longrightarrow>
   get16 (put32 bs i w) j = get16 bs j"
  using take_drop_overwrite_other[of i "bytes_of 4 w" bs j 2]
  by (simp add: get16_def put32_def)

lemma get32_put16_other:
  "i + 2 \<le> length bs \<Longrightarrow> j + 4 \<le> length bs \<Longrightarrow> j + 4 \<le> i \<or> i + 2 \<le> j \<Longrightarrow>
   get32 (put16 bs i w) j = get32 bs j"
  using take_drop_overwrite_other[of i "bytes_of 2 w" bs j 4]
  by (simp add: get32_def put16_def)

section \<open>Byte-addressed memory\<close>

type_synonym memory = "uint64 \<Rightarrow> uchar"

definition load_bytes :: "memory \<Rightarrow> uint64 \<Rightarrow> nat \<Rightarrow> uchar list" where
  "load_bytes m a n = map (\<lambda>i. m (a + of_nat i)) [0..<n]"

definition store_bytes :: "memory \<Rightarrow> uint64 \<Rightarrow> uchar list \<Rightarrow> memory" where
  "store_bytes m a bs = (\<lambda>x. if unat (x - a) < length bs then bs ! unat (x - a) else m x)"

definition load64 :: "memory \<Rightarrow> uint64 \<Rightarrow> uint64" where
  "load64 m a = of_bytes (load_bytes m a 8)"

definition store64 :: "memory \<Rightarrow> uint64 \<Rightarrow> uint64 \<Rightarrow> memory" where
  "store64 m a w = store_bytes m a (bytes_of 8 w)"

text \<open>The addresses of an object of \<open>n\<close> bytes at \<open>a\<close>.\<close>

definition span :: "uint64 \<Rightarrow> nat \<Rightarrow> uint64 set" where
  "span a n = {x. unat (x - a) < n}"

lemma length_load_bytes [simp]: "length (load_bytes m a n) = n"
  by (simp add: load_bytes_def)

lemma store_bytes_outside: "x \<notin> span a (length bs) \<Longrightarrow> store_bytes m a bs x = m x"
  by (simp add: store_bytes_def span_def)

lemma load_bytes_cong:
  assumes "\<And>x. x \<in> span a n \<Longrightarrow> m x = m' x" "n \<le> 2 ^ 64"
  shows "load_bytes m a n = load_bytes m' a n"
  unfolding load_bytes_def
proof (rule map_cong)
  fix i assume "i \<in> set [0..<n]"
  then have i: "i < n" by simp
  with assms(2) have "unat (of_nat i :: uint64) = i"
    by (simp add: unat_of_nat)
  with i show "m (a + of_nat i) = m' (a + of_nat i)"
    by (intro assms(1)) (simp add: span_def)
qed simp

lemma load_store_bytes_same:
  assumes "length bs = n" "n \<le> 2 ^ 64"
  shows "load_bytes (store_bytes m a bs) a n = bs"
proof (rule nth_equalityI)
  show "length (load_bytes (store_bytes m a bs) a n) = length bs" using assms by simp
next
  fix i assume "i < length (load_bytes (store_bytes m a bs) a n)"
  then have i: "i < n" by simp
  with assms(2) have "unat (of_nat i :: uint64) = i"
    by (simp add: unat_of_nat)
  with i assms(1) show "load_bytes (store_bytes m a bs) a n ! i = bs ! i"
    by (simp add: load_bytes_def store_bytes_def)
qed

lemma load_store_bytes_other:
  assumes "span a (length bs) \<inter> span b n = {}" "n \<le> 2 ^ 64"
  shows "load_bytes (store_bytes m a bs) b n = load_bytes m b n"
  using assms by (intro load_bytes_cong store_bytes_outside) auto

lemma load64_store64_same [simp]: "load64 (store64 m a w) a = w"
  by (simp add: load64_def store64_def load_store_bytes_same of_bytes_bytes_of)

lemma load64_store_bytes_other:
  "span a (length bs) \<inter> span b 8 = {} \<Longrightarrow> load64 (store_bytes m a bs) b = load64 m b"
  by (simp add: load64_def load_store_bytes_other)

lemma load64_store64_other:
  "span a 8 \<inter> span b 8 = {} \<Longrightarrow> load64 (store64 m a w) b = load64 m b"
  by (simp add: store64_def load64_store_bytes_other)

end
