(* ===== verification/Kstring.thy ===== *)
theory Kstring
  imports Xv6_Prelude
begin

text \<open>
  The memory and string routines of \<^verbatim>\<open>kernel/string.c\<close>. \<open>memset\<close>, \<open>memmove\<close> and \<open>memcpy\<close> work
  on byte-addressed memory, so that overlapping source and destination are represented; their
  loops are recursions on the remaining count. The string routines read and write C objects
  given as byte lists (the bytes from the pointer to the end of the object): running off the
  object is \<^const>\<open>Undef\<close>.
\<close>

section \<open>memset, memmove, memcpy\<close>

fun memset_loop :: "memory \<Rightarrow> uint64 \<Rightarrow> uchar \<Rightarrow> nat \<Rightarrow> nat \<Rightarrow> memory" where
  "memset_loop m dst c i 0 = m"
| "memset_loop m dst c i (Suc k) = memset_loop (m(dst + of_nat i := c)) dst c (Suc i) k"

definition memset :: "memory \<Rightarrow> uint64 \<Rightarrow> uchar \<Rightarrow> uint \<Rightarrow> memory" where
  "memset m dst c n = memset_loop m dst c 0 (unat n)"

fun copy_forward :: "memory \<Rightarrow> uint64 \<Rightarrow> uint64 \<Rightarrow> nat \<Rightarrow> memory" where
  "copy_forward m d s 0 = m"
| "copy_forward m d s (Suc n) = copy_forward (m(d := m s)) (d + 1) (s + 1) n"

fun copy_backward :: "memory \<Rightarrow> uint64 \<Rightarrow> uint64 \<Rightarrow> nat \<Rightarrow> memory" where
  "copy_backward m d s 0 = m"
| "copy_backward m d s (Suc n) = copy_backward (m(d - 1 := m (s - 1))) (d - 1) (s - 1) n"

definition memmove :: "memory \<Rightarrow> uint64 \<Rightarrow> uint64 \<Rightarrow> uint \<Rightarrow> memory" where
  "memmove m dst src n =
     (if n = 0 then m
      else if src < dst \<and> src + ucast n > dst
      then copy_backward m (dst + ucast n) (src + ucast n) (unat n)
      else copy_forward m dst src (unat n))"

definition memcpy :: "memory \<Rightarrow> uint64 \<Rightarrow> uint64 \<Rightarrow> uint \<Rightarrow> memory" where
  "memcpy m dst src n = memmove m dst src n"

text \<open>The user-level \<open>memmove\<close> of \<^verbatim>\<open>user/ulib.c\<close> picks the direction by address order alone.\<close>

definition ulib_memmove :: "memory \<Rightarrow> uint64 \<Rightarrow> uint64 \<Rightarrow> int \<Rightarrow> memory" where
  "ulib_memmove m vdst vsrc n =
     (if vsrc > vdst then copy_forward m vdst vsrc (nat n)
      else copy_backward m (vdst + of_int n) (vsrc + of_int n) (nat n))"

section \<open>String routines\<close>

fun memcmp :: "uchar list \<Rightarrow> uchar list \<Rightarrow> nat \<Rightarrow> int outcome" where
  "memcmp s1 s2 0 = Ret 0"
| "memcmp (a # s1) (b # s2) (Suc n) =
     (if a \<noteq> b then Ret (uint a - uint b) else memcmp s1 s2 n)"
| "memcmp _ _ (Suc n) = Undef"

fun strncmp :: "uchar list \<Rightarrow> uchar list \<Rightarrow> nat \<Rightarrow> int outcome" where
  "strncmp p q 0 = Ret 0"
| "strncmp (a # p) (b # q) (Suc n) =
     (if a \<noteq> 0 \<and> a = b then strncmp p q n else Ret (uint a - uint b))"
| "strncmp _ _ (Suc n) = Undef"

text \<open>The bytes that the two loops of \<open>strncpy\<close> store, given \<open>n\<close> stores to make.\<close>

fun strncpy_stores :: "uchar list \<Rightarrow> nat \<Rightarrow> uchar list outcome" where
  "strncpy_stores t 0 = Ret []"
| "strncpy_stores (c # t) (Suc n) =
     (if c = 0 then Ret (0 # replicate n 0)
      else bindo (strncpy_stores t n) (\<lambda>r. Ret (c # r)))"
| "strncpy_stores [] (Suc n) = Undef"

definition strncpy :: "uchar list \<Rightarrow> uchar list \<Rightarrow> int \<Rightarrow> uchar list outcome" where
  "strncpy s t n =
     bindo (strncpy_stores t (nat n))
       (\<lambda>w. if length w \<le> length s then Ret (overwrite s 0 w) else Undef)"

text \<open>The bytes that \<open>safestrcpy\<close> stores; the count is the decremented \<open>n\<close> of its loop head.\<close>

fun safestrcpy_stores :: "uchar list \<Rightarrow> nat \<Rightarrow> uchar list outcome" where
  "safestrcpy_stores t 0 = Ret [0]"
| "safestrcpy_stores (c # t) (Suc n) =
     (if c = 0 then Ret [0, 0]
      else bindo (safestrcpy_stores t n) (\<lambda>r. Ret (c # r)))"
| "safestrcpy_stores [] (Suc n) = Undef"

definition safestrcpy :: "uchar list \<Rightarrow> uchar list \<Rightarrow> int \<Rightarrow> uchar list outcome" where
  "safestrcpy s t n =
     (if n \<le> 0 then Ret s
      else bindo (safestrcpy_stores t (nat n - 1))
             (\<lambda>w. if length w \<le> length s then Ret (overwrite s 0 w) else Undef))"

fun strlen :: "uchar list \<Rightarrow> nat outcome" where
  "strlen [] = Undef"
| "strlen (c # s) = (if c = 0 then Ret 0 else bindo (strlen s) (\<lambda>n. Ret (Suc n)))"

section \<open>Memory routines are block copies\<close>

lemma memset_loop_eq:
  assumes "i + k \<le> 2 ^ 64"
  shows "memset_loop m dst c i k =
    (\<lambda>x. if i \<le> unat (x - dst) \<and> unat (x - dst) < i + k then c else m x)"
  using assms
proof (induction m dst c i k rule: memset_loop.induct)
  case (1 m dst c i)
  show ?case by (auto simp: fun_eq_iff)
next
  case (2 m dst c i k)
  have i: "unat (of_nat i :: uint64) = i"
    using 2 by (simp add: unat_of_nat)
  have eq: "(x = dst + of_nat i) = (unat (x - dst) = i)" for x
    using i by (metis add.commute diff_add_cancel add_diff_cancel_left' word_unat_eq_iff)
  show ?case
  proof
    fix x
    have "memset_loop m dst c i (Suc k) x =
        (if Suc i \<le> unat (x - dst) \<and> unat (x - dst) < Suc i + k then c
         else (m(dst + of_nat i := c)) x)"
      using 2 by (simp del: fun_upd_apply)
    also have "(m(dst + of_nat i := c)) x = (if unat (x - dst) = i then c else m x)"
      by (simp add: eq)
    finally show "memset_loop m dst c i (Suc k) x =
        (if i \<le> unat (x - dst) \<and> unat (x - dst) < i + Suc k then c else m x)"
      by auto
  qed
qed

lemma memset_eq_store: "memset m dst c n = store_bytes m dst (replicate (unat n) c)"
proof -
  have "unat n \<le> 2 ^ 64"
    using unsigned_less[where 'b = 32 and 'a = nat, of n] by simp
  then show ?thesis
    by (auto simp: memset_def memset_loop_eq store_bytes_def)
qed

lemma copy_forward_eq:
  assumes "n \<le> 2 ^ 64" "\<And>k. 0 < k \<Longrightarrow> k < n \<Longrightarrow> s + of_nat k \<noteq> d"
  shows "copy_forward m d s n = (\<lambda>x. if unat (x - d) < n then m (s + (x - d)) else m x)"
  using assms
proof (induction m d s n rule: copy_forward.induct)
  case (1 m d s)
  then show ?case by simp
next
  case (2 m d s n)
  have IH: "copy_forward (m(d := m s)) (d + 1) (s + 1) n =
    (\<lambda>x. if unat (x - (d + 1)) < n then (m(d := m s)) (s + 1 + (x - (d + 1))) else (m(d := m s)) x)"
  proof (rule "2.IH")
    show "n \<le> 2 ^ 64" using "2.prems"(1) by simp
    show "s + 1 + of_nat k \<noteq> d + 1" if "0 < k" "k < n" for k
      using "2.prems"(2)[of k] that by (simp add: algebra_simps)
  qed
  have split: "unat (x - d) < Suc n \<longleftrightarrow> x = d \<or> unat (x - (d + 1)) < n" if "x \<noteq> d" for x
  proof -
    have "x - d \<noteq> 0" using that by simp
    then have "unat (x - d) = Suc (unat (x - d - 1))"
      by (metis Suc_pred' unat_gt_0 unat_minus_one)
    then show ?thesis using that by (simp add: diff_diff_eq)
  qed
  have no: "s + (x - d) \<noteq> d" if "x \<noteq> d" "unat (x - (d + 1)) < n" for x
  proof -
    have "unat (x - d) < Suc n" using split[OF that(1)] that by simp
    moreover have "0 < unat (x - d)" using that(1) by (simp add: unat_gt_0)
    ultimately have "s + of_nat (unat (x - d)) \<noteq> d"
      using "2.prems"(2) by blast
    then show ?thesis by simp
  qed
  have d1: "\<not> unat (d - (d + 1)) < n" if "n < 2 ^ 64"
  proof -
    have "d - (d + 1) = (- 1 :: uint64)" by simp
    moreover have "unat (- 1 :: uint64) = 2 ^ 64 - 1" by (simp add: unsigned_minus_1_eq_mask mask_eq_exp_minus_1)
    ultimately show ?thesis using that by simp
  qed
  show ?case
  proof
    fix x
    show "copy_forward m d s (Suc n) x = (if unat (x - d) < Suc n then m (s + (x - d)) else m x)"
    proof (cases "x = d")
      case True
      then show ?thesis using IH d1 "2.prems"(1) by simp
    next
      case False
      then show ?thesis
        using IH split[OF False] no[OF False] by (simp add: algebra_simps)
    qed
  qed
qed

lemma copy_backward_eq:
  assumes "n \<le> 2 ^ 64" "\<And>k. 0 < k \<Longrightarrow> k < n \<Longrightarrow> d + of_nat k \<noteq> s"
  shows "copy_backward m d s n =
    (\<lambda>x. if unat (x - (d - of_nat n)) < n then m (s - of_nat n + (x - (d - of_nat n))) else m x)"
  using assms
proof (induction m d s n rule: copy_backward.induct)
  case (1 m d s)
  then show ?case by simp
next
  case (2 m d s n)
  let ?D = "d - of_nat (Suc n)" and ?S = "s - of_nat (Suc n)"
  have eqs: "d - 1 - of_nat n = ?D" "s - 1 - of_nat n = ?S" by (simp_all add: algebra_simps)
  have IH: "copy_backward (m(d - 1 := m (s - 1))) (d - 1) (s - 1) n =
    (\<lambda>x. if unat (x - ?D) < n then (m(d - 1 := m (s - 1))) (?S + (x - ?D))
         else (m(d - 1 := m (s - 1))) x)"
    unfolding eqs[symmetric]
  proof (rule "2.IH")
    show "n \<le> 2 ^ 64" using "2.prems"(1) by simp
    show "d - 1 + of_nat k \<noteq> s - 1" if "0 < k" "k < n" for k
      using "2.prems"(2)[of k] that by (simp add: algebra_simps)
  qed
  have n: "unat (of_nat n :: uint64) = n"
    using "2.prems"(1) by (simp add: unat_of_nat)
  have last: "x = d - 1 \<longleftrightarrow> unat (x - ?D) = n" for x
  proof -
    have "x = d - 1 \<longleftrightarrow> x - ?D = of_nat n" by (auto simp: algebra_simps)
    then show ?thesis using n by (metis word_unat_eq_iff)
  qed
  have no: "?S + (x - ?D) \<noteq> d - 1" if "unat (x - ?D) < n" for x
  proof
    assume eq: "?S + (x - ?D) = d - 1"
    define j where "j = unat (x - ?D)"
    have xj: "x - ?D = of_nat j" by (simp add: j_def)
    have "d + of_nat (n - j) = s"
      using eq that[folded j_def] unfolding xj by (simp add: of_nat_diff algebra_simps)
    moreover have "0 < n - j" "n - j < Suc n" using that[folded j_def] by simp_all
    ultimately show False using "2.prems"(2) by blast
  qed
  show ?case
  proof
    fix x
    consider "unat (x - ?D) < n" | "unat (x - ?D) = n" | "n < unat (x - ?D)" by linarith
    then show "copy_backward m d s (Suc n) x =
      (if unat (x - ?D) < Suc n then m (?S + (x - ?D)) else m x)"
    proof cases
      case 1
      then show ?thesis using IH no[OF 1] by simp
    next
      case 2
      then have "x = d - 1" by (simp add: last)
      then have "?S + (x - ?D) = s - 1" by (simp add: algebra_simps)
      then show ?thesis using IH 2 \<open>x = d - 1\<close> by simp
    next
      case 3
      then have "x \<noteq> d - 1" by (simp add: last)
      then show ?thesis using IH 3 by simp
    qed
  qed
qed

lemma store_load_bytes:
  "n \<le> 2 ^ 64 \<Longrightarrow> store_bytes m d (load_bytes m' s n) =
     (\<lambda>x. if unat (x - d) < n then m' (s + (x - d)) else m x)"
  by (auto simp: store_bytes_def load_bytes_def fun_eq_iff)

lemma unat_plus_eq_nowrap:
  fixes a :: uint64
  assumes "unat a + k < 2 ^ 64"
  shows "unat (a + of_nat k) = unat a + k"
  using assms by (simp add: unat_word_ariths unat_of_nat)

lemma memmove_eq_store:
  assumes "unat src + unat n < 2 ^ 64" "unat dst + unat n < 2 ^ 64"
  shows "memmove m dst src n = store_bytes m dst (load_bytes m src (unat n))"
proof -
  have n: "(ucast n :: uint64) = of_nat (unat n)" by simp
  have nle: "unat n \<le> 2 ^ 64" using assms by simp
  have sum: "unat (a + of_nat k) = unat a + k" if "k \<le> unat n" "a = src \<or> a = dst" for a k
    using that assms by (intro unat_plus_eq_nowrap) auto
  show ?thesis
  proof (cases "src < dst \<and> src + ucast n > dst")
    case True
    have "dst + of_nat (unat n) + of_nat k \<noteq> src + of_nat (unat n)" if "0 < k" "k < unat n" for k
    proof
      assume "dst + of_nat (unat n) + of_nat k = src + of_nat (unat n)"
      then have "dst + of_nat k = src" by (simp add: algebra_simps)
      then have "unat dst + k = unat src" using sum[of k dst] that by auto
      then show False using True by (simp add: word_less_nat_alt)
    qed
    then have "copy_backward m (dst + ucast n) (src + ucast n) (unat n) =
        store_bytes m dst (load_bytes m src (unat n))"
      unfolding n
      by (subst copy_backward_eq) (use nle in \<open>simp_all add: store_load_bytes fun_eq_iff algebra_simps\<close>)
    then show ?thesis using True by (auto simp: memmove_def)
  next
    case False
    have "src + of_nat k \<noteq> dst" if "0 < k" "k < unat n" for k
    proof
      assume eq: "src + of_nat k = dst"
      then have "unat dst = unat src + k" using sum[of k src] that by auto
      moreover have "unat (src + ucast n) = unat src + unat n" using sum[of "unat n" src] by simp
      ultimately have "src < dst \<and> src + ucast n > dst" using that by (simp add: word_less_nat_alt)
      then show False using False by simp
    qed
    then have "copy_forward m dst src (unat n) = store_bytes m dst (load_bytes m src (unat n))"
      by (subst copy_forward_eq) (use nle in \<open>simp_all add: store_load_bytes\<close>)
    moreover have "store_bytes m dst (load_bytes m src 0) = m" by (simp add: store_bytes_def)
    ultimately show ?thesis using False by (auto simp: memmove_def)
  qed
qed

text \<open>
  C25. \<open>memmove\<close> copies correctly whether or not source and destination overlap: when neither
  range wraps around the address space, the destination range ends up with exactly the bytes
  the source range had before the call, and nothing else changes.
\<close>

theorem memmove_correct:
  assumes "unat src + unat n < 2 ^ 64" "unat dst + unat n < 2 ^ 64"
  shows "memmove m dst src n = store_bytes m dst (load_bytes m src (unat n))"
  using assms by (rule memmove_eq_store)

theorem memmove_correct_witness:
  "unat (4096 :: uint64) + unat (16 :: uint) < 2 ^ 64 \<and> unat (4100 :: uint64) + unat (16 :: uint) < 2 ^ 64 \<and>
   memmove (\<lambda>a. ucast a) 4100 4096 16 4107 = 7"
proof -
  have h: "unat (4096 :: uint64) + unat (16 :: uint) < 2 ^ 64" "unat (4100 :: uint64) + unat (16 :: uint) < 2 ^ 64"
    by simp_all
  show ?thesis
    using h by (simp add: memmove_correct[OF h] store_bytes_def load_bytes_def)
qed

section \<open>C strings\<close>

text \<open>The string a C object holds: its bytes up to the first NUL.\<close>

definition cstr :: "uchar list \<Rightarrow> uchar list" where
  "cstr bs = takeWhile (\<lambda>c. c \<noteq> 0) bs"

lemma cstr_Nil [simp]: "cstr [] = []" by (simp add: cstr_def)

lemma cstr_Cons [simp]: "cstr (c # s) = (if c = 0 then [] else c # cstr s)"
  by (simp add: cstr_def)

text \<open>At least \<open>n\<close> bytes of the object can be read before its end or its NUL.\<close>

definition readable_str :: "uchar list \<Rightarrow> nat \<Rightarrow> bool" where
  "readable_str bs n \<longleftrightarrow> 0 \<in> set bs \<or> n \<le> length bs"

lemma strncmp_Ret:
  "readable_str p n \<Longrightarrow> readable_str q n \<Longrightarrow> \<exists>r. strncmp p q n = Ret r"
  by (induction p q n rule: strncmp.induct) (auto simp: readable_str_def)

lemma strncmp_0_iff:
  "readable_str p n \<Longrightarrow> readable_str q n \<Longrightarrow>
   strncmp p q n = Ret 0 \<longleftrightarrow> take n (cstr p) = take n (cstr q)"
  by (induction p q n rule: strncmp.induct)
    (auto simp: readable_str_def uint_0_iff dest: word_uint_eqI)

lemma strncpy_stores_eq:
  "readable_str t n \<Longrightarrow>
   strncpy_stores t n = Ret (take n (cstr t) @ replicate (n - length (cstr t)) 0)"
  by (induction t n rule: strncpy_stores.induct) (auto simp: readable_str_def)

lemma safestrcpy_stores_ex:
  "readable_str t n \<Longrightarrow>
   \<exists>z. safestrcpy_stores t n = Ret (take n (cstr t) @ z) \<and> z \<noteq> [] \<and> hd z = 0 \<and>
       length (take n (cstr t) @ z) \<le> Suc n"
  by (induction t n rule: safestrcpy_stores.induct) (auto simp: readable_str_def)

lemma cstr_append_NUL: "0 \<notin> set a \<Longrightarrow> cstr (a @ 0 # b) = a"
  by (induction a) auto

lemma NUL_notin_cstr [simp]: "0 \<notin> set (take n (cstr t))"
  by (auto simp: cstr_def dest!: in_set_takeD set_takeWhileD)

lemma strlen_eq: "0 \<in> set s \<Longrightarrow> strlen s = Ret (length (cstr s))"
  by (induction s) auto

text \<open>
  C31. \<open>safestrcpy\<close> always leaves a NUL-terminated string: copying into a buffer of \<open>n\<close> bytes
  succeeds without leaving the buffer, keeps its size, and the buffer then holds the first
  \<open>n - 1\<close> characters of the source string.
\<close>

theorem safestrcpy_terminates:
  assumes "0 < n" "length s = nat n" "readable_str t (nat n - 1)"
  shows "\<exists>s'. safestrcpy s t n = Ret s' \<and> length s' = length s \<and> 0 \<in> set s' \<and>
     cstr s' = take (nat n - 1) (cstr t)"
proof -
  from safestrcpy_stores_ex[OF assms(3)] obtain z where
    z: "safestrcpy_stores t (nat n - 1) = Ret (take (nat n - 1) (cstr t) @ z)" "z \<noteq> []" "hd z = 0"
       "length (take (nat n - 1) (cstr t) @ z) \<le> Suc (nat n - 1)"
    by blast
  from z(2,3) obtain z' where z': "z = 0 # z'" by (cases z) auto
  let ?w = "take (nat n - 1) (cstr t) @ z"
  have len: "length ?w \<le> length s" using z(4) assms by simp
  then have s': "safestrcpy s t n = Ret (overwrite s 0 ?w)"
    using assms z(1) by (simp add: safestrcpy_def)
  have "overwrite s 0 ?w = take (nat n - 1) (cstr t) @ 0 # (z' @ drop (length ?w) s)"
    by (simp add: overwrite_def z')
  then have "cstr (overwrite s 0 ?w) = take (nat n - 1) (cstr t)" "0 \<in> set (overwrite s 0 ?w)"
    using cstr_append_NUL[OF NUL_notin_cstr] by simp_all
  then show ?thesis using s' len by simp
qed

theorem safestrcpy_terminates_witness:
  "readable_str [104, 105, 0] 15 \<and>
   (\<exists>s'. safestrcpy (replicate 16 7) [104, 105, 0] 16 = Ret s' \<and> length s' = 16 \<and> 0 \<in> set s' \<and>
      cstr s' = [104, 105])"
  using safestrcpy_terminates[of 16 "replicate 16 7" "[104, 105, 0]"]
  by (simp add: readable_str_def)

end
