(* ===== verification/Kalloc.thy ===== *)
theory Kalloc
  imports Kstring
begin

text \<open>
  The physical page allocator of \<^verbatim>\<open>kernel/kalloc.c\<close>. The state is the kernel's memory, the head
  pointer \<open>kmem.freelist\<close> and the linker symbol \<open>end\<close>; a free page holds the pointer to the next
  free page in its first eight bytes, exactly as \<open>struct run\<close> overlays it. Critical sections
  under \<open>kmem.lock\<close> are single steps.
\<close>

section \<open>State and operations\<close>

abbreviation (input) PGSIZE :: uint64 where "PGSIZE \<equiv> 4096"
abbreviation (input) KERNBASE :: uint64 where "KERNBASE \<equiv> 0x80000000"
abbreviation (input) PHYSTOP :: uint64 where "PHYSTOP \<equiv> 0x88000000"

definition PGROUNDUP :: "uint64 \<Rightarrow> uint64" where
  "PGROUNDUP sz = (sz + PGSIZE - 1) AND NOT (PGSIZE - 1)"

definition PGROUNDDOWN :: "uint64 \<Rightarrow> uint64" where
  "PGROUNDDOWN a = a AND NOT (PGSIZE - 1)"

definition page_aligned :: "uint64 \<Rightarrow> bool" where
  "page_aligned p \<longleftrightarrow> p mod PGSIZE = 0"

record kmem_state =
  mem :: memory
  freelist :: uint64
  kend :: uint64

definition kfree :: "uint64 \<Rightarrow> 'a kmem_state_scheme \<Rightarrow> 'a kmem_state_scheme outcome" where
  "kfree pa s =
     (if pa mod PGSIZE \<noteq> 0 \<or> pa < kend s \<or> pa \<ge> PHYSTOP then Panic ''kfree''
      else let m = memset (mem s) pa 1 4096
           in Ret (s\<lparr>mem := store64 m pa (freelist s), freelist := pa\<rparr>))"

definition kalloc :: "'a kmem_state_scheme \<Rightarrow> uint64 \<times> 'a kmem_state_scheme" where
  "kalloc s =
     (let r = freelist s;
          s1 = (if r \<noteq> 0 then s\<lparr>freelist := load64 (mem s) r\<rparr> else s)
      in (r, if r \<noteq> 0 then s1\<lparr>mem := memset (mem s1) r 5 4096\<rparr> else s1))"

lemma PHYSTOP_step:
  fixes p :: uint64
  assumes "page_aligned p" "p < PHYSTOP"
  shows "(0x88000000 :: nat) - unat (p + PGSIZE) < 0x88000000 - unat p"
proof -
  have "unat p < 0x88000000" using assms(2) by (simp add: word_less_nat_alt)
  then have "unat (p + PGSIZE) = unat p + 4096" by (simp add: unat_word_ariths)
  then show ?thesis using \<open>unat p < 0x88000000\<close> by simp
qed

lemma kfree_Ret_iff:
  "kfree pa s = Ret s' \<longleftrightarrow>
     page_aligned pa \<and> kend s \<le> pa \<and> pa < PHYSTOP \<and>
     s' = s\<lparr>mem := store64 (memset (mem s) pa 1 4096) pa (freelist s), freelist := pa\<rparr>"
  by (auto simp: kfree_def page_aligned_def Let_def not_less)

text \<open>The loop of \<open>freerange\<close> stops because \<open>kfree\<close> panics at \<open>PHYSTOP\<close>.\<close>

function freerange_loop :: "uint64 \<Rightarrow> uint64 \<Rightarrow> 'a kmem_state_scheme \<Rightarrow> 'a kmem_state_scheme outcome" where
  "freerange_loop p pa_end s =
     (if p + PGSIZE \<le> pa_end
      then bindo (kfree p s) (\<lambda>s'. freerange_loop (p + PGSIZE) pa_end s')
      else Ret s)"
  by pat_completeness auto
termination
  by (relation "measure (\<lambda>(p, pa_end, s). unat PHYSTOP - unat p)")
    (simp_all add: kfree_Ret_iff PHYSTOP_step)

declare freerange_loop.simps [simp del]

definition freerange :: "uint64 \<Rightarrow> uint64 \<Rightarrow> 'a kmem_state_scheme \<Rightarrow> 'a kmem_state_scheme outcome" where
  "freerange pa_start pa_end s = freerange_loop (PGROUNDUP pa_start) pa_end s"

definition kinit :: "'a kmem_state_scheme \<Rightarrow> 'a kmem_state_scheme outcome" where
  "kinit s = freerange (kend s) PHYSTOP s"

section \<open>Pages\<close>

lemma div_eq_iff_range: "(0::nat) < n \<Longrightarrow> x div n = k \<longleftrightarrow> k * n \<le> x \<and> x < k * n + n"
  using dividend_less_times_div[of n x] by (auto simp: div_nat_eqI algebra_simps)

lemma page_aligned_unat:
  fixes p :: uint64
  assumes "page_aligned p"
  obtains k where "unat p = k * 4096"
proof -
  from assms have "unat p mod 4096 = 0"
    unfolding page_aligned_def by (drule_tac arg_cong[where f = unat]) (simp add: unat_mod)
  then show ?thesis using that by (metis mult.commute mod_0_imp_dvd dvdE)
qed

lemma span_page_iff:
  fixes p x :: uint64
  assumes "page_aligned p"
  shows "x \<in> span p 4096 \<longleftrightarrow> unat x div 4096 = unat p div 4096"
proof -
  from page_aligned_unat[OF assms] obtain k where k: "unat p = k * 4096" .
  have b: "unat x < 2 ^ 64" "unat p < 2 ^ 64"
    using unsigned_less[where 'b = 64 and 'a = nat, of x]
      unsigned_less[where 'b = 64 and 'a = nat, of p] by simp_all
  then have k2: "k * 4096 + 4096 \<le> 2 ^ 64" using k by auto
  have d: "unat p div 4096 = k" using k by simp
  show ?thesis unfolding d span_def mem_Collect_eq
    by (subst div_eq_iff_range)
      (use b k k2 in \<open>auto simp: unat_sub_if' word_le_nat_alt split: if_splits\<close>)
qed

lemma page_eq_iff:
  fixes p q :: uint64
  assumes "page_aligned p" "page_aligned q"
  shows "p = q \<longleftrightarrow> unat p div 4096 = unat q div 4096"
proof -
  from page_aligned_unat[OF assms(1)] obtain k where "unat p = k * 4096" .
  moreover from page_aligned_unat[OF assms(2)] obtain l where "unat q = l * 4096" .
  ultimately show ?thesis by (auto simp: word_unat_eq_iff)
qed

lemma page_disjoint:
  fixes p q :: uint64
  assumes "page_aligned p" "page_aligned q" "p \<noteq> q"
  shows "span p 4096 \<inter> span q 4096 = {}"
  using span_page_iff[OF assms(1)] span_page_iff[OF assms(2)] page_eq_iff[OF assms(1,2)] assms(3)
  by auto

lemma span_mono: "n \<le> n' \<Longrightarrow> span a n \<subseteq> span a n'"
  by (auto simp: span_def)

lemma page_start_disjoint:
  fixes p q :: uint64
  assumes "page_aligned p" "page_aligned q" "p \<noteq> q"
  shows "span p 4096 \<inter> span q 8 = {}"
  using page_disjoint[OF assms] span_mono[of 8 4096 q] by auto

lemma load64_cong: "(\<And>x. x \<in> span a 8 \<Longrightarrow> m x = m' x) \<Longrightarrow> load64 m a = load64 m' a"
  unfolding load64_def by (subst load_bytes_cong[of a 8 m m']) auto

text \<open>Page rounding as arithmetic on the address.\<close>

lemma unat_bound64: "unat (a :: uint64) < 2 ^ 64"
  using unsigned_less[where 'b = 64 and 'a = nat, of a] by simp

lemma unat_PGROUNDDOWN: "unat (PGROUNDDOWN a) = unat a div 4096 * 4096"
proof -
  have m: "(4095 :: uint64) = mask 12" by (simp add: mask_eq_exp_minus_1)
  have a: "a AND NOT 4095 = push_bit 12 (drop_bit 12 a)"
    unfolding m by (rule bit_word_eqI) (auto simp: bit_simps)
  have le: "unat a div 4096 * 4096 < 2 ^ 64"
    using unat_bound64[of a] by (meson div_times_less_eq_dividend order.strict_trans1)
  have "push_bit 12 (drop_bit 12 a) = a div 4096 * 4096"
    by (simp add: drop_bit_eq_div push_bit_eq_mult)
  then have "unat (push_bit 12 (drop_bit 12 a)) = (unat a div 4096 * 4096) mod 2 ^ 64"
    by (simp only: unat_word_ariths unat_div) (simp add: unat_word_ariths mod_mult_left_eq)
  moreover have "PGROUNDDOWN a = a AND NOT 4095" unfolding PGROUNDDOWN_def by (rule arg_cong) simp
  ultimately show ?thesis using le a by (metis mod_less)
qed

lemma aligned_iff_unat: "page_aligned p \<longleftrightarrow> unat p mod 4096 = 0"
  unfolding page_aligned_def by (simp only: word_unat_eq_iff unat_mod unsigned_0) simp

lemma PGROUNDUP_eq: "PGROUNDUP sz = PGROUNDDOWN (sz + 4095)"
  by (simp add: PGROUNDUP_def PGROUNDDOWN_def add.commute)

lemma unat_PGROUNDUP:
  assumes "unat sz + 4095 < 2 ^ 64"
  shows "unat (PGROUNDUP sz) = (unat sz + 4095) div 4096 * 4096"
  using assms by (simp add: PGROUNDUP_eq unat_PGROUNDDOWN unat_word_ariths)

section \<open>The free list\<close>

definition is_page :: "'a kmem_state_scheme \<Rightarrow> uint64 \<Rightarrow> bool" where
  "is_page s p \<longleftrightarrow> page_aligned p \<and> p \<noteq> 0 \<and> kend s \<le> p \<and> p < PHYSTOP"

fun chain :: "memory \<Rightarrow> uint64 \<Rightarrow> uint64 list \<Rightarrow> bool" where
  "chain m p [] = (p = 0)"
| "chain m p (x # xs) = (p = x \<and> chain m (load64 m x) xs)"

definition free_pages :: "'a kmem_state_scheme \<Rightarrow> uint64 list \<Rightarrow> bool" where
  "free_pages s ps \<longleftrightarrow>
     chain (mem s) (freelist s) ps \<and> distinct ps \<and> (\<forall>p \<in> set ps. is_page s p)"

lemma chain_cong:
  "(\<And>x. x \<in> set ps \<Longrightarrow> load64 m x = load64 m' x) \<Longrightarrow> chain m p ps = chain m' p ps"
  by (induction ps arbitrary: p) auto

lemma chain_frame:
  assumes "\<And>x. x \<notin> span p 4096 \<Longrightarrow> m' x = m x" "page_aligned p"
    "\<And>q. q \<in> set ps \<Longrightarrow> page_aligned q \<and> q \<noteq> p"
  shows "chain m' a ps = chain m a ps"
proof (rule chain_cong)
  fix q assume "q \<in> set ps"
  then have "span p 4096 \<inter> span q 8 = {}" using assms by (intro page_start_disjoint) auto
  then show "load64 m' q = load64 m q" using assms(1) by (intro load64_cong) auto
qed

lemma unat_4096_uint [simp]: "unat (4096 :: uint) = 4096" by simp

lemma memset_page_outside: "x \<notin> span p 4096 \<Longrightarrow> memset m p c 4096 x = m x"
  by (simp add: memset_eq_store store_bytes_outside)

lemma store64_outside: "x \<notin> span p 8 \<Longrightarrow> store64 m p w x = m x"
  by (simp add: store64_def store_bytes_outside)

lemma kfree_mem_outside:
  assumes "kfree pa s = Ret s'" "x \<notin> span pa 4096"
  shows "mem s' x = mem s x"
proof -
  have "x \<notin> span pa 8" using assms(2) span_mono[of 8 4096 pa] by auto
  then show ?thesis using assms by (auto simp: kfree_Ret_iff store64_outside memset_page_outside)
qed

lemma kalloc_Nil: "free_pages s [] \<Longrightarrow> kalloc s = (0, s)"
  by (simp add: free_pages_def kalloc_def)

lemma kalloc_Cons:
  assumes "free_pages s (p # ps)"
  shows "kalloc s = (p, s\<lparr>freelist := load64 (mem s) p, mem := memset (mem s) p 5 4096\<rparr>)"
  using assms by (auto simp: free_pages_def kalloc_def is_page_def)

lemma free_pages_kalloc:
  assumes "free_pages s (p # ps)"
  shows "free_pages (snd (kalloc s)) ps"
proof -
  have "chain (memset (mem s) p 5 4096) (load64 (mem s) p) ps = chain (mem s) (load64 (mem s) p) ps"
    using assms by (intro chain_frame[of p]) (auto simp: free_pages_def is_page_def memset_page_outside)
  then show ?thesis
    using assms kalloc_Cons[OF assms] by (auto simp: free_pages_def is_page_def)
qed

lemma free_pages_kfree:
  assumes "free_pages s ps" "is_page s p" "p \<notin> set ps"
  shows "\<exists>s'. kfree p s = Ret s' \<and> free_pages s' (p # ps)"
proof -
  let ?m = "store64 (memset (mem s) p 1 4096) p (freelist s)"
  let ?s = "s\<lparr>mem := ?m, freelist := p\<rparr>"
  have k: "kfree p s = Ret ?s" using assms(2) by (auto simp: kfree_Ret_iff is_page_def)
  have "chain ?m (freelist s) ps = chain (mem s) (freelist s) ps"
    using assms kfree_mem_outside[OF k]
    by (intro chain_frame[of p]) (auto simp: free_pages_def is_page_def)
  then show ?thesis using k assms by (auto simp: free_pages_def is_page_def)
qed

section \<open>The allocator interface\<close>

text \<open>
  What the rest of the kernel relies on: pages handed out are pages of the free pool, they
  leave the pool, and neither operation changes memory outside the page it is about.
\<close>

locale page_allocator =
  fixes alloc :: "'s \<Rightarrow> uint64 \<times> 's"
    and free :: "uint64 \<Rightarrow> 's \<Rightarrow> 's outcome"
    and rd :: "'s \<Rightarrow> memory"
    and page :: "'s \<Rightarrow> uint64 \<Rightarrow> bool"
    and pool :: "'s \<Rightarrow> uint64 list \<Rightarrow> bool"
  assumes pool_pages: "pool s ps \<Longrightarrow> distinct ps \<and> (\<forall>p \<in> set ps. page s p)"
    and page_nonnull: "page s p \<Longrightarrow> p \<noteq> 0 \<and> page_aligned p"
    and alloc_empty: "pool s [] \<Longrightarrow> alloc s = (0, s)"
    and alloc_take: "pool s (p # ps) \<Longrightarrow>
       \<exists>s'. alloc s = (p, s') \<and> pool s' ps \<and> (\<forall>q. page s' q = page s q) \<and>
            (\<forall>x. x \<notin> span p 4096 \<longrightarrow> rd s' x = rd s x)"
    and free_put: "pool s ps \<Longrightarrow> page s p \<Longrightarrow> p \<notin> set ps \<Longrightarrow>
       \<exists>s'. free p s = Ret s' \<and> pool s' (p # ps) \<and> (\<forall>q. page s' q = page s q) \<and>
            (\<forall>x. x \<notin> span p 4096 \<longrightarrow> rd s' x = rd s x)"
begin

lemma alloc_cases:
  assumes "pool s ps"
  obtains (none) "ps = []" "alloc s = (0, s)"
  | (some) p ps' s' where "ps = p # ps'" "alloc s = (p, s')" "pool s' ps'" "p \<noteq> 0"
      "page_aligned p" "page s p" "p \<notin> set ps'" "\<And>q. page s' q = page s q"
      "\<And>x. x \<notin> span p 4096 \<Longrightarrow> rd s' x = rd s x"
proof (cases ps)
  case Nil
  then show ?thesis using none assms alloc_empty by simp
next
  case (Cons p ps')
  then show ?thesis
    using some[of p ps'] assms alloc_take[of s p ps'] pool_pages[of s ps] page_nonnull[of s p]
    by auto
qed

lemma alloc_null_iff: "pool s ps \<Longrightarrow> fst (alloc s) = 0 \<longleftrightarrow> ps = []"
  by (erule alloc_cases) auto

lemma alloc_free_restores:
  assumes "pool s ps" "alloc s = (p, s')" "p \<noteq> 0"
  shows "\<exists>s''. free p s' = Ret s'' \<and> pool s'' ps \<and> (\<forall>x. x \<notin> span p 4096 \<longrightarrow> rd s'' x = rd s x)"
  using assms(1)
proof (cases rule: alloc_cases)
  case none
  then show ?thesis using assms by simp
next
  case (some p' ps' t)
  then have eq: "p' = p" "t = s'" using assms(2) by auto
  then have p: "page s' p" "p \<notin> set ps'" "pool s' ps'" using some by auto
  from free_put[OF p(3) p(1) p(2)] show ?thesis using some eq by auto
qed

end

interpretation kmem: page_allocator kalloc kfree mem is_page free_pages
proof unfold_locales
  fix s :: "'a kmem_state_scheme" and ps p
  show "free_pages s ps \<Longrightarrow> distinct ps \<and> (\<forall>p \<in> set ps. is_page s p)"
    by (simp add: free_pages_def)
  show "is_page s p \<Longrightarrow> p \<noteq> 0 \<and> page_aligned p"
    by (simp add: is_page_def)
  show "free_pages s [] \<Longrightarrow> kalloc s = (0, s)"
    by (rule kalloc_Nil)
  show "free_pages s (p # ps) \<Longrightarrow>
       \<exists>s'. kalloc s = (p, s') \<and> free_pages s' ps \<and> (\<forall>q. is_page s' q = is_page s q) \<and>
            (\<forall>x. x \<notin> span p 4096 \<longrightarrow> mem s' x = mem s x)"
    using free_pages_kalloc[of s p ps]
    by (auto simp: kalloc_Cons is_page_def memset_page_outside)
  show "free_pages s ps \<Longrightarrow> is_page s p \<Longrightarrow> p \<notin> set ps \<Longrightarrow>
       \<exists>s'. kfree p s = Ret s' \<and> free_pages s' (p # ps) \<and> (\<forall>q. is_page s' q = is_page s q) \<and>
            (\<forall>x. x \<notin> span p 4096 \<longrightarrow> mem s' x = mem s x)"
  proof -
    assume a: "free_pages s ps" "is_page s p" "p \<notin> set ps"
    from free_pages_kfree[OF this] obtain s' where s': "kfree p s = Ret s'" "free_pages s' (p # ps)"
      by blast
    then show ?thesis using kfree_mem_outside[OF s'(1)] by (auto simp: kfree_Ret_iff is_page_def)
  qed
qed

section \<open>Boot: the pool after kinit\<close>

lemma next_page_cases:
  fixes p q :: uint64
  assumes "page_aligned p" "page_aligned q" "p < PHYSTOP"
  shows "p \<le> q \<longleftrightarrow> q = p \<or> p + PGSIZE \<le> q"
proof -
  from page_aligned_unat[OF assms(1)] obtain k where k: "unat p = k * 4096" .
  from page_aligned_unat[OF assms(2)] obtain l where l: "unat q = l * 4096" .
  have "unat (p + PGSIZE) = unat p + 4096"
    using assms(3) by (simp add: unat_word_ariths word_less_nat_alt)
  then show ?thesis using k l by (auto simp: word_le_nat_alt word_unat_eq_iff)
qed

lemma aligned_add_page: "page_aligned p \<Longrightarrow> page_aligned (p + PGSIZE)"
  unfolding aligned_iff_unat by (simp add: unat_word_ariths mod_mod_cancel)

lemma freerange_loop_pool:
  assumes "free_pages s ps" "page_aligned p" "p \<noteq> 0" "kend s \<le> p" "p \<le> PHYSTOP"
    "\<And>q. q \<in> set ps \<Longrightarrow> q < p"
  shows "\<exists>s' ps'. freerange_loop p PHYSTOP s = Ret s' \<and> free_pages s' ps' \<and> kend s' = kend s \<and>
    set ps' = set ps \<union> {q. page_aligned q \<and> p \<le> q \<and> q < PHYSTOP}"
  using assms
proof (induction p "PHYSTOP :: uint64" s arbitrary: ps rule: freerange_loop.induct)
  case (1 p s)
  note prems = "1.prems"
  show ?case
  proof (cases "p = PHYSTOP")
    case True
    then have "freerange_loop p PHYSTOP s = Ret s" by (subst freerange_loop.simps) simp
    then show ?thesis using prems True by (intro exI[of _ s] exI[of _ ps]) auto
  next
    case False
    then have lt: "p < PHYSTOP" using prems(5) by simp
    have al: "page_aligned PHYSTOP" by (simp add: page_aligned_def)
    have le: "p + PGSIZE \<le> PHYSTOP"
      using next_page_cases[OF prems(2) al lt] False prems(5) by auto
    have pg: "is_page s p" "p \<notin> set ps" using prems lt by (auto simp: is_page_def)
    from kmem.free_put[OF prems(1) pg] obtain s1 where
      s1: "kfree p s = Ret s1" "free_pages s1 (p # ps)" by blast
    have k1: "kend s1 = kend s" using s1(1) by (auto simp: kfree_Ret_iff)
    have up: "p < p + PGSIZE" "p + PGSIZE \<noteq> 0"
      using lt by (auto simp: word_less_nat_alt unat_word_ariths word_unat_eq_iff)
    have below: "q < p + PGSIZE" if "q \<in> set (p # ps)" for q
      using that prems(6) up(1) by (auto intro: less_trans)
    have "\<exists>s' ps'. freerange_loop (p + PGSIZE) PHYSTOP s1 = Ret s' \<and> free_pages s' ps' \<and>
        kend s' = kend s1 \<and>
        set ps' = set (p # ps) \<union> {q. page_aligned q \<and> p + PGSIZE \<le> q \<and> q < PHYSTOP}"
      using "1.hyps"[OF le s1(1) s1(2) aligned_add_page[OF prems(2)] up(2) _ le below]
        k1 prems(4) up(1) by auto
    moreover have "freerange_loop p PHYSTOP s = freerange_loop (p + PGSIZE) PHYSTOP s1"
      using le s1(1) by (subst freerange_loop.simps) simp
    moreover have "set (p # ps) \<union> {q. page_aligned q \<and> p + PGSIZE \<le> q \<and> q < PHYSTOP} =
        set ps \<union> {q. page_aligned q \<and> p \<le> q \<and> q < PHYSTOP}"
      using next_page_cases[OF prems(2) _ lt] prems(2) lt by auto
    ultimately show ?thesis using k1 by auto
  qed
qed

text \<open>
  C23. After \<open>kinit\<close> the free list is well formed and holds exactly the whole pages between
  the end of the kernel and \<open>PHYSTOP\<close>, each once; \<open>kinit\<close> itself never panics.
\<close>

theorem kinit_pool:
  assumes "freelist s = 0" "kend s \<noteq> 0" "kend s \<le> PHYSTOP"
  shows "\<exists>s' ps. kinit s = Ret s' \<and> free_pages s' ps \<and> set ps = {p. is_page s p}"
proof -
  let ?p = "PGROUNDUP (kend s)"
  have b: "unat (kend s) \<le> 0x88000000" using assms(3) by (simp add: word_le_nat_alt)
  have up: "unat ?p = (unat (kend s) + 4095) div 4096 * 4096"
    by (rule unat_PGROUNDUP) (use b in simp)
  have pos: "unat (kend s) > 0" using assms(2) by (simp add: unat_gt_0)
  have al: "page_aligned ?p" unfolding aligned_iff_unat up by simp
  have lo: "kend s \<le> ?p" unfolding word_le_nat_alt up by arith
  have hi: "?p \<le> PHYSTOP" unfolding word_le_nat_alt up using b by simp
  have nz: "?p \<noteq> 0" using lo pos by (auto simp: word_le_nat_alt)
  have "free_pages s []" using assms(1) by (simp add: free_pages_def)
  from freerange_loop_pool[OF this al nz lo hi] obtain s' ps where
    "freerange_loop ?p PHYSTOP s = Ret s'" "free_pages s' ps"
    "set ps = {q. page_aligned q \<and> ?p \<le> q \<and> q < PHYSTOP}" by auto
  moreover have "?p \<le> q \<longleftrightarrow> kend s \<le> q \<and> q \<noteq> 0" if "page_aligned q" for q
  proof -
    from page_aligned_unat[OF that] obtain k where "unat q = k * 4096" .
    then show ?thesis using pos unfolding word_le_nat_alt up word_unat_eq_iff by auto
  qed
  ultimately show ?thesis
    by (intro exI[of _ s'] exI[of _ ps]) (auto simp: kinit_def freerange_def is_page_def)
qed

theorem kinit_pool_witness:
  "\<exists>s' ps. kinit \<lparr>mem = (\<lambda>_. 0), freelist = 0, kend = 0x80022000\<rparr> = Ret s' \<and> free_pages s' ps \<and>
     0x80022000 \<in> set ps"
proof -
  let ?s = "\<lparr>mem = (\<lambda>_. 0), freelist = 0, kend = 0x80022000\<rparr>"
  have "is_page ?s 0x80022000" by (simp add: is_page_def page_aligned_def)
  then show ?thesis using kinit_pool[of ?s] by auto
qed

text \<open>
  C24. The allocator hands out pages of the pool, never the same page twice without a free in
  between: \<open>kalloc\<close> returns 0 exactly when the pool is empty and otherwise removes the page it
  returns from a pool of distinct pages; giving that page back with \<open>kfree\<close> restores the pool
  and leaves all other memory as it was.
\<close>

theorem kalloc_kfree_roundtrip:
  assumes "free_pages s ps"
  shows "case kalloc s of (p, s') \<Rightarrow>
     (p = 0 \<longleftrightarrow> ps = []) \<and>
     (p \<noteq> 0 \<longrightarrow> is_page s p \<and> ps = p # tl ps \<and> p \<notin> set (tl ps) \<and> free_pages s' (tl ps) \<and>
        (\<exists>s''. kfree p s' = Ret s'' \<and> free_pages s'' ps \<and>
           (\<forall>x. x \<notin> span p 4096 \<longrightarrow> mem s'' x = mem s x)))"
  using assms
proof (cases rule: kmem.alloc_cases)
  case none
  then show ?thesis by simp
next
  case (some p ps' s')
  then show ?thesis using kmem.alloc_free_restores[OF assms some(2) some(4)] by auto
qed

theorem kalloc_kfree_roundtrip_witness:
  "\<exists>s ps. free_pages (s :: kmem_state) ps \<and> ps \<noteq> [] \<and> fst (kalloc s) \<noteq> 0 \<and>
     free_pages (snd (kalloc s)) (tl ps)"
proof -
  let ?s0 = "\<lparr>mem = (\<lambda>_. 0), freelist = 0, kend = 0x80022000\<rparr>"
  have "free_pages ?s0 []" "is_page ?s0 0x80022000"
    by (simp_all add: free_pages_def is_page_def page_aligned_def)
  from free_pages_kfree[OF this] obtain s :: kmem_state where s: "free_pages s [0x80022000]"
    by auto
  then show ?thesis
    using kalloc_kfree_roundtrip[OF s]
    by (intro exI[of _ s] exI[of _ "[0x80022000]"]) (auto split: prod.splits)
qed

end
