(* ===== verification/Proc_Table.thy ===== *)
theory Proc_Table
  imports Kalloc
begin

text \<open>
  The process table of \<^verbatim>\<open>kernel/proc.h\<close> and the operations of \<^verbatim>\<open>kernel/proc.c\<close> that only touch it:
  \<open>procinit\<close>, \<open>myproc\<close>, \<open>allocpid\<close>, \<open>wakeup\<close>, \<open>kill\<close>, \<open>setkilled\<close> and \<open>killed\<close>. A process is named
  by its index in \<open>proc[]\<close>; \<open>cur\<close> is the \<open>c->proc\<close> of the executing CPU. A sleep channel is the
  address a process sleeps on; the constructors name the kernel objects used as channels.
\<close>

section \<open>Data\<close>

datatype procstate = UNUSED | USED | SLEEPING | RUNNABLE | RUNNING | ZOMBIE

datatype chan =
    ChBufLock nat      \<comment> \<open>the sleep lock of a cache buffer\<close>
  | ChInodeLock nat    \<comment> \<open>the sleep lock of an inode table entry\<close>
  | ChLog              \<comment> \<open>the log\<close>
  | ChProc nat         \<comment> \<open>a process, in wait\<close>
  | ChPipeRead uint64  \<comment> \<open>nread of the pipe at this address\<close>
  | ChPipeWrite uint64 \<comment> \<open>nwrite of the pipe at this address\<close>
  | ChTicks            \<comment> \<open>the tick counter\<close>
  | ChCons             \<comment> \<open>the console read index\<close>
  | ChUart             \<comment> \<open>the uart transmit read index\<close>
  | ChDiskFree         \<comment> \<open>the disk's free descriptors\<close>
  | ChBuf nat          \<comment> \<open>a buffer waiting for the disk\<close>

record kcontext =
  ctx_ra :: uint64
  ctx_sp :: uint64
  ctx_s :: "uint64 list"

record proc =
  p_state :: procstate
  p_chan :: "chan option"
  p_killed :: int
  p_xstate :: int
  p_pid :: int
  p_parent :: "nat option"
  p_kstack :: uint64
  p_sz :: uint64
  p_pagetable :: uint64
  p_trapframe :: uint64
  p_context :: kcontext
  p_ofile :: "nat option list"
  p_cwd :: "nat option"
  p_name :: "uchar list"

record proc_state = kmem_state +
  procs :: "proc list"
  nextpid :: int
  initproc :: "nat option"
  cur :: "nat option"
  ticks :: uint

abbreviation (input) INT_MAX :: int where "INT_MAX \<equiv> 0x7fffffff"
abbreviation (input) MAXVA :: uint64 where "MAXVA \<equiv> 0x4000000000"
abbreviation (input) TRAMPOLINE :: uint64 where "TRAMPOLINE \<equiv> 0x3ffffff000"

definition KSTACK :: "nat \<Rightarrow> uint64" where
  "KSTACK p = TRAMPOLINE - of_nat (p + 1) * 2 * PGSIZE"

definition upd_proc :: "nat \<Rightarrow> (proc \<Rightarrow> proc) \<Rightarrow> 'a proc_state_scheme \<Rightarrow> 'a proc_state_scheme" where
  "upd_proc i f s = s\<lparr>procs := (procs s)[i := f (procs s ! i)]\<rparr>"

section \<open>Operations\<close>

definition procinit :: "'a proc_state_scheme \<Rightarrow> 'a proc_state_scheme" where
  "procinit s = s\<lparr>procs := map (\<lambda>(i, p). p\<lparr>p_state := UNUSED, p_kstack := KSTACK i\<rparr>)
                             (enumerate 0 (procs s))\<rparr>"

definition myproc :: "'a proc_state_scheme \<Rightarrow> nat option" where
  "myproc s = cur s"

text \<open>\<open>myproc()->pid\<close>, a null dereference when no process runs on this CPU.\<close>

definition mypid :: "'a proc_state_scheme \<Rightarrow> int outcome" where
  "mypid s = (case myproc s of None \<Rightarrow> Undef | Some i \<Rightarrow> Ret (p_pid (procs s ! i)))"

definition allocpid :: "'a proc_state_scheme \<Rightarrow> (int \<times> 'a proc_state_scheme) outcome" where
  "allocpid s =
     (let pid = nextpid s
      in if nextpid s = INT_MAX then Undef else Ret (pid, s\<lparr>nextpid := nextpid s + 1\<rparr>))"

definition wake_one :: "'a proc_state_scheme \<Rightarrow> chan \<Rightarrow> nat \<times> proc \<Rightarrow> proc" where
  "wake_one s ch = (\<lambda>(i, p).
     if Some i \<noteq> myproc s \<and> p_state p = SLEEPING \<and> p_chan p = Some ch
     then p\<lparr>p_state := RUNNABLE\<rparr> else p)"

definition wakeup :: "chan \<Rightarrow> 'a proc_state_scheme \<Rightarrow> 'a proc_state_scheme" where
  "wakeup ch s = s\<lparr>procs := map (wake_one s ch) (enumerate 0 (procs s))\<rparr>"

text \<open>What \<open>kill\<close> does to the process it finds.\<close>

definition kill_one :: "proc \<Rightarrow> proc" where
  "kill_one p =
     (let p = p\<lparr>p_killed := 1\<rparr> in if p_state p = SLEEPING then p\<lparr>p_state := RUNNABLE\<rparr> else p)"

definition kill :: "int \<Rightarrow> 'a proc_state_scheme \<Rightarrow> int \<times> 'a proc_state_scheme" where
  "kill pid s =
     (case find (\<lambda>i. p_pid (procs s ! i) = pid) [0..<length (procs s)] of
        None \<Rightarrow> (-1, s)
      | Some i \<Rightarrow> (0, upd_proc i kill_one s))"

definition setkilled :: "nat \<Rightarrow> 'a proc_state_scheme \<Rightarrow> 'a proc_state_scheme" where
  "setkilled i s = upd_proc i (\<lambda>p. p\<lparr>p_killed := 1\<rparr>) s"

definition killed :: "nat \<Rightarrow> 'a proc_state_scheme \<Rightarrow> int" where
  "killed i s = p_killed (procs s ! i)"

section \<open>Basic facts\<close>

lemma length_wakeup [simp]: "length (procs (wakeup ch s)) = length (procs s)"
  by (simp add: wakeup_def)

lemma nth_wakeup:
  "i < length (procs s) \<Longrightarrow> procs (wakeup ch s) ! i = wake_one s ch (i, procs s ! i)"
  by (simp add: wakeup_def nth_enumerate_eq)

lemma wakeup_frame [simp]:
  "mem (wakeup ch s) = mem s" "freelist (wakeup ch s) = freelist s" "kend (wakeup ch s) = kend s"
  "nextpid (wakeup ch s) = nextpid s" "initproc (wakeup ch s) = initproc s"
  "cur (wakeup ch s) = cur s" "ticks (wakeup ch s) = ticks s"
  "proc_state.more (wakeup ch s) = proc_state.more s"
  by (simp_all add: wakeup_def)

lemma wake_one_fields [simp]:
  "p_pid (wake_one s ch (i, p)) = p_pid p" "p_killed (wake_one s ch (i, p)) = p_killed p"
  "p_parent (wake_one s ch (i, p)) = p_parent p" "p_chan (wake_one s ch (i, p)) = p_chan p"
  by (simp_all add: wake_one_def)

text \<open>A process runs on this CPU.\<close>

definition running :: "'a proc_state_scheme \<Rightarrow> bool" where
  "running s \<longleftrightarrow> (\<exists>i. cur s = Some i \<and> i < length (procs s))"

lemma running_wakeup [simp]: "running (wakeup ch s) = running s"
  by (simp add: running_def)

lemma mypid_wakeup [simp]: "running s \<Longrightarrow> mypid (wakeup ch s) = mypid s"
  by (auto simp: running_def mypid_def myproc_def nth_wakeup)

lemma mypid_running: "running s \<Longrightarrow> \<exists>pid. mypid s = Ret pid"
  by (auto simp: running_def mypid_def myproc_def)

end
