(* ===== verification/Sleeplock.thy ===== *)
theory Sleeplock
  imports Proc_Table
begin

text \<open>
  The sleep locks of \<^verbatim>\<open>kernel/sleeplock.c\<close>. A lock is a value stored in the object it protects;
  the inner spin lock makes each operation one step. \<open>acquiresleep\<close> on a lock that is held puts
  the caller to sleep; \<open>releasesleep\<close> wakes the processes sleeping on the lock's channel.
\<close>

record sleeplock =
  sl_locked :: bool
  sl_pid :: int

definition initsleeplock :: sleeplock where
  "initsleeplock = \<lparr>sl_locked = False, sl_pid = 0\<rparr>"

definition acquiresleep :: "sleeplock \<Rightarrow> 'a proc_state_scheme \<Rightarrow> sleeplock outcome" where
  "acquiresleep lk s =
     (if sl_locked lk then Sleeps
      else bindo (mypid s) (\<lambda>pid. Ret (lk\<lparr>sl_locked := True, sl_pid := pid\<rparr>)))"

definition releasesleep :: "chan \<Rightarrow> sleeplock \<Rightarrow> 'a proc_state_scheme \<Rightarrow> sleeplock \<times> 'a proc_state_scheme" where
  "releasesleep ch lk s = (lk\<lparr>sl_locked := False, sl_pid := 0\<rparr>, wakeup ch s)"

definition holdingsleep :: "sleeplock \<Rightarrow> 'a proc_state_scheme \<Rightarrow> bool outcome" where
  "holdingsleep lk s =
     (if sl_locked lk then bindo (mypid s) (\<lambda>pid. Ret (sl_pid lk = pid)) else Ret False)"

lemma acquiresleep_free:
  assumes "running s" "\<not> sl_locked lk"
  shows "\<exists>lk'. acquiresleep lk s = Ret lk' \<and> sl_locked lk' \<and> holdingsleep lk' s = Ret True"
proof -
  from mypid_running[OF assms(1)] obtain pid where "mypid s = Ret pid" by blast
  then show ?thesis using assms(2) by (simp add: acquiresleep_def holdingsleep_def)
qed

lemma holdingsleep_wakeup [simp]:
  "running s \<Longrightarrow> holdingsleep lk (wakeup ch s) = holdingsleep lk s"
  by (simp add: holdingsleep_def)

lemma holdingsleep_locked: "holdingsleep lk s = Ret True \<Longrightarrow> sl_locked lk"
  by (auto simp: holdingsleep_def split: if_splits)

end
