(* ===== verification/Bio.thy ===== *)
theory Bio
  imports Sleeplock
begin

text \<open>
  The buffer cache of \<^verbatim>\<open>kernel/bio.c\<close>. The cache is the array \<open>bcache.buf\<close> followed by
  \<open>bcache.head\<close> (index \<^const>\<open>NBUF\<close>), with the \<open>prev\<close> and \<open>next\<close> pointers as indices, so the
  pointer surgery of \<open>brelse\<close> is translated as it is written. The disk is a map from block
  numbers to contents together with the sequence of writes issued so far. The transfer that
  \<open>virtio_disk_rw\<close> performs is one step on the disk.

  The invariant \<open>cache_inv\<close> says that the links form one ring through all buffers, that no block
  is cached twice, and that a buffer without references agrees with the disk. The views
  \<open>view\<close>, \<open>refs\<close> and \<open>blocked\<close> give the contents a block has for its readers, its reference
  count and whether it is locked; the theory \<^verbatim>\<open>Bio_Laws\<close> states every operation over them.
\<close>

section \<open>State and operations\<close>

type_synonym block = "uchar list"

record buf =
  b_valid :: bool
  b_dev :: uint
  b_blockno :: uint
  b_lock :: sleeplock
  b_refcnt :: uint
  b_prev :: nat
  b_next :: nat
  b_data :: block

record bio_state = proc_state +
  bcache :: "buf list"
  disk :: "uint \<Rightarrow> block"
  dwrites :: "(uint \<times> block) list"

definition upd_buf :: "nat \<Rightarrow> (buf \<Rightarrow> buf) \<Rightarrow> 'a bio_state_scheme \<Rightarrow> 'a bio_state_scheme" where
  "upd_buf b f s = s\<lparr>bcache := (bcache s)[b := f (bcache s ! b)]\<rparr>"

definition set_next :: "buf list \<Rightarrow> nat \<Rightarrow> nat \<Rightarrow> buf list" where
  "set_next bs b v = bs[b := (bs ! b)\<lparr>b_next := v\<rparr>]"

definition set_prev :: "buf list \<Rightarrow> nat \<Rightarrow> nat \<Rightarrow> buf list" where
  "set_prev bs b v = bs[b := (bs ! b)\<lparr>b_prev := v\<rparr>]"

text \<open>Insert \<open>b\<close> right after the head, as both \<open>binit\<close> and \<open>brelse\<close> do.\<close>

definition push_front :: "nat \<Rightarrow> buf list \<Rightarrow> buf list" where
  "push_front b bs =
     (let bs = set_next bs b (b_next (bs ! NBUF));
          bs = set_prev bs b NBUF;
          bs = set_prev bs (b_next (bs ! NBUF)) b
      in set_next bs NBUF b)"

definition unlink_buf :: "nat \<Rightarrow> buf list \<Rightarrow> buf list" where
  "unlink_buf b bs =
     (let bs = set_prev bs (b_next (bs ! b)) (b_prev (bs ! b))
      in set_next bs (b_prev (bs ! b)) (b_next (bs ! b)))"

definition binit :: "'a bio_state_scheme \<Rightarrow> 'a bio_state_scheme" where
  "binit s =
     (let bs = set_prev (bcache s) NBUF NBUF;
          bs = set_next bs NBUF NBUF;
          bs = fold (\<lambda>b bs. push_front b (bs[b := (bs ! b)\<lparr>b_lock := initsleeplock\<rparr>])) [0..<NBUF] bs
      in s\<lparr>bcache := bs\<rparr>)"

text \<open>
  The two list walks of \<open>bget\<close>, along \<open>next\<close> and along \<open>prev\<close>, from a buffer until the head.
  \<^const>\<open>NBUF\<close> steps visit every buffer of a well-formed ring; a walk that has not met the head
  by then never will.
\<close>

fun scan :: "(buf \<Rightarrow> nat) \<Rightarrow> (buf \<Rightarrow> bool) \<Rightarrow> buf list \<Rightarrow> nat \<Rightarrow> nat \<Rightarrow> nat option outcome" where
  "scan link P bs b 0 = (if b = NBUF then Ret None else Loops)"
| "scan link P bs b (Suc k) =
     (if b = NBUF then Ret None
      else if P (bs ! b) then Ret (Some b)
      else scan link P bs (link (bs ! b)) k)"

definition lock_buf :: "nat \<Rightarrow> 'a bio_state_scheme \<Rightarrow> 'a bio_state_scheme outcome" where
  "lock_buf b s =
     bindo (acquiresleep (b_lock (bcache s ! b)) s)
       (\<lambda>lk. Ret (upd_buf b (\<lambda>x. x\<lparr>b_lock := lk\<rparr>) s))"

definition bget :: "uint \<Rightarrow> uint \<Rightarrow> 'a bio_state_scheme \<Rightarrow> (nat \<times> 'a bio_state_scheme) outcome" where
  "bget dev blockno s =
     bindo (scan b_next (\<lambda>x. b_dev x = dev \<and> b_blockno x = blockno) (bcache s)
              (b_next (bcache s ! NBUF)) NBUF)
       (\<lambda>hit. case hit of
          Some b \<Rightarrow>
            bindo (lock_buf b (upd_buf b (\<lambda>x. x\<lparr>b_refcnt := b_refcnt x + 1\<rparr>) s)) (\<lambda>s. Ret (b, s))
        | None \<Rightarrow>
            bindo (scan b_prev (\<lambda>x. b_refcnt x = 0) (bcache s) (b_prev (bcache s ! NBUF)) NBUF)
              (\<lambda>unused. case unused of
                 Some b \<Rightarrow>
                   bindo (lock_buf b (upd_buf b (\<lambda>x. x\<lparr>b_dev := dev, b_blockno := blockno,
                                                       b_valid := False, b_refcnt := 1\<rparr>) s))
                     (\<lambda>s. Ret (b, s))
               | None \<Rightarrow> Panic ''bget: no buffers''))"

text \<open>The completed transfer of \<open>virtio_disk_rw\<close> between a buffer and the disk.\<close>

definition disk_transfer :: "nat \<Rightarrow> bool \<Rightarrow> 'a bio_state_scheme \<Rightarrow> 'a bio_state_scheme" where
  "disk_transfer b write s =
     (let x = bcache s ! b
      in if write
         then s\<lparr>disk := (disk s)(b_blockno x := b_data x),
                dwrites := dwrites s @ [(b_blockno x, b_data x)]\<rparr>
         else upd_buf b (\<lambda>y. y\<lparr>b_data := disk s (b_blockno x)\<rparr>) s)"

definition bread :: "uint \<Rightarrow> uint \<Rightarrow> 'a bio_state_scheme \<Rightarrow> (nat \<times> 'a bio_state_scheme) outcome" where
  "bread dev blockno s =
     bindo (bget dev blockno s)
       (\<lambda>(b, s). if \<not> b_valid (bcache s ! b)
                  then Ret (b, upd_buf b (\<lambda>x. x\<lparr>b_valid := True\<rparr>) (disk_transfer b False s))
                  else Ret (b, s))"

definition bwrite :: "nat \<Rightarrow> 'a bio_state_scheme \<Rightarrow> 'a bio_state_scheme outcome" where
  "bwrite b s =
     bindo (holdingsleep (b_lock (bcache s ! b)) s)
       (\<lambda>h. if \<not> h then Panic ''bwrite'' else Ret (disk_transfer b True s))"

definition brelse :: "nat \<Rightarrow> 'a bio_state_scheme \<Rightarrow> 'a bio_state_scheme outcome" where
  "brelse b s =
     bindo (holdingsleep (b_lock (bcache s ! b)) s)
       (\<lambda>h. if \<not> h then Panic ''brelse''
            else
              (let (lk, s) = releasesleep (ChBufLock b) (b_lock (bcache s ! b)) s;
                   s = upd_buf b (\<lambda>x. x\<lparr>b_lock := lk\<rparr>) s;
                   s = upd_buf b (\<lambda>x. x\<lparr>b_refcnt := b_refcnt x - 1\<rparr>) s
               in if b_refcnt (bcache s ! b) = 0
                  then Ret (s\<lparr>bcache := push_front b (unlink_buf b (bcache s))\<rparr>)
                  else Ret s))"

definition bpin :: "nat \<Rightarrow> 'a bio_state_scheme \<Rightarrow> 'a bio_state_scheme" where
  "bpin b s = upd_buf b (\<lambda>x. x\<lparr>b_refcnt := b_refcnt x + 1\<rparr>) s"

definition bunpin :: "nat \<Rightarrow> 'a bio_state_scheme \<Rightarrow> 'a bio_state_scheme" where
  "bunpin b s = upd_buf b (\<lambda>x. x\<lparr>b_refcnt := b_refcnt x - 1\<rparr>) s"

text \<open>The accesses \<open>b->data\<close> that clients make to a buffer they hold.\<close>

definition bdata :: "nat \<Rightarrow> 'a bio_state_scheme \<Rightarrow> block" where
  "bdata b s = b_data (bcache s ! b)"

definition set_bdata :: "nat \<Rightarrow> block \<Rightarrow> 'a bio_state_scheme \<Rightarrow> 'a bio_state_scheme" where
  "set_bdata b d s = upd_buf b (\<lambda>x. x\<lparr>b_data := d\<rparr>) s"

section \<open>The ring of buffers\<close>

fun linked :: "(nat \<Rightarrow> nat) \<Rightarrow> nat \<Rightarrow> nat list \<Rightarrow> nat \<Rightarrow> bool" where
  "linked f a [] z = (f a = z)"
| "linked f a (x # xs) z = (f a = x \<and> linked f x xs z)"

lemma linked_append:
  "linked f a (xs @ y # ys) z \<longleftrightarrow> linked f a xs y \<and> linked f y ys z"
  by (induction xs arbitrary: a) auto

lemma linked_cong:
  "(\<And>x. x \<in> set (a # xs) \<Longrightarrow> f x = g x) \<Longrightarrow> linked f a xs z = linked g a xs z"
  by (induction xs arbitrary: a) auto

abbreviation nxt :: "buf list \<Rightarrow> nat \<Rightarrow> nat" where "nxt bs \<equiv> (\<lambda>i. b_next (bs ! i))"
abbreviation prv :: "buf list \<Rightarrow> nat \<Rightarrow> nat" where "prv bs \<equiv> (\<lambda>i. b_prev (bs ! i))"

text \<open>\<open>ring bs xs\<close>: from the head, \<open>next\<close> visits the buffers in the order \<open>xs\<close> and \<open>prev\<close> in the reverse.\<close>

definition ring :: "buf list \<Rightarrow> nat list \<Rightarrow> bool" where
  "ring bs xs \<longleftrightarrow>
     length bs = Suc NBUF \<and> distinct xs \<and> set xs \<subseteq> {..<NBUF} \<and>
     linked (nxt bs) NBUF xs NBUF \<and> linked (prv bs) NBUF (rev xs) NBUF"

lemma nxt_set_next: "i < length bs \<Longrightarrow> nxt (set_next bs b v) i = (if i = b then v else nxt bs i)"
  by (cases "i = b") (simp_all add: set_next_def)

lemma prv_set_next: "i < length bs \<Longrightarrow> prv (set_next bs b v) i = prv bs i"
  by (cases "i = b") (simp_all add: set_next_def)

lemma nxt_set_prev: "i < length bs \<Longrightarrow> nxt (set_prev bs b v) i = nxt bs i"
  by (cases "i = b") (simp_all add: set_prev_def)

lemma prv_set_prev: "i < length bs \<Longrightarrow> prv (set_prev bs b v) i = (if i = b then v else prv bs i)"
  by (cases "i = b") (simp_all add: set_prev_def)

lemma length_set_link [simp]:
  "length (set_next bs b v) = length bs" "length (set_prev bs b v) = length bs"
  by (simp_all add: set_next_def set_prev_def)

lemmas link_simps = nxt_set_next prv_set_next nxt_set_prev prv_set_prev

lemma linked_last: "linked f a xs z \<Longrightarrow> f (last (a # xs)) = z"
  by (induction xs arbitrary: a) auto

lemma linked_hd: "linked f a xs z \<Longrightarrow> f a = hd (xs @ [z])"
  by (cases xs) auto

lemma linked_upd_end:
  assumes "linked f a xs z" "distinct (a # xs)"
  shows "linked (f(last (a # xs) := z')) a xs z'"
  using assms by (induction xs arbitrary: a) auto

lemma linked_drop:
  assumes "linked f a (ys @ b # zs) z" "distinct (a # ys @ b # zs)"
  shows "linked (f(last (a # ys) := hd (zs @ [z]))) a (ys @ zs) z"
proof -
  from assms(1) have y: "linked f a ys b" and z: "linked f b zs z"
    by (auto simp: linked_append)
  have d: "distinct (a # ys)" using assms(2) by auto
  let ?f = "f(last (a # ys) := hd (zs @ [z]))"
  show ?thesis
  proof (cases zs)
    case Nil
    then show ?thesis using linked_upd_end[OF y d, of z] by simp
  next
    case (Cons c cs)
    have "last (a # ys) \<notin> set (c # cs)"
      using assms(2) Cons last_in_set[of "a # ys"] by auto
    then have "linked ?f c cs z = linked f c cs z"
      by (intro linked_cong) auto
    then have "linked ?f c cs z" using z Cons by simp
    moreover have "linked ?f a ys c" using linked_upd_end[OF y d, of c] Cons by simp
    ultimately show ?thesis using Cons by (simp add: linked_append)
  qed
qed

lemma ring_unlink:
  assumes "ring bs (ys @ b # zs)"
  shows "ring (unlink_buf b bs) (ys @ zs)"
proof -
  note r = assms[unfolded ring_def]
  have len: "length bs = Suc NBUF" and dist: "distinct (NBUF # ys @ b # zs)"
    and b: "b < NBUF" and sub: "set (ys @ b # zs) \<subseteq> {..<NBUF}"
    using r by auto
  have dist': "distinct (NBUF # rev zs @ b # rev ys)" using dist by auto
  have rl: "linked (prv bs) NBUF (rev zs @ b # rev ys) NBUF" using r by simp
  have nb: "nxt bs b = hd (zs @ [NBUF])"
    using r by (auto simp: linked_append dest: linked_hd)
  have pb: "prv bs b = hd (rev ys @ [NBUF])"
    using rl by (auto simp: linked_append dest: linked_hd)
  have hl: "hd (zs @ [NBUF]) = last (NBUF # rev zs)" "hd (rev ys @ [NBUF]) = last (NBUF # ys)"
    by (simp_all add: hd_append last_rev hd_rev)
  have nin: "nxt bs b \<in> insert NBUF (set zs)" using nb by (cases zs) auto
  have pin: "prv bs b \<in> insert NBUF (set ys)" using pb by (cases ys rule: rev_cases) auto
  have neq: "nxt bs b \<noteq> b" "prv bs b \<noteq> b" using dist nin pin by auto
  have lt: "nxt bs b < length bs" "prv bs b < length bs" using len sub nin pin by auto
  have upd: "nxt (unlink_buf b bs) i = ((nxt bs)(last (NBUF # ys) := hd (zs @ [NBUF]))) i"
    "prv (unlink_buf b bs) i = ((prv bs)(last (NBUF # rev zs) := hd (rev ys @ [NBUF]))) i"
    if "i < length bs" for i
    using that len b lt neq nb pb hl by (simp_all add: unlink_buf_def Let_def link_simps)
  have in_range: "x < length bs" if "x \<in> set (NBUF # ys @ zs)" for x
    using that sub len by auto
  have "linked (nxt (unlink_buf b bs)) NBUF (ys @ zs) NBUF =
      linked ((nxt bs)(last (NBUF # ys) := hd (zs @ [NBUF]))) NBUF (ys @ zs) NBUF"
    by (rule linked_cong) (use upd in_range in auto)
  moreover have "linked (prv (unlink_buf b bs)) NBUF (rev zs @ rev ys) NBUF =
      linked ((prv bs)(last (NBUF # rev zs) := hd (rev ys @ [NBUF]))) NBUF (rev zs @ rev ys) NBUF"
    by (rule linked_cong) (use upd in_range in auto)
  ultimately show ?thesis
    using linked_drop[OF _ dist, of "nxt bs" NBUF] linked_drop[OF rl dist'] r
    unfolding ring_def by (auto simp: unlink_buf_def Let_def)
qed

lemma ring_push_front:
  assumes "ring bs xs" "b < NBUF" "b \<notin> set xs"
  shows "ring (push_front b bs) (b # xs)"
proof -
  note r = assms(1)[unfolded ring_def]
  have len: "length bs = Suc NBUF" and sub: "set xs \<subseteq> {..<NBUF}" and dist: "distinct xs"
    using r by auto
  have nh: "nxt bs NBUF = hd (xs @ [NBUF])" using r by (auto dest: linked_hd)
  have nin: "nxt bs NBUF \<in> insert NBUF (set xs)" using nh by (cases xs) auto
  have neq: "nxt bs NBUF \<noteq> b" "nxt bs NBUF < length bs" using nin sub len assms by auto
  have upd: "nxt (push_front b bs) i = ((nxt bs)(b := nxt bs NBUF, NBUF := b)) i"
    "prv (push_front b bs) i = ((prv bs)(b := NBUF, nxt bs NBUF := b)) i" if "i < length bs" for i
    using that len assms neq by (simp_all add: push_front_def Let_def link_simps)
  have in_range: "x < length bs" if "x \<in> set (NBUF # b # xs)" for x
    using that sub len assms by auto
  let ?n = "(nxt bs)(b := nxt bs NBUF, NBUF := b)" and ?p = "(prv bs)(b := NBUF, nxt bs NBUF := b)"
  have "linked (nxt (push_front b bs)) NBUF (b # xs) NBUF = linked ?n NBUF (b # xs) NBUF"
    by (rule linked_cong) (use upd in_range in auto)
  moreover have "linked ?n NBUF (b # xs) NBUF"
  proof (cases xs)
    case Nil
    then show ?thesis using nh assms by simp
  next
    case (Cons y ys)
    have "linked ?n y ys NBUF = linked (nxt bs) y ys NBUF"
      by (rule linked_cong) (use sub Cons assms in auto)
    then show ?thesis using nh r Cons assms by simp
  qed
  moreover have "linked (prv (push_front b bs)) NBUF (rev (b # xs)) NBUF = linked ?p NBUF (rev (b # xs)) NBUF"
    by (rule linked_cong) (use upd in_range in auto)
  moreover have "linked ?p NBUF (rev (b # xs)) NBUF"
  proof (cases xs)
    case Nil
    then show ?thesis using nh assms by simp
  next
    case (Cons y ys)
    have "linked (prv bs) NBUF (rev ys @ y # []) NBUF" using r Cons by simp
    then have l: "linked (prv bs) NBUF (rev ys) y" unfolding linked_append by simp
    have "linked ?p NBUF (rev ys) y = linked (prv bs) NBUF (rev ys) y"
      by (rule linked_cong) (use sub Cons assms dist nh in auto)
    then show ?thesis using l nh Cons assms by (simp add: linked_append)
  qed
  ultimately show ?thesis
    unfolding ring_def using len sub dist assms by (simp add: push_front_def Let_def)
qed

text \<open>A walk along either link over a well-formed ring finds the first match in ring order.\<close>

lemma scan_linked:
  assumes "linked (\<lambda>i. link (bs ! i)) a xs NBUF" "NBUF \<notin> set xs" "length xs \<le> k"
  shows "scan link P bs (link (bs ! a)) k = Ret (find (\<lambda>i. P (bs ! i)) xs)"
  using assms
proof (induction xs arbitrary: a k)
  case Nil
  then show ?case by (cases k) auto
next
  case (Cons x xs)
  then show ?case by (cases k) auto
qed

lemma ring_length:
  assumes "ring bs xs"
  shows "length xs \<le> NBUF"
proof -
  have "card (set xs) \<le> card {..<NBUF}" using assms by (intro card_mono) (auto simp: ring_def)
  then show ?thesis using assms distinct_card[of xs] by (simp add: ring_def)
qed

lemma scan_next_ring:
  "ring bs xs \<Longrightarrow> scan b_next P bs (b_next (bs ! NBUF)) NBUF = Ret (find (\<lambda>i. P (bs ! i)) xs)"
  using ring_length[of bs xs] by (intro scan_linked) (auto simp: ring_def)

lemma scan_prev_ring:
  "ring bs xs \<Longrightarrow> scan b_prev P bs (b_prev (bs ! NBUF)) NBUF = Ret (find (\<lambda>i. P (bs ! i)) (rev xs))"
  using ring_length[of bs xs] by (intro scan_linked) (auto simp: ring_def)

lemma ring_upd:
  assumes "ring bs xs" "b_next x = b_next (bs ! b)" "b_prev x = b_prev (bs ! b)"
  shows "ring (bs[b := x]) xs"
proof -
  have n: "nxt (bs[b := x]) i = nxt bs i" for i
    using assms(2) by (cases "b < length bs"; cases "i = b") (auto simp: list_update_beyond)
  have p: "prv (bs[b := x]) i = prv bs i" for i
    using assms(3) by (cases "b < length bs"; cases "i = b") (auto simp: list_update_beyond)
  show ?thesis using assms(1) unfolding ring_def n p by simp
qed

lemma ring_binit_loop:
  assumes "ring bs (rev [0..<n])" "n \<le> NBUF"
  shows "ring (fold (\<lambda>b bs. push_front b (bs[b := (bs ! b)\<lparr>b_lock := initsleeplock\<rparr>])) [n..<NBUF] bs)
           (rev [0..<NBUF])"
  using assms
proof (induction "NBUF - n" arbitrary: n bs)
  case 0
  then show ?case by simp
next
  case (Suc k)
  then have n: "n < NBUF" "k = NBUF - Suc n" by auto
  let ?bs = "push_front n (bs[n := (bs ! n)\<lparr>b_lock := initsleeplock\<rparr>])"
  have "ring ?bs (n # rev [0..<n])"
    using n by (intro ring_push_front ring_upd Suc.prems(1)) auto
  then have r: "ring ?bs (rev [0..<Suc n])" by simp
  have "[n..<NBUF] = n # [Suc n..<NBUF]" using n(1) by (rule upt_conv_Cons)
  then show ?case using Suc.hyps(1)[OF n(2) r] n(1) by simp
qed

lemma ring_binit:
  assumes "length (bcache s) = Suc NBUF"
  shows "ring (bcache (binit s)) (rev [0..<NBUF])"
proof -
  let ?bs = "set_next (set_prev (bcache s) NBUF NBUF) NBUF NBUF"
  have "ring ?bs (rev [0..<0])" using assms by (simp add: ring_def link_simps)
  from ring_binit_loop[OF this] show ?thesis by (simp add: binit_def)
qed

section \<open>Views of the cache\<close>

definition holds :: "'a bio_state_scheme \<Rightarrow> nat \<Rightarrow> uint \<Rightarrow> bool" where
  "holds s i bn \<longleftrightarrow> i < NBUF \<and> b_dev (bcache s ! i) = ROOTDEV \<and> b_blockno (bcache s ! i) = bn"

definition slot :: "'a bio_state_scheme \<Rightarrow> uint \<Rightarrow> nat option" where
  "slot s bn = find (\<lambda>i. holds s i bn) [0..<NBUF]"

text \<open>The contents a reader of the block gets, its reference count and whether it is locked.\<close>

definition view :: "'a bio_state_scheme \<Rightarrow> uint \<Rightarrow> block" where
  "view s bn = (case slot s bn of
      None \<Rightarrow> disk s bn
    | Some i \<Rightarrow> if b_valid (bcache s ! i) then b_data (bcache s ! i) else disk s bn)"

definition refs :: "'a bio_state_scheme \<Rightarrow> uint \<Rightarrow> nat" where
  "refs s bn = (case slot s bn of None \<Rightarrow> 0 | Some i \<Rightarrow> unat (b_refcnt (bcache s ! i)))"

definition blocked :: "'a bio_state_scheme \<Rightarrow> uint \<Rightarrow> bool" where
  "blocked s bn = (case slot s bn of None \<Rightarrow> False | Some i \<Rightarrow> sl_locked (b_lock (bcache s ! i)))"

definition uniq :: "'a bio_state_scheme \<Rightarrow> bool" where
  "uniq s \<longleftrightarrow> (\<forall>i j bn. holds s i bn \<longrightarrow> holds s j bn \<longrightarrow> i = j)"

definition buf_ok :: "(uint \<Rightarrow> block) \<Rightarrow> buf \<Rightarrow> bool" where
  "buf_ok d x \<longleftrightarrow>
     length (b_data x) = BSIZE \<and>
     (sl_locked (b_lock x) \<longrightarrow> b_refcnt x \<noteq> 0) \<and>
     (b_refcnt x \<noteq> 0 \<longrightarrow> b_dev x = ROOTDEV) \<and>
     (b_dev x = ROOTDEV \<and> b_valid x \<and> b_refcnt x = 0 \<longrightarrow> b_data x = d (b_blockno x))"

definition cache_inv :: "'a bio_state_scheme \<Rightarrow> bool" where
  "cache_inv s \<longleftrightarrow>
     running s \<and> (\<exists>xs. ring (bcache s) xs \<and> set xs = {..<NBUF}) \<and> uniq s \<and>
     (\<forall>i < NBUF. buf_ok (disk s) (bcache s ! i)) \<and> (\<forall>bn. length (disk s bn) = BSIZE)"

text \<open>The caller holds the locked, valid buffer \<open>b\<close> of block \<open>bn\<close>.\<close>

definition handle :: "'a bio_state_scheme \<Rightarrow> nat \<Rightarrow> uint \<Rightarrow> bool" where
  "handle s b bn \<longleftrightarrow>
     holds s b bn \<and> b_valid (bcache s ! b) \<and> holdingsleep (b_lock (bcache s ! b)) s = Ret True"

definition core :: "buf \<Rightarrow> uint \<times> uint \<times> bool \<times> uint \<times> sleeplock \<times> block" where
  "core x = (b_dev x, b_blockno x, b_valid x, b_refcnt x, b_lock x, b_data x)"

lemma core_fields:
  assumes "core x = core y"
  shows "b_dev x = b_dev y" "b_blockno x = b_blockno y" "b_valid x = b_valid y"
    "b_refcnt x = b_refcnt y" "b_lock x = b_lock y" "b_data x = b_data y"
  using assms by (simp_all add: core_def)

definition agree :: "nat set \<Rightarrow> 'a bio_state_scheme \<Rightarrow> 'a bio_state_scheme \<Rightarrow> bool" where
  "agree B s s' \<longleftrightarrow> (\<forall>i < NBUF. i \<notin> B \<longrightarrow> core (bcache s' ! i) = core (bcache s ! i))"

lemma slot_eq_Some: "uniq s \<Longrightarrow> holds s i bn \<Longrightarrow> slot s bn = Some i"
proof -
  assume u: "uniq s" and h: "holds s i bn"
  have "slot s bn \<noteq> None"
    using h by (auto simp: slot_def find_None_iff holds_def)
  then obtain j where j: "slot s bn = Some j" by blast
  then have "holds s j bn" by (auto simp: slot_def find_Some_iff)
  then show ?thesis using j u h by (auto simp: uniq_def)
qed

lemma slot_eq_None: "(\<And>i. \<not> holds s i bn) \<Longrightarrow> slot s bn = None"
  by (simp add: slot_def find_None_iff)

lemma views_holds:
  assumes "uniq s" "holds s i bn"
  shows "view s bn = (if b_valid (bcache s ! i) then b_data (bcache s ! i) else disk s bn)"
    "refs s bn = unat (b_refcnt (bcache s ! i))"
    "blocked s bn = sl_locked (b_lock (bcache s ! i))"
  using slot_eq_Some[OF assms] by (simp_all add: view_def refs_def blocked_def)

lemma views_none:
  assumes "\<And>i. \<not> holds s i bn"
  shows "view s bn = disk s bn" "refs s bn = 0" "blocked s bn = False"
  using slot_eq_None[OF assms] by (simp_all add: view_def refs_def blocked_def)

lemma holds_agree:
  assumes "agree B s s'" "i \<notin> B"
  shows "holds s' i bn = holds s i bn"
  using assms core_fields[of "bcache s' ! i" "bcache s ! i"] by (auto simp: agree_def holds_def)

lemma views_agree:
  assumes "agree B s s'" "uniq s" "uniq s'" "holds s i bn" "i \<notin> B" "disk s' bn = disk s bn"
  shows "view s' bn = view s bn" "refs s' bn = refs s bn" "blocked s' bn = blocked s bn"
proof -
  have h: "holds s' i bn" using holds_agree[OF assms(1,5)] assms(4) by simp
  have c: "core (bcache s' ! i) = core (bcache s ! i)"
    using assms by (auto simp: agree_def holds_def)
  show "view s' bn = view s bn" "refs s' bn = refs s bn" "blocked s' bn = blocked s bn"
    using views_holds[OF assms(3) h] views_holds[OF assms(2,4)] core_fields[OF c] assms(6) by simp_all
qed

text \<open>A step that changes one buffer but not the block it caches.\<close>

lemma views_upd_same:
  assumes ag: "agree {b} s s'" and u: "uniq s" and h: "holds s b bn" and h': "holds s' b bn"
    and d: "\<And>x. x \<noteq> bn \<Longrightarrow> disk s' x = disk s x"
  shows "uniq s'"
    "view s' = (view s)(bn := if b_valid (bcache s' ! b) then b_data (bcache s' ! b) else disk s' bn)"
    "refs s' = (refs s)(bn := unat (b_refcnt (bcache s' ! b)))"
    "blocked s' = (blocked s)(bn := sl_locked (b_lock (bcache s' ! b)))"
proof -
  have hb: "holds s' b x \<longleftrightarrow> x = bn" "holds s b x \<longleftrightarrow> x = bn" for x
    using h h' by (auto simp: holds_def)
  have H: "holds s' i x = holds s i x" for i x
    using holds_agree[OF ag, of i] hb by (cases "i = b") auto
  show u': "uniq s'" using u unfolding uniq_def H .
  have other: "view s' x = view s x \<and> refs s' x = refs s x \<and> blocked s' x = blocked s x"
    if "x \<noteq> bn" for x
  proof (cases "\<exists>i. holds s i x")
    case True
    then obtain i where i: "holds s i x" by blast
    have "i \<noteq> b" using hb(2) i that by auto
    then show ?thesis using views_agree[OF ag u u' i] d[OF that] by simp
  next
    case False
    then show ?thesis using views_none[of s x] views_none[of s' x] d[OF that] H by simp
  qed
  note own = views_holds[OF u' h']
  show "view s' = (view s)(bn := if b_valid (bcache s' ! b) then b_data (bcache s' ! b) else disk s' bn)"
    "refs s' = (refs s)(bn := unat (b_refcnt (bcache s' ! b)))"
    "blocked s' = (blocked s)(bn := sl_locked (b_lock (bcache s' ! b)))"
    using other own by (auto simp: fun_eq_iff)
qed

text \<open>A step that gives an unreferenced buffer to a block that is not cached.\<close>

lemma views_recycle:
  assumes ag: "agree {b} s s'" and u: "uniq s" and none: "\<And>i. \<not> holds s i bn"
    and h': "holds s' b bn" and ok: "buf_ok (disk s) (bcache s ! b)"
    and free: "b_refcnt (bcache s ! b) = 0" and d: "disk s' = disk s"
  shows "uniq s'"
    "view s' = (view s)(bn := if b_valid (bcache s' ! b) then b_data (bcache s' ! b) else disk s bn)"
    "refs s' = (refs s)(bn := unat (b_refcnt (bcache s' ! b)))"
    "blocked s' = (blocked s)(bn := sl_locked (b_lock (bcache s' ! b)))"
proof -
  have hb: "holds s' b x \<longleftrightarrow> x = bn" for x
    using h' by (auto simp: holds_def)
  have H: "holds s' i x \<longleftrightarrow> (if i = b then x = bn else holds s i x)" for i x
    using holds_agree[OF ag, of i] hb by auto
  show u': "uniq s'"
    unfolding uniq_def H using u none by (auto simp: uniq_def)
  have other: "view s' x = view s x \<and> refs s' x = refs s x \<and> blocked s' x = blocked s x"
    if x: "x \<noteq> bn" for x
  proof (cases "\<exists>i. holds s i x")
    case True
    then obtain i where i: "holds s i x" by blast
    show ?thesis
    proof (cases "i = b")
      case False
      then show ?thesis using views_agree[OF ag u u' i] d by simp
    next
      case True
      have "\<not> holds s' j x" for j
        using H x i True u by (auto simp: uniq_def split: if_splits)
      then show ?thesis
        using views_none[of s' x] views_holds[OF u i] True free ok d i
        by (auto simp: buf_ok_def holds_def)
    qed
  next
    case False
    then show ?thesis using views_none[of s x] views_none[of s' x] d H x by simp
  qed
  note own = views_holds[OF u' h']
  show "view s' = (view s)(bn := if b_valid (bcache s' ! b) then b_data (bcache s' ! b) else disk s bn)"
    "refs s' = (refs s)(bn := unat (b_refcnt (bcache s' ! b)))"
    "blocked s' = (blocked s)(bn := sl_locked (b_lock (bcache s' ! b)))"
    using other own d by (auto simp: fun_eq_iff)
qed

section \<open>What each operation does to the views\<close>

text \<open>What the cache never changes: everything but the buffers, the disk and process states.\<close>

definition bio_frame :: "'a bio_state_scheme \<Rightarrow> 'a bio_state_scheme \<Rightarrow> bool" where
  "bio_frame s s' \<longleftrightarrow>
     mem s' = mem s \<and> freelist s' = freelist s \<and> kend s' = kend s \<and> nextpid s' = nextpid s \<and>
     initproc s' = initproc s \<and> cur s' = cur s \<and> ticks s' = ticks s \<and>
     map (p_state_update (\<lambda>_. RUNNING)) (procs s') = map (p_state_update (\<lambda>_. RUNNING)) (procs s) \<and>
     bio_state.more s' = bio_state.more s"

lemma bio_frame_refl [simp]: "bio_frame s s"
  by (simp add: bio_frame_def)

lemma bio_frame_trans [trans]: "bio_frame s t \<Longrightarrow> bio_frame t u \<Longrightarrow> bio_frame s u"
  by (simp add: bio_frame_def)

lemma bio_frame_upd [simp]:
  "bio_frame s (s\<lparr>bcache := bs\<rparr>)" "bio_frame s (s\<lparr>disk := d, dwrites := w\<rparr>)"
  "bio_frame s (upd_buf b f s)"
  by (simp_all add: bio_frame_def upd_buf_def)

lemma bio_frame_wakeup [simp]: "bio_frame s (wakeup ch s)"
proof -
  have "map (p_state_update (\<lambda>_. RUNNING)) (procs (wakeup ch s)) =
      map (p_state_update (\<lambda>_. RUNNING)) (procs s)"
    by (rule nth_equalityI) (auto simp: nth_wakeup wake_one_def)
  moreover have "bio_state.more (wakeup ch s) = bio_state.more s"
    by (simp add: wakeup_def)
  ultimately show ?thesis by (simp add: bio_frame_def)
qed

lemma bio_frame_procs:
  assumes "bio_frame s s'"
  shows "length (procs s') = length (procs s)"
    "i < length (procs s) \<Longrightarrow> p_pid (procs s' ! i) = p_pid (procs s ! i)"
    "i < length (procs s) \<Longrightarrow> p_cwd (procs s' ! i) = p_cwd (procs s ! i)"
proof -
  have eq: "map (p_state_update (\<lambda>_. RUNNING)) (procs s') = map (p_state_update (\<lambda>_. RUNNING)) (procs s)"
    using assms by (simp add: bio_frame_def)
  from arg_cong[OF eq, of length] show len: "length (procs s') = length (procs s)" by simp
  show "p_pid (procs s' ! i) = p_pid (procs s ! i)" "p_cwd (procs s' ! i) = p_cwd (procs s ! i)"
    if i: "i < length (procs s)"
  proof -
    have "(procs s' ! i)\<lparr>p_state := RUNNING\<rparr> = (procs s ! i)\<lparr>p_state := RUNNING\<rparr>"
      using arg_cong[OF eq, of "\<lambda>l. l ! i"] i len by simp
    then have "p_pid ((procs s' ! i)\<lparr>p_state := RUNNING\<rparr>) = p_pid ((procs s ! i)\<lparr>p_state := RUNNING\<rparr>)"
      "p_cwd ((procs s' ! i)\<lparr>p_state := RUNNING\<rparr>) = p_cwd ((procs s ! i)\<lparr>p_state := RUNNING\<rparr>)"
      by simp_all
    then show "p_pid (procs s' ! i) = p_pid (procs s ! i)" "p_cwd (procs s' ! i) = p_cwd (procs s ! i)"
      by simp_all
  qed
qed

lemma bio_frame_running:
  assumes "bio_frame s s'" "running s"
  shows "running s'" "mypid s' = mypid s" "holdingsleep lk s' = holdingsleep lk s"
proof -
  have c: "cur s' = cur s" using assms(1) by (simp add: bio_frame_def)
  show "running s'" using assms(2) bio_frame_procs(1)[OF assms(1)] c by (simp add: running_def)
  show "mypid s' = mypid s"
    using assms(2) bio_frame_procs(2)[OF assms(1)] c by (auto simp: running_def mypid_def myproc_def)
  then show "holdingsleep lk s' = holdingsleep lk s" by (simp add: holdingsleep_def)
qed

lemma upd_buf_upd_buf:
  "b < length (bcache s) \<Longrightarrow> upd_buf b f (upd_buf b g s) = upd_buf b (\<lambda>x. f (g x)) s"
  by (simp add: upd_buf_def)

lemma bcache_upd_buf:
  "b < length (bcache s) \<Longrightarrow> bcache (upd_buf b f s) ! b = f (bcache s ! b)"
  by (simp add: upd_buf_def)

lemma upd_buf_fields [simp]:
  "disk (upd_buf b f s) = disk s" "dwrites (upd_buf b f s) = dwrites s"
  "length (bcache (upd_buf b f s)) = length (bcache s)"
  by (simp_all add: upd_buf_def)

lemma agree_upd_buf: "agree {b} s (upd_buf b f s)"
  by (simp add: agree_def upd_buf_def)

lemma buf_ok_core: "core x = core y \<Longrightarrow> buf_ok d x = buf_ok d y"
  using core_fields[of x y] by (simp add: buf_ok_def)

lemma cache_inv_length: "cache_inv s \<Longrightarrow> length (bcache s) = Suc NBUF"
  by (auto simp: cache_inv_def ring_def)

lemma cache_invI:
  assumes inv: "cache_inv s" and fr: "bio_frame s s'"
    and r: "ring (bcache s') xs" "set xs = {..<NBUF}"
    and u: "uniq s'" and ag: "agree {b} s s'" and ok: "buf_ok (disk s') (bcache s' ! b)"
    and d: "\<And>i. i < NBUF \<Longrightarrow> i \<noteq> b \<Longrightarrow> b_dev (bcache s ! i) = ROOTDEV \<Longrightarrow>
              disk s' (b_blockno (bcache s ! i)) = disk s (b_blockno (bcache s ! i))"
    and l: "\<And>bn. length (disk s' bn) = BSIZE"
  shows "cache_inv s'"
proof -
  have "buf_ok (disk s') (bcache s' ! i)" if i: "i < NBUF" for i
  proof (cases "i = b")
    case True
    then show ?thesis using ok by simp
  next
    case False
    then have "core (bcache s' ! i) = core (bcache s ! i)" using ag i by (auto simp: agree_def)
    moreover have "buf_ok (disk s') (bcache s ! i)"
      using inv i d[OF i False] by (auto simp: cache_inv_def buf_ok_def)
    ultimately show ?thesis using buf_ok_core by blast
  qed
  then show ?thesis
    using inv fr r u l bio_frame_running(1) by (auto simp: cache_inv_def)
qed

lemma cache_inv_upd_buf:
  assumes inv: "cache_inv s" and u: "uniq (upd_buf b f s)" and b: "b < NBUF"
    and links: "b_next (f (bcache s ! b)) = b_next (bcache s ! b)"
      "b_prev (f (bcache s ! b)) = b_prev (bcache s ! b)"
    and ok: "buf_ok (disk s) (f (bcache s ! b))"
  shows "cache_inv (upd_buf b f s)"
proof -
  from inv obtain xs where r: "ring (bcache s) xs" "set xs = {..<NBUF}"
    by (auto simp: cache_inv_def)
  have len: "length (bcache s) = Suc NBUF" using inv by (rule cache_inv_length)
  have "ring (bcache (upd_buf b f s)) xs"
    using ring_upd[OF r(1), of "f (bcache s ! b)" b] links by (simp add: upd_buf_def)
  then show ?thesis
    using inv len b ok r u
    by (intro cache_invI[OF inv, where b = b and xs = xs])
      (auto simp: agree_upd_buf bcache_upd_buf cache_inv_def)
qed

end
