(* ===== verification/Bio_Laws.thy ===== *)
theory Bio_Laws
  imports Bio
begin

text \<open>
  The contract of the buffer cache. An abstract block store \<open>cview\<close> keeps, for every block, the
  contents its readers see, the contents on disk, a reference count and a lock; the operations of
  \<^verbatim>\<open>kernel/bio.c\<close> refine the corresponding updates of that store, whatever buffers they
  pick. The locale \<open>block_cache\<close> is the interface the log and the file system rely on.
\<close>

section \<open>The abstract block store\<close>

record cview =
  cv_data :: "uint \<Rightarrow> block"
  cv_disk :: "uint \<Rightarrow> block"
  cv_writes :: "(uint \<times> block) list"
  cv_refs :: "uint \<Rightarrow> nat"
  cv_locked :: "uint \<Rightarrow> bool"

definition cabs :: "'a bio_state_scheme \<Rightarrow> cview" where
  "cabs s = \<lparr>cv_data = view s, cv_disk = disk s, cv_writes = dwrites s, cv_refs = refs s,
             cv_locked = blocked s\<rparr>"

lemma cabs_simps [simp]:
  "cv_data (cabs s) = view s" "cv_disk (cabs s) = disk s" "cv_writes (cabs s) = dwrites s"
  "cv_refs (cabs s) = refs s" "cv_locked (cabs s) = blocked s"
  by (simp_all add: cabs_def)

definition cv_read :: "uint \<Rightarrow> cview \<Rightarrow> cview" where
  "cv_read bn v = v\<lparr>cv_refs := (cv_refs v)(bn := cv_refs v bn + 1), cv_locked := (cv_locked v)(bn := True)\<rparr>"

definition cv_set :: "uint \<Rightarrow> block \<Rightarrow> cview \<Rightarrow> cview" where
  "cv_set bn d v = v\<lparr>cv_data := (cv_data v)(bn := d)\<rparr>"

definition cv_write :: "uint \<Rightarrow> cview \<Rightarrow> cview" where
  "cv_write bn v = v\<lparr>cv_disk := (cv_disk v)(bn := cv_data v bn), cv_writes := cv_writes v @ [(bn, cv_data v bn)]\<rparr>"

definition cv_release :: "uint \<Rightarrow> cview \<Rightarrow> cview" where
  "cv_release bn v = v\<lparr>cv_refs := (cv_refs v)(bn := cv_refs v bn - 1), cv_locked := (cv_locked v)(bn := False)\<rparr>"

definition cv_pin :: "uint \<Rightarrow> cview \<Rightarrow> cview" where
  "cv_pin bn v = v\<lparr>cv_refs := (cv_refs v)(bn := cv_refs v bn + 1)\<rparr>"

definition cv_unpin :: "uint \<Rightarrow> cview \<Rightarrow> cview" where
  "cv_unpin bn v = v\<lparr>cv_refs := (cv_refs v)(bn := cv_refs v bn - 1)\<rparr>"

lemmas cv_defs = cv_read_def cv_set_def cv_write_def cv_release_def cv_pin_def cv_unpin_def

text \<open>
  \<open>bstep X s s'\<close>: a step of the cache that keeps its invariant, everything outside the cache, and
  the handles on all blocks outside \<open>X\<close>.
\<close>

definition bstep :: "uint set \<Rightarrow> 'a bio_state_scheme \<Rightarrow> 'a bio_state_scheme \<Rightarrow> bool" where
  "bstep X s s' \<longleftrightarrow> cache_inv s' \<and> bio_frame s s' \<and> (\<forall>b bn. bn \<notin> X \<longrightarrow> handle s b bn \<longrightarrow> handle s' b bn)"

lemma bstep_trans: "bstep X s t \<Longrightarrow> bstep Y t u \<Longrightarrow> bstep (X \<union> Y) s u"
  by (auto simp: bstep_def intro: bio_frame_trans)

lemma bstepD:
  "bstep X s s' \<Longrightarrow> cache_inv s'" "bstep X s s' \<Longrightarrow> bio_frame s s'"
  "bstep X s s' \<Longrightarrow> handle s b bn \<Longrightarrow> bn \<notin> X \<Longrightarrow> handle s' b bn"
  by (auto simp: bstep_def)

lemma handle_views:
  assumes "cache_inv s" "handle s b bn"
  shows "b < NBUF" "b < length (bcache s)" "b_dev (bcache s ! b) = ROOTDEV" "b_blockno (bcache s ! b) = bn"
    "bdata b s = view s bn" "refs s bn = unat (b_refcnt (bcache s ! b))" "0 < refs s bn" "blocked s bn"
proof -
  have u: "uniq s" and h: "holds s b bn" and v: "b_valid (bcache s ! b)"
    and l: "sl_locked (b_lock (bcache s ! b))"
    using assms holdingsleep_locked by (auto simp: cache_inv_def handle_def)
  show bN: "b < NBUF" and "b_dev (bcache s ! b) = ROOTDEV" "b_blockno (bcache s ! b) = bn"
    using h by (auto simp: holds_def)
  show "b < length (bcache s)" using bN cache_inv_length[OF assms(1)] by simp
  show "bdata b s = view s bn" "refs s bn = unat (b_refcnt (bcache s ! b))" "blocked s bn"
    using views_holds[OF u h] v l by (simp_all add: bdata_def)
  have "b_refcnt (bcache s ! b) \<noteq> 0"
    using assms(1) bN l by (auto simp: cache_inv_def buf_ok_def)
  then show "0 < refs s bn" using views_holds(2)[OF u h] by (simp add: unat_gt_0)
qed

lemma cview_eqI:
  assumes "view s = cv_data v" "disk s = cv_disk v" "dwrites s = cv_writes v" "refs s = cv_refs v"
    "blocked s = cv_locked v"
  shows "cabs s = v"
  using assms by (simp add: cabs_def)

text \<open>A step that changes the contents, count or lock of one buffer but not the block it caches.\<close>

lemma upd_buf_step:
  assumes inv: "cache_inv s" and h: "holds s b bn"
    and f: "\<And>x. b_dev (f x) = b_dev x" "\<And>x. b_blockno (f x) = b_blockno x"
      "\<And>x. b_next (f x) = b_next x" "\<And>x. b_prev (f x) = b_prev x"
    and ok: "buf_ok (disk s) (f (bcache s ! b))"
  shows "cache_inv (upd_buf b f s)" "holds (upd_buf b f s) b bn" "bcache (upd_buf b f s) ! b = f (bcache s ! b)"
    "cabs (upd_buf b f s) =
       (cabs s)\<lparr>cv_data := (view s)(bn := if b_valid (f (bcache s ! b)) then b_data (f (bcache s ! b)) else disk s bn),
                cv_refs := (refs s)(bn := unat (b_refcnt (f (bcache s ! b)))),
                cv_locked := (blocked s)(bn := sl_locked (b_lock (f (bcache s ! b))))\<rparr>"
proof -
  have bN: "b < NBUF" using h by (simp add: holds_def)
  have len: "b < length (bcache s)" using bN cache_inv_length[OF inv] by simp
  show x: "bcache (upd_buf b f s) ! b = f (bcache s ! b)" by (simp add: bcache_upd_buf[OF len])
  show h': "holds (upd_buf b f s) b bn" using h f by (simp add: holds_def x)
  have u: "uniq s" using inv by (simp add: cache_inv_def)
  have "\<And>y. y \<noteq> bn \<Longrightarrow> disk (upd_buf b f s) y = disk s y" by (simp add: upd_buf_def)
  note w = views_upd_same[OF agree_upd_buf u h h' this]
  show "cache_inv (upd_buf b f s)"
    by (rule cache_inv_upd_buf[OF inv w(1) bN f(3) f(4) ok])
  show "cabs (upd_buf b f s) =
       (cabs s)\<lparr>cv_data := (view s)(bn := if b_valid (f (bcache s ! b)) then b_data (f (bcache s ! b)) else disk s bn),
                cv_refs := (refs s)(bn := unat (b_refcnt (f (bcache s ! b)))),
                cv_locked := (blocked s)(bn := sl_locked (b_lock (f (bcache s ! b))))\<rparr>"
    by (rule cview_eqI) (simp_all add: w x upd_buf_fields)
qed

lemma handle_upd_buf:
  assumes "running s" "b < length (bcache s)" "handle s b' x"
    and "b' = b \<Longrightarrow> b_valid (f (bcache s ! b)) \<and> b_dev (f (bcache s ! b)) = b_dev (bcache s ! b) \<and>
      b_blockno (f (bcache s ! b)) = b_blockno (bcache s ! b) \<and> b_lock (f (bcache s ! b)) = b_lock (bcache s ! b)"
  shows "handle (upd_buf b f s) b' x"
proof -
  have fr: "bio_frame s (upd_buf b f s)" by simp
  show ?thesis
    using assms(2-) bio_frame_running(3)[OF fr assms(1)]
    by (cases "b' = b") (auto simp: handle_def holds_def upd_buf_def)
qed

section \<open>Reading a block\<close>

lemma find_SomeD: "find P xs = Some b \<Longrightarrow> b \<in> set xs \<and> P b"
  by (induction xs) (auto split: if_splits)

lemma find_unique:
  assumes "b \<in> set xs" "P b" and u: "\<And>j. j \<in> set xs \<Longrightarrow> P j \<Longrightarrow> j = b"
  shows "find P xs = Some b"
proof (cases "find P xs")
  case None
  then show ?thesis using assms(1,2) by (auto simp: find_None_iff)
next
  case (Some j)
  then show ?thesis using find_SomeD[OF Some] u[of j] by simp
qed

lemma lock_buf_upd:
  assumes run: "running s" and len: "b < length (bcache s)"
    and ul: "\<not> sl_locked (b_lock (bcache s ! b))" and f: "\<And>x. b_lock (f x) = b_lock x"
  shows "\<exists>lk. sl_locked lk \<and> holdingsleep lk s = Ret True \<and>
     lock_buf b (upd_buf b f s) = Ret (upd_buf b (\<lambda>x. (f x)\<lparr>b_lock := lk\<rparr>) s)"
proof -
  have fr: "bio_frame s (upd_buf b f s)" by simp
  have "\<not> sl_locked (b_lock (bcache (upd_buf b f s) ! b))" using ul len f by (simp add: bcache_upd_buf)
  from acquiresleep_free[OF bio_frame_running(1)[OF fr run] this] show ?thesis
    using bio_frame_running(3)[OF fr run] len by (auto simp: lock_buf_def upd_buf_upd_buf)
qed

lemma bget_hit:
  assumes inv: "cache_inv s" and h: "holds s b bn" and ul: "\<not> sl_locked (b_lock (bcache s ! b))"
  shows "\<exists>lk. sl_locked lk \<and> holdingsleep lk s = Ret True \<and>
     bget ROOTDEV bn s = Ret (b, upd_buf b (\<lambda>x. x\<lparr>b_refcnt := b_refcnt x + 1, b_lock := lk\<rparr>) s)"
proof -
  from inv obtain xs where r: "ring (bcache s) xs" "set xs = {..<NBUF}"
    by (auto simp: cache_inv_def)
  have len: "b < length (bcache s)" using h cache_inv_length[OF inv] by (simp add: holds_def)
  have u: "uniq s" and run: "running s" using inv by (simp_all add: cache_inv_def)
  have f: "find (\<lambda>i. b_dev (bcache s ! i) = ROOTDEV \<and> b_blockno (bcache s ! i) = bn) xs = Some b"
    using h u r(2) by (intro find_unique) (auto simp: holds_def uniq_def)
  from lock_buf_upd[OF run len ul, of "\<lambda>x. x\<lparr>b_refcnt := b_refcnt x + 1\<rparr>"] show ?thesis
    by (auto simp: bget_def scan_next_ring[OF r(1)] f)
qed

lemma bget_miss:
  assumes inv: "cache_inv s" and none: "\<And>i. \<not> holds s i bn"
    and ex: "\<exists>j < NBUF. b_refcnt (bcache s ! j) = 0"
  shows "\<exists>b lk. b < NBUF \<and> b_refcnt (bcache s ! b) = 0 \<and> sl_locked lk \<and> holdingsleep lk s = Ret True \<and>
     bget ROOTDEV bn s = Ret (b, upd_buf b (\<lambda>x. x\<lparr>b_dev := ROOTDEV, b_blockno := bn, b_valid := False,
         b_refcnt := 1, b_lock := lk\<rparr>) s)"
proof -
  from inv obtain xs where r: "ring (bcache s) xs" "set xs = {..<NBUF}"
    by (auto simp: cache_inv_def)
  have run: "running s" using inv by (simp add: cache_inv_def)
  have f: "find (\<lambda>i. b_dev (bcache s ! i) = ROOTDEV \<and> b_blockno (bcache s ! i) = bn) xs = None"
    using none r(2) by (auto simp: find_None_iff holds_def)
  have "find (\<lambda>i. b_refcnt (bcache s ! i) = 0) (rev xs) \<noteq> None"
    using ex r(2) by (auto simp: find_None_iff)
  then obtain b where g: "find (\<lambda>i. b_refcnt (bcache s ! i) = 0) (rev xs) = Some b" by blast
  then have b: "b \<in> set xs" "b_refcnt (bcache s ! b) = 0"
    using find_SomeD[OF g] by simp_all
  then have bN: "b < NBUF" using r(2) by auto
  have len: "b < length (bcache s)" using bN cache_inv_length[OF inv] by simp
  have ul: "\<not> sl_locked (b_lock (bcache s ! b))"
    using inv bN b(2) by (auto simp: cache_inv_def buf_ok_def)
  from lock_buf_upd[OF run len ul,
      of "\<lambda>x. x\<lparr>b_dev := ROOTDEV, b_blockno := bn, b_valid := False, b_refcnt := 1\<rparr>"] obtain lk where "sl_locked lk" "holdingsleep lk s = Ret True"
    "bget ROOTDEV bn s = Ret (b, upd_buf b (\<lambda>x. x\<lparr>b_dev := ROOTDEV, b_blockno := bn, b_valid := False,
         b_refcnt := 1, b_lock := lk\<rparr>) s)"
    by (auto simp: bget_def scan_next_ring[OF r(1)] scan_prev_ring[OF r(1)] f g)
  then show ?thesis using bN b(2) by blast
qed

lemma free_buffer_exists:
  assumes inv: "cache_inv s" and c: "card {bn. 0 < refs s bn} < NBUF"
  shows "\<exists>j < NBUF. b_refcnt (bcache s ! j) = 0"
proof (rule ccontr)
  assume "\<not> ?thesis"
  then have used: "b_refcnt (bcache s ! j) \<noteq> 0" if "j < NBUF" for j using that by blast
  let ?bn = "\<lambda>j. b_blockno (bcache s ! j)"
  have u: "uniq s" using inv by (simp add: cache_inv_def)
  have h: "holds s j (?bn j)" if "j < NBUF" for j
    using inv used[OF that] that by (simp add: cache_inv_def buf_ok_def holds_def)
  have "inj_on ?bn {..<NBUF}"
  proof (rule inj_onI)
    fix i j assume "i \<in> {..<NBUF}" "j \<in> {..<NBUF}" "?bn i = ?bn j"
    then show "i = j" using h[of i] h[of j] u unfolding uniq_def by auto
  qed
  then have "card (?bn ` {..<NBUF}) = NBUF" by (simp add: card_image)
  moreover have sub: "?bn ` {..<NBUF} \<subseteq> {bn. 0 < refs s bn}"
  proof
    fix bn assume "bn \<in> ?bn ` {..<NBUF}"
    then obtain j where j: "j < NBUF" "bn = ?bn j" by auto
    then have "refs s bn = unat (b_refcnt (bcache s ! j))" using views_holds(2)[OF u h] by simp
    then show "bn \<in> {bn. 0 < refs s bn}" using used[OF j(1)] by (simp add: unat_gt_0)
  qed
  ultimately show False using c card_mono[OF finite sub] by linarith
qed

lemma bread_cached:
  assumes inv: "cache_inv s" and h: "holds s b bn" and ul: "\<not> blocked s bn"
    and small: "refs s bn < 2 ^ 32 - 1"
  shows "\<exists>s'. bread ROOTDEV bn s = Ret (b, s') \<and> bstep {} s s' \<and> handle s' b bn \<and>
     cabs s' = cv_read bn (cabs s)"
proof -
  have u: "uniq s" and run: "running s" and ok: "buf_ok (disk s) (bcache s ! b)"
    using inv h by (simp_all add: cache_inv_def holds_def)
  note v = views_holds[OF u h]
  have bN: "b < NBUF" using h by (simp add: holds_def)
  have len: "b < length (bcache s)" using bN cache_inv_length[OF inv] by simp
  from ul v(3) have ul: "\<not> sl_locked (b_lock (bcache s ! b))" by simp
  from bget_hit[OF inv h ul] obtain lk where lk: "sl_locked lk" "holdingsleep lk s = Ret True"
    and g: "bget ROOTDEV bn s = Ret (b, upd_buf b (\<lambda>x. x\<lparr>b_refcnt := b_refcnt x + 1, b_lock := lk\<rparr>) s)"
    by blast
  let ?f = "\<lambda>x. if b_valid x then x\<lparr>b_refcnt := b_refcnt x + 1, b_lock := lk\<rparr>
                 else x\<lparr>b_refcnt := b_refcnt x + 1, b_lock := lk, b_data := disk s bn, b_valid := True\<rparr>"
  let ?s' = "upd_buf b ?f s"
  have b: "b_blockno (bcache s ! b) = bn" using h by (simp add: holds_def)
  have br: "bread ROOTDEV bn s = Ret (b, ?s')"
    using len b by (simp add: bread_def g disk_transfer_def upd_buf_upd_buf bcache_upd_buf upd_buf_fields)
      (simp add: upd_buf_def)
  have plus: "unat (b_refcnt (bcache s ! b) + 1) = unat (b_refcnt (bcache s ! b)) + 1"
    using small v(2) by (simp add: unat_word_ariths)
  then have nz: "b_refcnt (bcache s ! b) + 1 \<noteq> 0" by (metis Suc_eq_plus1 nat.distinct(1) unsigned_0)
  have dlen: "length (disk s bn) = BSIZE" using inv by (simp add: cache_inv_def)
  have ok': "buf_ok (disk s) (?f (bcache s ! b))"
    using nz ok h dlen by (simp add: buf_ok_def holds_def)
  have f: "b_dev (?f x) = b_dev x" "b_blockno (?f x) = b_blockno x" "b_next (?f x) = b_next x"
    "b_prev (?f x) = b_prev x" for x by simp_all
  note st = upd_buf_step[where f = ?f, OF inv h f ok']
  have fr: "bio_frame s ?s'" by simp
  have hs: "handle ?s' b bn"
    using st(2,3) lk bio_frame_running(3)[OF fr run] by (simp add: handle_def)
  have ab: "cabs ?s' = cv_read bn (cabs s)"
    unfolding st(4) using plus v lk(1) by (simp add: cv_read_def cabs_def fun_upd_idem)
  have "handle ?s' b' x" if "handle s b' x" for b' x
    using that ul holdingsleep_locked
    by (intro handle_upd_buf[OF run len that]) (auto simp: handle_def)
  then show ?thesis using br st(1) fr hs ab by (auto simp: bstep_def)
qed

lemma bread_recycled:
  assumes inv: "cache_inv s" and none: "\<And>i. \<not> holds s i bn"
    and ex: "\<exists>j < NBUF. b_refcnt (bcache s ! j) = 0"
  shows "\<exists>b s'. bread ROOTDEV bn s = Ret (b, s') \<and> bstep {} s s' \<and> handle s' b bn \<and>
     cabs s' = cv_read bn (cabs s)"
proof -
  note v = views_none[OF none]
  from bget_miss[OF inv none ex] obtain b lk where b: "b < NBUF" "b_refcnt (bcache s ! b) = 0"
    and lk: "sl_locked lk" "holdingsleep lk s = Ret True"
    and g: "bget ROOTDEV bn s = Ret (b, upd_buf b (\<lambda>x. x\<lparr>b_dev := ROOTDEV, b_blockno := bn,
         b_valid := False, b_refcnt := 1, b_lock := lk\<rparr>) s)" by blast
  let ?f = "\<lambda>x. x\<lparr>b_dev := ROOTDEV, b_blockno := bn, b_refcnt := 1, b_lock := lk,
         b_data := disk s bn, b_valid := True\<rparr>"
  let ?s' = "upd_buf b ?f s"
  have u: "uniq s" and run: "running s" and ok: "buf_ok (disk s) (bcache s ! b)"
    using inv b by (simp_all add: cache_inv_def)
  have len: "b < length (bcache s)" using b cache_inv_length[OF inv] by simp
  have br: "bread ROOTDEV bn s = Ret (b, ?s')"
    using len by (simp add: bread_def g disk_transfer_def upd_buf_upd_buf bcache_upd_buf upd_buf_fields)
  have x: "bcache ?s' ! b = ?f (bcache s ! b)" by (simp add: bcache_upd_buf[OF len])
  have h': "holds ?s' b bn" using b by (simp add: holds_def x)
  have d: "disk ?s' = disk s" by (simp add: upd_buf_fields)
  note w = views_recycle[OF agree_upd_buf u none h' ok b(2) d]
  have "length (disk s bn) = BSIZE" using inv by (simp add: cache_inv_def)
  then have inv': "cache_inv ?s'"
    by (intro cache_inv_upd_buf[OF inv w(1) b(1)]) (simp_all add: buf_ok_def)
  have fr: "bio_frame s ?s'" by simp
  have hs: "handle ?s' b bn" using h' lk bio_frame_running(3)[OF fr run] by (simp add: handle_def x)
  have unl: "\<not> sl_locked (b_lock (bcache s ! b))" using ok b(2) by (auto simp: buf_ok_def)
  have "handle ?s' b' y" if "handle s b' y" for b' y
    using that unl holdingsleep_locked
    by (intro handle_upd_buf[OF run len that]) (auto simp: handle_def)
  moreover have "cabs ?s' = cv_read bn (cabs s)"
    by (rule cview_eqI) (simp_all add: cv_read_def w x v lk upd_buf_fields fun_upd_idem)
  ultimately show ?thesis using br inv' hs fr by (auto simp: bstep_def)
qed

theorem bread_refines:
  assumes inv: "cache_inv s" and ul: "\<not> blocked s bn" and small: "refs s bn < 2 ^ 32 - 1"
    and av: "0 < refs s bn \<or> card {x. 0 < refs s x} < NBUF"
  shows "\<exists>b s'. bread ROOTDEV bn s = Ret (b, s') \<and> bstep {} s s' \<and> handle s' b bn \<and>
     cabs s' = cv_read bn (cabs s)"
proof (cases "\<exists>b. holds s b bn")
  case True
  then show ?thesis using bread_cached[OF inv _ ul small] by blast
next
  case False
  then have "card {x. 0 < refs s x} < NBUF" using av views_none(2)[of s bn] by simp
  then show ?thesis using bread_recycled[OF inv] free_buffer_exists[OF inv] False by blast
qed

section \<open>Operations on a held buffer\<close>

lemma handle_upd_refines:
  assumes inv: "cache_inv s" and h: "handle s b bn"
    and f: "\<And>x. b_dev (f x) = b_dev x" "\<And>x. b_blockno (f x) = b_blockno x"
      "\<And>x. b_next (f x) = b_next x" "\<And>x. b_prev (f x) = b_prev x"
      "\<And>x. b_valid (f x) = b_valid x" "\<And>x. b_lock (f x) = b_lock x"
    and nz: "b_refcnt (f (bcache s ! b)) \<noteq> 0" and len: "length (b_data (f (bcache s ! b))) = BSIZE"
  shows "bstep {} s (upd_buf b f s)"
    "cabs (upd_buf b f s) =
       (cabs s)\<lparr>cv_data := (view s)(bn := b_data (f (bcache s ! b))),
                cv_refs := (refs s)(bn := unat (b_refcnt (f (bcache s ! b))))\<rparr>"
proof -
  note hv = handle_views[OF inv h]
  have hb: "holds s b bn" and va: "b_valid (bcache s ! b)"
    and lk: "sl_locked (b_lock (bcache s ! b))" and run: "running s"
    using h inv holdingsleep_locked by (auto simp: handle_def cache_inv_def)
  have ok: "buf_ok (disk s) (f (bcache s ! b))"
    using hv(3) nz len f by (simp add: buf_ok_def)
  note st = upd_buf_step[where f = f, OF inv hb f(1-4) ok]
  have "handle (upd_buf b f s) b' x" if "handle s b' x" for b' x
    by (intro handle_upd_buf[OF run hv(2) that]) (simp add: f va)
  then show "bstep {} s (upd_buf b f s)" using st(1) by (simp add: bstep_def)
  show "cabs (upd_buf b f s) =
       (cabs s)\<lparr>cv_data := (view s)(bn := b_data (f (bcache s ! b))),
                cv_refs := (refs s)(bn := unat (b_refcnt (f (bcache s ! b))))\<rparr>"
    unfolding st(4) using hv(8) lk va by (simp add: f cabs_def fun_upd_idem)
qed

lemma handle_data_length: "cache_inv s \<Longrightarrow> handle s b bn \<Longrightarrow> length (b_data (bcache s ! b)) = BSIZE"
  by (auto simp: cache_inv_def handle_def holds_def buf_ok_def)

lemma set_bdata_refines:
  assumes "cache_inv s" "handle s b bn" "length d = BSIZE"
  shows "bstep {} s (set_bdata b d s)" "cabs (set_bdata b d s) = cv_set bn d (cabs s)"
proof -
  have nz: "b_refcnt (bcache s ! b) \<noteq> 0" using handle_views(6,7)[OF assms(1,2)] by (auto simp: unat_gt_0)
  note st = handle_upd_refines[OF assms(1,2), of "\<lambda>x. x\<lparr>b_data := d\<rparr>"]
  show "bstep {} s (set_bdata b d s)" using st(1) nz assms(3) by (simp add: set_bdata_def)
  show "cabs (set_bdata b d s) = cv_set bn d (cabs s)"
    using st(2) nz assms(3) handle_views(6)[OF assms(1,2)]
    by (simp add: set_bdata_def cv_set_def cabs_def fun_upd_idem)
qed

lemma bpin_refines:
  assumes "cache_inv s" "handle s b bn" "refs s bn < 2 ^ 32 - 1"
  shows "bstep {} s (bpin b s)" "cabs (bpin b s) = cv_pin bn (cabs s)"
proof -
  note hv = handle_views[OF assms(1,2)]
  have plus: "unat (b_refcnt (bcache s ! b) + 1) = unat (b_refcnt (bcache s ! b)) + 1"
    using assms(3) hv(6) by (simp add: unat_word_ariths)
  then have nz: "b_refcnt (bcache s ! b) + 1 \<noteq> 0" by (metis Suc_eq_plus1 nat.distinct(1) unsigned_0)
  note st = handle_upd_refines[OF assms(1,2), of "\<lambda>x. x\<lparr>b_refcnt := b_refcnt x + 1\<rparr>"]
  show "bstep {} s (bpin b s)"
    using st(1) nz handle_data_length[OF assms(1,2)] by (simp add: bpin_def)
  show "cabs (bpin b s) = cv_pin bn (cabs s)"
    using st(2) nz plus hv(5,6) handle_data_length[OF assms(1,2)]
    by (simp add: bpin_def cv_pin_def cabs_def bdata_def fun_upd_idem)
qed

lemma bunpin_refines:
  assumes "cache_inv s" "handle s b bn" "1 < refs s bn"
  shows "bstep {} s (bunpin b s)" "cabs (bunpin b s) = cv_unpin bn (cabs s)"
proof -
  note hv = handle_views[OF assms(1,2)]
  have minus: "unat (b_refcnt (bcache s ! b) - 1) = unat (b_refcnt (bcache s ! b)) - 1"
    using assms(3) hv(6) unat_minus_one[of "b_refcnt (bcache s ! b)"] by force
  then have nz: "b_refcnt (bcache s ! b) - 1 \<noteq> 0" using assms(3) hv(6) by auto
  note st = handle_upd_refines[OF assms(1,2), of "\<lambda>x. x\<lparr>b_refcnt := b_refcnt x - 1\<rparr>"]
  show "bstep {} s (bunpin b s)"
    using st(1) nz handle_data_length[OF assms(1,2)] by (simp add: bunpin_def)
  show "cabs (bunpin b s) = cv_unpin bn (cabs s)"
    using st(2) nz minus hv(5,6) handle_data_length[OF assms(1,2)]
    by (simp add: bunpin_def cv_unpin_def cabs_def bdata_def fun_upd_idem)
qed

lemma bwrite_refines:
  assumes inv: "cache_inv s" and h: "handle s b bn"
  shows "\<exists>s'. bwrite b s = Ret s' \<and> bstep {} s s' \<and> cabs s' = cv_write bn (cabs s)"
proof -
  note hv = handle_views[OF inv h]
  have u: "uniq s" and hb: "holds s b bn" and run: "running s" and dl: "\<And>bn. length (disk s bn) = BSIZE"
    and lk: "holdingsleep (b_lock (bcache s ! b)) s = Ret True" and va: "b_valid (bcache s ! b)"
    and ok: "\<And>i. i < NBUF \<Longrightarrow> buf_ok (disk s) (bcache s ! i)"
    using h inv by (auto simp: handle_def cache_inv_def)
  from inv obtain xs where r: "ring (bcache s) xs" "set xs = {..<NBUF}" by (auto simp: cache_inv_def)
  let ?d = "b_data (bcache s ! b)"
  let ?s' = "s\<lparr>disk := (disk s)(bn := ?d), dwrites := dwrites s @ [(bn, ?d)]\<rparr>"
  have bw: "bwrite b s = Ret ?s'"
    using hv(4) lk by (simp add: bwrite_def disk_transfer_def Let_def)
  have fr: "bio_frame s ?s'" by simp
  have sl: "holds ?s' i x = holds s i x" for i x by (simp add: holds_def)
  then have u': "uniq ?s'" using u by (simp add: uniq_def)
  have "disk ?s' (b_blockno (bcache s ! i)) = disk s (b_blockno (bcache s ! i))"
    if "i < NBUF" "i \<noteq> b" "b_dev (bcache s ! i) = ROOTDEV" for i
    using that u hb by (auto simp: uniq_def holds_def)
  moreover have ag: "agree {b} s ?s'" by (simp add: agree_def)
  moreover have "buf_ok (disk ?s') (bcache ?s' ! b)" using ok[OF hv(1)] hv(4) by (simp add: buf_ok_def)
  ultimately have inv': "cache_inv ?s'"
    using r u' dl handle_data_length[OF inv h] by (intro cache_invI[OF inv fr, where b = b and xs = xs]) auto
  have "handle ?s' b' x" if "handle s b' x" for b' x
    using that bio_frame_running(3)[OF fr run] by (simp add: handle_def sl)
  then have st: "bstep {} s ?s'" using inv' fr by (simp add: bstep_def)
  have hb': "holds ?s' b bn" using hb sl by simp
  have "\<And>x. x \<noteq> bn \<Longrightarrow> disk ?s' x = disk s x" by simp
  note w = views_upd_same[OF ag u hb hb' this]
  have "view ?s' = view s" "refs ?s' = refs s" "blocked ?s' = blocked s"
    using w(2-4) hv(5,6,8) va views_holds(3)[OF u hb] by (simp_all add: bdata_def fun_upd_idem)
  then have "cabs ?s' = cv_write bn (cabs s)"
    using hv(5) by (intro cview_eqI) (simp_all add: cv_write_def bdata_def)
  then show ?thesis using bw st by blast
qed

text \<open>Moving a released buffer to the front of the ring changes links only.\<close>

lemma nth_list_update': "xs[j := x] ! i = (if i = j \<and> j < length xs then x else xs ! i)"
  by (cases "j < length xs") (auto simp: nth_list_update list_update_beyond)

lemma core_set_links [simp]:
  "core (set_next bs j v ! i) = core (bs ! i)" "core (set_prev bs j v ! i) = core (bs ! i)"
  unfolding set_next_def set_prev_def nth_list_update' by (simp_all add: core_def)

lemma core_move [simp]: "core (push_front b (unlink_buf b bs) ! i) = core (bs ! i)"
  by (simp add: push_front_def unlink_buf_def Let_def)

lemma ring_move:
  assumes "ring bs xs" "b \<in> set xs"
  shows "\<exists>ys. ring (push_front b (unlink_buf b bs)) ys \<and> set ys = set xs"
proof -
  from assms(2) obtain ys zs where xs: "xs = ys @ b # zs" by (auto simp: in_set_conv_decomp)
  have d: "distinct xs" "b < NBUF" using assms by (auto simp: ring_def)
  have "ring (push_front b (unlink_buf b bs)) (b # ys @ zs)"
    using ring_push_front[OF ring_unlink] assms(1) d xs by auto
  then show ?thesis using xs by (intro exI[of _ "b # ys @ zs"]) auto
qed

lemma brelse_result:
  assumes inv: "cache_inv s" and h: "handle s b bn"
  shows "\<exists>s' bs ys. brelse b s = Ret s' \<and> s' = (wakeup (ChBufLock b) s)\<lparr>bcache := bs\<rparr> \<and>
     ring bs ys \<and> set ys = {..<NBUF} \<and> (\<forall>i. i \<noteq> b \<longrightarrow> core (bs ! i) = core (bcache s ! i)) \<and>
     core (bs ! b) = core ((bcache s ! b)\<lparr>b_lock := initsleeplock, b_refcnt := b_refcnt (bcache s ! b) - 1\<rparr>)"
proof -
  note hv = handle_views[OF inv h]
  have lk: "holdingsleep (b_lock (bcache s ! b)) s = Ret True" using h by (simp add: handle_def)
  from inv obtain xs where r: "ring (bcache s) xs" "set xs = {..<NBUF}" by (auto simp: cache_inv_def)
  let ?x = "(bcache s ! b)\<lparr>b_lock := initsleeplock, b_refcnt := b_refcnt (bcache s ! b) - 1\<rparr>"
  let ?bs = "(bcache s)[b := ?x]"
  let ?bs' = "if b_refcnt ?x = 0 then push_front b (unlink_buf b ?bs) else ?bs"
  have "(b_lock (bcache s ! b))\<lparr>sl_locked := False, sl_pid := 0\<rparr> = initsleeplock"
    by (simp add: initsleeplock_def)
  then have br: "brelse b s = Ret ((wakeup (ChBufLock b) s)\<lparr>bcache := ?bs'\<rparr>)"
    using hv(2) lk by (simp add: brelse_def releasesleep_def upd_buf_def Let_def wakeup_def)
  have r1: "ring ?bs xs" using ring_upd[OF r(1), of ?x b] by simp
  have "\<exists>ys. ring ?bs' ys \<and> set ys = set xs"
  proof (cases "b_refcnt ?x = 0")
    case True
    then show ?thesis using ring_move[OF r1, of b] r(2) hv(1) by simp
  next
    case False
    then show ?thesis using r1 by auto
  qed
  then obtain ys where ys: "ring ?bs' ys" "set ys = {..<NBUF}" using r(2) by metis
  have c: "core (?bs' ! i) = core (?bs ! i)" for i by simp
  have "core (?bs' ! i) = core (bcache s ! i)" if "i \<noteq> b" for i using that unfolding c by simp
  moreover have "core (?bs' ! b) = core ?x" unfolding c using hv(2) by simp
  ultimately show ?thesis using br ys by blast
qed

lemma brelse_refines:
  assumes inv: "cache_inv s" and h: "handle s b bn"
    and clean: "refs s bn = 1 \<Longrightarrow> view s bn = disk s bn"
  shows "\<exists>s'. brelse b s = Ret s' \<and> bstep {bn} s s' \<and> cabs s' = cv_release bn (cabs s)"
proof -
  note hv = handle_views[OF inv h]
  have u: "uniq s" and hb: "holds s b bn" and run: "running s" and dl: "\<And>bn. length (disk s bn) = BSIZE"
    and va: "b_valid (bcache s ! b)" using h inv by (auto simp: handle_def cache_inv_def)
  from brelse_result[OF inv h] obtain s' bs ys where br: "brelse b s = Ret s'"
    and s': "s' = (wakeup (ChBufLock b) s)\<lparr>bcache := bs\<rparr>" and r: "ring bs ys" "set ys = {..<NBUF}"
    and co: "\<And>i. i \<noteq> b \<Longrightarrow> core (bs ! i) = core (bcache s ! i)"
    and cb: "core (bs ! b) = core ((bcache s ! b)\<lparr>b_lock := initsleeplock, b_refcnt := b_refcnt (bcache s ! b) - 1\<rparr>)"
    by blast
  have fs: "bcache s' = bs" "disk s' = disk s" "dwrites s' = dwrites s" by (simp_all add: s' wakeup_def)
  have fr: "bio_frame s s'" unfolding s'
    by (rule bio_frame_trans[OF bio_frame_wakeup[of s "ChBufLock b"]]) simp
  note cbf = core_fields[OF cb, simplified]
  have ag: "agree {b} s s'" using co by (simp add: agree_def fs)
  have hb': "holds s' b bn" using hb cbf by (simp add: holds_def fs)
  have minus: "unat (b_refcnt (bcache s ! b) - 1) = refs s bn - 1"
    using hv(6,7) unat_minus_one[of "b_refcnt (bcache s ! b)"] by force
  have "\<And>x. x \<noteq> bn \<Longrightarrow> disk s' x = disk s x" by (simp add: fs)
  note w = views_upd_same[OF ag u hb hb' this]
  have "b_refcnt (bcache s ! b) - 1 = 0 \<Longrightarrow> b_data (bcache s ! b) = disk s bn"
    using clean minus hv(5,7) by (simp add: bdata_def)
  then have "buf_ok (disk s') (bcache s' ! b)"
    using handle_data_length[OF inv h] hv(3,4) cbf by (simp add: buf_ok_def fs initsleeplock_def)
  then have inv': "cache_inv s'"
    using r dl by (intro cache_invI[OF inv fr _ r(2) w(1) ag]) (simp_all add: fs)
  have "handle s' b' x" if hx: "handle s b' x" and "x \<noteq> bn" for b' x
  proof -
    have "b' \<noteq> b" using hv(4) handle_views(4)[OF inv hx] that(2) by auto
    then show ?thesis using hx core_fields[OF co, of b'] bio_frame_running(3)[OF fr run]
      by (simp add: handle_def holds_def fs)
  qed
  then have st: "bstep {bn} s s'" using inv' fr by (auto simp: bstep_def)
  have "cabs s' = cv_release bn (cabs s)"
    by (rule cview_eqI) (use hv(5) va minus cbf in
      \<open>simp_all add: w fs cv_release_def bdata_def fun_upd_idem initsleeplock_def\<close>)
  then show ?thesis using br st by blast
qed

lemma view_clean: "cache_inv s \<Longrightarrow> refs s bn = 0 \<Longrightarrow> view s bn = disk s bn"
proof (cases "\<exists>i. holds s i bn")
  case True
  assume inv: "cache_inv s" and z: "refs s bn = 0"
  from True obtain i where i: "holds s i bn" by blast
  have u: "uniq s" and ok: "buf_ok (disk s) (bcache s ! i)"
    using inv i by (simp_all add: cache_inv_def holds_def)
  from views_holds[OF u i] z ok i show ?thesis
    by (auto simp: buf_ok_def holds_def unat_eq_zero)
next
  case False
  then show "view s bn = disk s bn" using views_none(1) by blast
qed

lemma view_length: "cache_inv s \<Longrightarrow> length (view s bn) = BSIZE"
  by (auto simp: view_def cache_inv_def buf_ok_def slot_def holds_def dest: find_SomeD split: option.splits)

text \<open>Waking processes up leaves the cache alone.\<close>

lemma wakeup_cache [simp]:
  "bcache (wakeup ch s) = bcache s" "disk (wakeup ch s) = disk s" "dwrites (wakeup ch s) = dwrites s"
  "cabs (wakeup ch s) = cabs s" "cache_inv (wakeup ch s) = cache_inv s"
proof -
  show f: "bcache (wakeup ch s) = bcache s" "disk (wakeup ch s) = disk s" "dwrites (wakeup ch s) = dwrites s"
    by (simp_all add: wakeup_def)
  have h: "holds (wakeup ch s) = holds s" by (simp add: holds_def f fun_eq_iff)
  show "cabs (wakeup ch s) = cabs s"
    unfolding cabs_def view_def refs_def blocked_def slot_def h f by simp
  show "cache_inv (wakeup ch s) = cache_inv s"
    unfolding cache_inv_def uniq_def h f by simp
qed

lemma wakeup_views [simp]:
  "view (wakeup ch s) = view s" "refs (wakeup ch s) = refs s" "blocked (wakeup ch s) = blocked s"
  using wakeup_cache(4)[of ch s] by (simp_all add: cabs_def)

section \<open>The interface of the cache\<close>

text \<open>
  \<open>avail v bn\<close>: a caller that asks for block \<open>bn\<close> gets it at once. Its lock is free, its count
  does not overflow, and it is either referenced already or some buffer is unreferenced.
\<close>

definition avail :: "cview \<Rightarrow> uint \<Rightarrow> bool" where
  "avail v bn \<longleftrightarrow> \<not> cv_locked v bn \<and> cv_refs v bn < 2 ^ 32 - 1 \<and>
     (0 < cv_refs v bn \<or> card {x. 0 < cv_refs v x} < NBUF)"

definition cv_put :: "uint \<Rightarrow> block \<Rightarrow> cview \<Rightarrow> cview" where
  "cv_put bn d v = v\<lparr>cv_data := (cv_data v)(bn := d), cv_disk := (cv_disk v)(bn := d),
                     cv_writes := cv_writes v @ [(bn, d)]\<rparr>"

lemma cv_write_set [simp]: "cv_write bn (cv_set bn d v) = cv_put bn d v"
  by (simp add: cv_defs cv_put_def)

lemma cv_put_simps [simp]:
  "cv_data (cv_put bn d v) = (cv_data v)(bn := d)" "cv_disk (cv_put bn d v) = (cv_disk v)(bn := d)"
  "cv_refs (cv_put bn d v) = cv_refs v" "cv_locked (cv_put bn d v) = cv_locked v"
  "cv_writes (cv_put bn d v) = cv_writes v @ [(bn, d)]"
  by (simp_all add: cv_put_def)

lemma cv_release_read: "\<not> cv_locked v bn \<Longrightarrow> cv_release bn (cv_read bn v) = v"
  by (simp add: cv_defs fun_upd_idem)

lemma cv_put_read: "cv_put bn d (cv_read bn' v) = cv_read bn' (cv_put bn d v)"
  by (simp add: cv_defs cv_put_def)

lemma cv_release_read_commute:
  "bn \<noteq> bn' \<Longrightarrow> cv_release bn (cv_read bn' v) = cv_read bn' (cv_release bn v)"
  by (cases v) (simp add: cv_defs fun_upd_twist)

locale block_cache =
  fixes rd :: "uint \<Rightarrow> 's \<Rightarrow> (nat \<times> 's) outcome"
    and dat :: "nat \<Rightarrow> 's \<Rightarrow> block"
    and put :: "nat \<Rightarrow> block \<Rightarrow> 's \<Rightarrow> 's"
    and wr rel :: "nat \<Rightarrow> 's \<Rightarrow> 's outcome"
    and pin unpin :: "nat \<Rightarrow> 's \<Rightarrow> 's"
    and inv :: "'s \<Rightarrow> bool" and abs :: "'s \<Rightarrow> cview"
    and hnd :: "'s \<Rightarrow> nat \<Rightarrow> uint \<Rightarrow> bool" and step :: "uint set \<Rightarrow> 's \<Rightarrow> 's \<Rightarrow> bool"
  assumes step_inv: "step X s s' \<Longrightarrow> inv s'"
    and step_hnd: "step X s s' \<Longrightarrow> hnd s b bn \<Longrightarrow> bn \<notin> X \<Longrightarrow> hnd s' b bn"
    and step_trans: "step X s s' \<Longrightarrow> step Y s' s'' \<Longrightarrow> step (X \<union> Y) s s''"
    and step_unlocked: "inv s \<Longrightarrow> step X s s' \<Longrightarrow> (\<And>bn. bn \<in> X \<Longrightarrow> \<not> cv_locked (abs s) bn) \<Longrightarrow> step {} s s'"
    and hnd_dat: "inv s \<Longrightarrow> hnd s b bn \<Longrightarrow> dat b s = cv_data (abs s) bn"
    and hnd_refs: "inv s \<Longrightarrow> hnd s b bn \<Longrightarrow> cv_locked (abs s) bn \<and> 0 < cv_refs (abs s) bn"
    and clean: "inv s \<Longrightarrow> cv_refs (abs s) bn = 0 \<Longrightarrow> cv_data (abs s) bn = cv_disk (abs s) bn"
    and data_len: "inv s \<Longrightarrow> length (cv_data (abs s) bn) = BSIZE"
    and rd_law: "inv s \<Longrightarrow> avail (abs s) bn \<Longrightarrow>
      \<exists>b s'. rd bn s = Ret (b, s') \<and> step {} s s' \<and> hnd s' b bn \<and> abs s' = cv_read bn (abs s)"
    and put_law: "inv s \<Longrightarrow> hnd s b bn \<Longrightarrow> length d = BSIZE \<Longrightarrow>
      step {} s (put b d s) \<and> abs (put b d s) = cv_set bn d (abs s)"
    and wr_law: "inv s \<Longrightarrow> hnd s b bn \<Longrightarrow>
      \<exists>s'. wr b s = Ret s' \<and> step {} s s' \<and> abs s' = cv_write bn (abs s)"
    and rel_law: "inv s \<Longrightarrow> hnd s b bn \<Longrightarrow>
      (cv_refs (abs s) bn = 1 \<longrightarrow> cv_data (abs s) bn = cv_disk (abs s) bn) \<Longrightarrow>
      \<exists>s'. rel b s = Ret s' \<and> step {bn} s s' \<and> abs s' = cv_release bn (abs s)"
    and pin_law: "inv s \<Longrightarrow> hnd s b bn \<Longrightarrow> cv_refs (abs s) bn < 2 ^ 32 - 1 \<Longrightarrow>
      step {} s (pin b s) \<and> abs (pin b s) = cv_pin bn (abs s)"
    and unpin_law: "inv s \<Longrightarrow> hnd s b bn \<Longrightarrow> 1 < cv_refs (abs s) bn \<Longrightarrow>
      step {} s (unpin b s) \<and> abs (unpin b s) = cv_unpin bn (abs s)"
begin

lemma write_through:
  assumes "inv s" "hnd s b bn" "length d = BSIZE"
  shows "\<exists>s'. wr b (put b d s) = Ret s' \<and> step {} s s' \<and> hnd s' b bn \<and> abs s' = cv_put bn d (abs s)"
proof -
  have p: "step {} s (put b d s)" "abs (put b d s) = cv_set bn d (abs s)"
    using put_law[OF assms] by simp_all
  have h: "hnd (put b d s) b bn" using step_hnd[OF p(1) assms(2)] by simp
  from wr_law[OF step_inv[OF p(1)] h] obtain s' where
    s': "wr b (put b d s) = Ret s'" "step {} (put b d s) s'" "abs s' = cv_write bn (cv_set bn d (abs s))"
    using p(2) by auto
  then show ?thesis using step_trans[OF p(1) s'(2)] step_hnd[OF s'(2) h] by auto
qed

text \<open>Reading a block and releasing it changes nothing.\<close>

lemma peek:
  assumes "inv s" "avail (abs s) bn"
  shows "\<exists>b s1 s2. rd bn s = Ret (b, s1) \<and> step {} s s1 \<and> dat b s1 = cv_data (abs s) bn \<and> rel b s1 = Ret s2 \<and>
     step {} s s2 \<and> abs s2 = abs s"
proof -
  from rd_law[OF assms] obtain b s1 where r: "rd bn s = Ret (b, s1)" "step {} s s1" "hnd s1 b bn"
    "abs s1 = cv_read bn (abs s)" by blast
  have i1: "inv s1" using step_inv[OF r(2)] .
  have ul: "\<not> cv_locked (abs s) bn" using assms(2) by (simp add: avail_def)
  have "cv_refs (abs s1) bn = 1 \<longrightarrow> cv_data (abs s1) bn = cv_disk (abs s1) bn"
    using clean[OF assms(1)] by (simp add: r(4) cv_read_def)
  from rel_law[OF i1 r(3) this] obtain s2 where s2: "rel b s1 = Ret s2" "step {bn} s1 s2"
    "abs s2 = cv_release bn (abs s1)" by blast
  have "step {bn} s s2" using step_trans[OF r(2) s2(2)] by simp
  then have "step {} s s2" using step_unlocked[OF assms(1)] ul by auto
  then show ?thesis
    using r s2 hnd_dat[OF i1 r(3)] cv_release_read[OF ul] by (auto simp: cv_read_def)
qed

text \<open>Overwriting a block on disk: read it, change it, write it through, release it.\<close>

lemma update:
  assumes "inv s" "avail (abs s) bn" "length (f (cv_data (abs s) bn)) = BSIZE"
  shows "\<exists>b s1 s2 s3. rd bn s = Ret (b, s1) \<and> step {} s s1 \<and> dat b s1 = cv_data (abs s) bn \<and>
     wr b (put b (f (dat b s1)) s1) = Ret s2 \<and> rel b s2 = Ret s3 \<and> step {} s s3 \<and>
     abs s3 = cv_put bn (f (cv_data (abs s) bn)) (abs s)"
proof -
  from rd_law[OF assms(1,2)] obtain b s1 where r: "rd bn s = Ret (b, s1)" "step {} s s1" "hnd s1 b bn"
    "abs s1 = cv_read bn (abs s)" by blast
  have i1: "inv s1" using step_inv[OF r(2)] .
  have ul: "\<not> cv_locked (abs s) bn" using assms(2) by (simp add: avail_def)
  let ?d = "f (cv_data (abs s) bn)"
  have dat: "dat b s1 = cv_data (abs s) bn" using hnd_dat[OF i1 r(3)] r(4) by (simp add: cv_read_def)
  from write_through[OF i1 r(3) assms(3)] obtain s2 where s2: "wr b (put b ?d s1) = Ret s2"
    "step {} s1 s2" "hnd s2 b bn" "abs s2 = cv_put bn ?d (abs s1)" by blast
  have "cv_refs (abs s2) bn = 1 \<longrightarrow> cv_data (abs s2) bn = cv_disk (abs s2) bn" by (simp add: s2(4))
  from rel_law[OF step_inv[OF s2(2)] s2(3) this] obtain s3 where s3: "rel b s2 = Ret s3"
    "step {bn} s2 s3" "abs s3 = cv_release bn (abs s2)" by blast
  have "step {bn} s s3" using step_trans[OF step_trans[OF r(2) s2(2)] s3(2)] by simp
  then have "step {} s s3" using step_unlocked[OF assms(1)] ul by auto
  moreover have "abs s3 = cv_put bn ?d (abs s)"
    using s3(3) s2(4) r(4) ul by (simp add: cv_put_read cv_release_read)
  ultimately show ?thesis using r(1,2) dat s2(1) s3(1) by auto
qed

lemma rel_clean:
  assumes "inv s" "hnd s b bn" "cv_data (abs s) bn = cv_disk (abs s) bn \<or> 1 < cv_refs (abs s) bn"
  shows "\<exists>s'. rel b s = Ret s' \<and> step {bn} s s' \<and> abs s' = cv_release bn (abs s)"
  using rel_law[OF assms(1,2)] assms(3) by auto

text \<open>Copying block \<open>src\<close> over block \<open>dst\<close>, with the two buffers obtained in either order.\<close>

lemma copy_to:
  assumes i: "inv s" and av: "avail (abs s) dst" "avail (cv_read dst (abs s)) src" and ne: "src \<noteq> dst"
  shows "\<exists>t s1 f s2 s3 s4 s5. rd dst s = Ret (t, s1) \<and> step {} s s1 \<and> rd src s1 = Ret (f, s2) \<and>
     wr t (put t (dat f s2) s2) = Ret s3 \<and> rel f s3 = Ret s4 \<and> rel t s4 = Ret s5 \<and>
     step {} s s5 \<and> abs s5 = cv_put dst (cv_data (abs s) src) (abs s)"
proof -
  let ?v = "abs s" and ?d = "cv_data (abs s) src"
  have ul: "\<not> cv_locked ?v dst" "\<not> cv_locked ?v src" using av ne by (auto simp: avail_def cv_read_def)
  from rd_law[OF i av(1)] obtain t s1 where r1: "rd dst s = Ret (t, s1)" "step {} s s1" "hnd s1 t dst"
    "abs s1 = cv_read dst ?v" by blast
  from rd_law[OF step_inv[OF r1(2)], of src] av(2) r1(4) obtain f s2 where r2: "rd src s1 = Ret (f, s2)"
    "step {} s1 s2" "hnd s2 f src" "abs s2 = cv_read src (cv_read dst ?v)" by auto
  have i2: "inv s2" using step_inv[OF r2(2)] .
  have ht: "hnd s2 t dst" using step_hnd[OF r2(2) r1(3)] by simp
  have d: "dat f s2 = ?d" using hnd_dat[OF i2 r2(3)] r2(4) by (simp add: cv_read_def)
  have len: "length ?d = BSIZE" by (rule data_len[OF i])
  from write_through[OF i2 ht len] obtain s3 where s3: "wr t (put t ?d s2) = Ret s3" "step {} s2 s3"
    "hnd s3 t dst" "abs s3 = cv_read src (cv_read dst (cv_put dst ?d ?v))"
    by (auto simp: r2(4) cv_put_read)
  have hf: "hnd s3 f src" using step_hnd[OF s3(2) r2(3)] by simp
  have "cv_data (abs s3) src = cv_disk (abs s3) src \<or> 1 < cv_refs (abs s3) src"
    using clean[OF i, of src] ne by (auto simp: s3(4) cv_read_def)
  from rel_clean[OF step_inv[OF s3(2)] hf this] obtain s4 where s4: "rel f s3 = Ret s4"
    "step {src} s3 s4" "abs s4 = cv_release src (cv_read src (cv_read dst (cv_put dst ?d ?v)))"
    by (auto simp: s3(4))
  have a4: "abs s4 = cv_read dst (cv_put dst ?d ?v)"
    unfolding s4(3) using ul ne by (intro cv_release_read) (simp add: cv_read_def)
  have ht4: "hnd s4 t dst" using step_hnd[OF s4(2) s3(3)] ne by simp
  have "cv_data (abs s4) dst = cv_disk (abs s4) dst \<or> 1 < cv_refs (abs s4) dst"
    by (simp add: a4 cv_read_def)
  from rel_clean[OF step_inv[OF s4(2)] ht4 this] obtain s5 where s5: "rel t s4 = Ret s5"
    "step {dst} s4 s5" "abs s5 = cv_put dst ?d ?v"
    using ul by (auto simp: a4 cv_release_read)
  have "step {src} s1 s4" using step_trans[OF step_trans[OF r2(2) s3(2)] s4(2)] by simp
  from step_trans[OF step_trans[OF r1(2) this] s5(2)] have "step {src, dst} s s5"
    by (simp add: insert_commute)
  then have "step {} s s5" using step_unlocked[OF i] ul by auto
  then show ?thesis using r1(1,2) r2(1) s3(1) s4(1) s5(1,3) d by auto
qed

lemma copy_from:
  assumes i: "inv s" and av: "avail (abs s) src" "avail (cv_read src (abs s)) dst" and ne: "src \<noteq> dst"
    and up: "u \<Longrightarrow> 0 < cv_refs (abs s) dst"
  shows "\<exists>l s1 d s2 s3 s4 s5. rd src s = Ret (l, s1) \<and> step {} s s1 \<and> rd dst s1 = Ret (d, s2) \<and>
     wr d (put d (dat l s2) s2) = Ret s3 \<and> rel l (if u then unpin d s3 else s3) = Ret s4 \<and>
     rel d s4 = Ret s5 \<and> step {} s s5 \<and>
     abs s5 = (if u then cv_unpin dst else id) (cv_put dst (cv_data (abs s) src) (abs s))"
proof -
  let ?v = "abs s" and ?d = "cv_data (abs s) src"
  let ?w = "(if u then cv_unpin dst else id) (cv_put dst ?d ?v)"
  have ul: "\<not> cv_locked ?v dst" "\<not> cv_locked ?v src" using av ne by (auto simp: avail_def cv_read_def)
  from rd_law[OF i av(1)] obtain l s1 where r1: "rd src s = Ret (l, s1)" "step {} s s1" "hnd s1 l src"
    "abs s1 = cv_read src ?v" by blast
  from rd_law[OF step_inv[OF r1(2)], of dst] av(2) r1(4) obtain d s2 where r2: "rd dst s1 = Ret (d, s2)"
    "step {} s1 s2" "hnd s2 d dst" "abs s2 = cv_read dst (cv_read src ?v)" by auto
  have i2: "inv s2" using step_inv[OF r2(2)] .
  have hl: "hnd s2 l src" using step_hnd[OF r2(2) r1(3)] by simp
  have dat: "dat l s2 = ?d" using hnd_dat[OF i2 hl] r2(4) by (simp add: cv_read_def)
  have len: "length ?d = BSIZE" by (rule data_len[OF i])
  from write_through[OF i2 r2(3) len] obtain s3 where s3: "wr d (put d ?d s2) = Ret s3" "step {} s2 s3"
    "hnd s3 d dst" "abs s3 = cv_read dst (cv_read src (cv_put dst ?d ?v))"
    by (auto simp: r2(4) cv_put_read)
  have i3: "inv s3" using step_inv[OF s3(2)] .
  let ?s3 = "if u then unpin d s3 else s3"
  have u1: "u \<Longrightarrow> 1 < cv_refs (abs s3) dst" using up ne by (simp add: s3(4) cv_read_def)
  have a3: "step {} s2 ?s3" "abs ?s3 = cv_read src (cv_read dst ?w)"
    using unpin_law[OF i3 s3(3)] u1 step_trans[OF s3(2), of "{}"] s3(2,4) up ne
    by (auto simp: cv_defs cv_put_def fun_upd_twist)
  have hh: "hnd ?s3 l src" "hnd ?s3 d dst" using step_hnd[OF a3(1)] hl r2(3) by simp_all
  have "cv_data (abs ?s3) src = cv_disk (abs ?s3) src \<or> 1 < cv_refs (abs ?s3) src"
    using clean[OF i, of src] ne by (auto simp: a3(2) cv_read_def cv_unpin_def)
  from rel_clean[OF step_inv[OF a3(1)] hh(1) this] obtain s4 where s4: "rel l ?s3 = Ret s4"
    "step {src} ?s3 s4" "abs s4 = cv_release src (cv_read src (cv_read dst ?w))"
    unfolding a3(2) by blast
  have ulw: "\<not> cv_locked ?w dst" "\<not> cv_locked ?w src" using ul by (simp_all add: cv_unpin_def)
  have a4: "abs s4 = cv_read dst ?w"
    unfolding s4(3) using ulw ne by (intro cv_release_read) (simp add: cv_read_def)
  have hd: "hnd s4 d dst" using step_hnd[OF s4(2) hh(2)] ne by simp
  have "cv_data (abs s4) dst = cv_disk (abs s4) dst \<or> 1 < cv_refs (abs s4) dst"
    by (simp add: a4 cv_read_def cv_unpin_def)
  from rel_clean[OF step_inv[OF s4(2)] hd this] obtain s5 where s5: "rel d s4 = Ret s5"
    "step {dst} s4 s5" "abs s5 = ?w"
    unfolding a4 cv_release_read[OF ulw(1)] by blast
  have "step {src} s1 s4" using step_trans[OF step_trans[OF r2(2) a3(1)] s4(2)] by simp
  from step_trans[OF step_trans[OF r1(2) this] s5(2)] have "step {src, dst} s s5"
    by (simp add: insert_commute)
  then have "step {} s s5" using step_unlocked[OF i] ul by auto
  then show ?thesis using r1(1,2) r2(1) s3(1) s4(1) s5(1,3) dat by auto
qed

end

interpretation bcache: block_cache "bread ROOTDEV" bdata set_bdata bwrite brelse bpin bunpin
  cache_inv cabs handle bstep
proof unfold_locales
  fix X :: "uint set" and s s' :: "'a bio_state_scheme"
  assume "cache_inv s" "bstep X s s'" "\<And>bn. bn \<in> X \<Longrightarrow> \<not> cv_locked (cabs s) bn"
  then show "bstep {} s s'" using handle_views(8)[of s] unfolding bstep_def cabs_simps by blast
next
  fix s :: "'a bio_state_scheme" and bn
  assume "cache_inv s" "avail (cabs s) bn"
  then show "\<exists>b s'. bread ROOTDEV bn s = Ret (b, s') \<and> bstep {} s s' \<and> handle s' b bn \<and>
      cabs s' = cv_read bn (cabs s)"
    by (intro bread_refines) (simp_all add: avail_def)
qed (auto simp: bstepD bstep_trans handle_views(5,7,8) set_bdata_refines bwrite_refines brelse_refines
    bpin_refines bunpin_refines view_clean view_length)

section \<open>The cache at boot\<close>

text \<open>The static array \<open>bcache\<close> before \<open>binit\<close>: all bytes are zero.\<close>

definition zero_buf :: buf where
  "zero_buf = \<lparr>b_valid = False, b_dev = 0, b_blockno = 0, b_lock = initsleeplock, b_refcnt = 0,
               b_prev = 0, b_next = 0, b_data = replicate BSIZE 0\<rparr>"

lemma core_push_front [simp]: "core (push_front b bs ! i) = core (bs ! i)"
  by (simp add: push_front_def Let_def)

lemma length_set_links [simp]: "length (set_next bs b v) = length bs" "length (set_prev bs b v) = length bs"
  by (simp_all add: set_next_def set_prev_def)

lemma length_push_front [simp]: "length (push_front b bs) = length bs"
  by (simp add: push_front_def Let_def)

lemma binit_loop_core:
  "(\<And>i. i < length bs \<Longrightarrow> core (bs ! i) = core zero_buf) \<Longrightarrow> i < length bs \<Longrightarrow>
   core (fold (\<lambda>b bs. push_front b (bs[b := (bs ! b)\<lparr>b_lock := initsleeplock\<rparr>])) js bs ! i) = core zero_buf"
proof (induction js arbitrary: bs)
  case (Cons j js)
  let ?bs = "bs[j := (bs ! j)\<lparr>b_lock := initsleeplock\<rparr>]"
  have "core (?bs ! i) = core zero_buf" if "i < length bs" for i
    using Cons.prems(1)[of i] Cons.prems(1)[of j] that
    by (auto simp: nth_list_update' core_def zero_buf_def)
  then show ?case using Cons.IH[of "push_front j ?bs"] Cons.prems(2) by simp
qed simp

lemma binit_cold:
  assumes z: "bcache s = replicate (Suc NBUF) zero_buf" and run: "running s"
    and d: "\<And>bn. length (disk s bn) = BSIZE"
  shows "cache_inv (binit s)"
    "cabs (binit s) = \<lparr>cv_data = disk s, cv_disk = disk s, cv_writes = dwrites s, cv_refs = (\<lambda>_. 0),
                       cv_locked = (\<lambda>_. False)\<rparr>"
    "bio_frame s (binit s)"
proof -
  have f: "disk (binit s) = disk s" "dwrites (binit s) = dwrites s" by (simp_all add: binit_def)
  show fr: "bio_frame s (binit s)" by (simp add: binit_def)
  have "length (bcache s) = Suc NBUF" "\<And>i. i < Suc NBUF \<Longrightarrow> bcache s ! i = zero_buf"
    by (simp_all add: z del: replicate_Suc)
  then have c: "core (bcache (binit s) ! i) = core zero_buf" if "i < NBUF" for i
    using that by (simp add: binit_def Let_def) (rule binit_loop_core; simp)
  note cf = core_fields[OF c, unfolded zero_buf_def, simplified]
  have nh: "\<not> holds (binit s) i bn" for i bn using cf(1)[of i] by (auto simp: holds_def)
  have "ring (bcache (binit s)) (rev [0..<NBUF])" by (rule ring_binit) (simp add: z)
  moreover have "set (rev [0..<NBUF]) = {..<NBUF}" by auto
  moreover have "buf_ok (disk s) (bcache (binit s) ! i)" if "i < NBUF" for i
    using cf[OF that] by (simp add: buf_ok_def initsleeplock_def)
  ultimately show "cache_inv (binit s)"
    using nh bio_frame_running(1)[OF fr run] d unfolding cache_inv_def uniq_def f by blast
  show "cabs (binit s) = \<lparr>cv_data = disk s, cv_disk = disk s, cv_writes = dwrites s, cv_refs = (\<lambda>_. 0),
                       cv_locked = (\<lambda>_. False)\<rparr>"
    using views_none[OF nh] f by (simp add: cabs_def fun_eq_iff)
qed

text \<open>
  C8. Coherence of the buffer cache: after the contents of block \<open>bn\<close> are replaced through the
  cache (\<open>bread\<close>, store, \<open>bwrite\<close>, \<open>brelse\<close>), the disk holds the new contents, and the next
  \<open>bread\<close> of any available block returns what was last written to it, whichever buffer the two
  calls are given.
\<close>

theorem bwrite_bread_coherent:
  assumes "cache_inv s" "avail (cabs s) bn" "avail (cabs s) bn'" "length d = BSIZE"
  shows "\<exists>b s1 s2 s3 b' s4. bread ROOTDEV bn s = Ret (b, s1) \<and> bwrite b (set_bdata b d s1) = Ret s2 \<and>
     brelse b s2 = Ret s3 \<and> disk s3 = (disk s)(bn := d) \<and> bread ROOTDEV bn' s3 = Ret (b', s4) \<and>
     bdata b' s4 = (if bn' = bn then d else view s bn') \<and> cache_inv s4"
proof -
  from bcache.update[OF assms(1,2), of "\<lambda>_. d"] assms(4) obtain b s1 s2 s3 where
    1: "bread ROOTDEV bn s = Ret (b, s1)" "bwrite b (set_bdata b d s1) = Ret s2" "brelse b s2 = Ret s3"
      "bstep {} s s3" "cabs s3 = cv_put bn d (cabs s)" by auto
  have "avail (cabs s3) bn'" using assms(3) by (simp add: 1(5) avail_def)
  from bcache.rd_law[OF bstepD(1)[OF 1(4)] this] obtain b' s4 where
    2: "bread ROOTDEV bn' s3 = Ret (b', s4)" "bstep {} s3 s4" "handle s4 b' bn'"
      "cabs s4 = cv_read bn' (cabs s3)" by blast
  have "view s4 = (view s)(bn := d)" "disk s3 = (disk s)(bn := d)"
    using arg_cong[OF 2(4), of cv_data] arg_cong[OF 1(5), of cv_data] arg_cong[OF 1(5), of cv_disk]
    by (simp_all add: cv_read_def)
  then show ?thesis using 1(1-3) 2(1) handle_views(5)[OF bstepD(1)[OF 2(2)] 2(3)] bstepD(1)[OF 2(2)] by auto
qed

text \<open>A machine with one process running, an empty cache and a zeroed disk.\<close>

definition zero_proc :: proc where
  "zero_proc = \<lparr>p_state = UNUSED, p_chan = None, p_killed = 0, p_xstate = 0, p_pid = 0, p_parent = None,
     p_kstack = 0, p_sz = 0, p_pagetable = 0, p_trapframe = 0,
     p_context = \<lparr>ctx_ra = 0, ctx_sp = 0, ctx_s = replicate 12 0\<rparr>,
     p_ofile = replicate NOFILE None, p_cwd = None, p_name = replicate 16 0\<rparr>"

definition cold_bio :: "(uint \<Rightarrow> block) \<Rightarrow> bio_state" where
  "cold_bio d = \<lparr>mem = (\<lambda>_. 0), freelist = 0, kend = 0x80022000,
     procs = zero_proc\<lparr>p_state := RUNNING, p_pid := 1\<rparr> # replicate (NPROC - 1) zero_proc, nextpid = 2,
     initproc = Some 0, cur = Some 0, ticks = 0, bcache = replicate (Suc NBUF) zero_buf, disk = d,
     dwrites = []\<rparr>"

lemma cold_bio_simps [simp]:
  "bcache (cold_bio d) = replicate (Suc NBUF) zero_buf" "disk (cold_bio d) = d" "running (cold_bio d)"
  "dwrites (cold_bio d) = []"
  by (simp_all add: cold_bio_def running_def)

theorem bwrite_bread_coherent_witness:
  "\<exists>b s1 s2 s3 b' s4. bread ROOTDEV 40 (binit (cold_bio (\<lambda>_. replicate BSIZE 0))) = Ret (b, s1) \<and>
     bwrite b (set_bdata b (replicate BSIZE 7) s1) = Ret s2 \<and> brelse b s2 = Ret s3 \<and>
     disk s3 = (\<lambda>_. replicate BSIZE 0)(40 := replicate BSIZE 7) \<and>
     bread ROOTDEV 40 s3 = Ret (b', s4) \<and> bdata b' s4 = replicate BSIZE 7"
proof -
  let ?c = "cold_bio (\<lambda>_. replicate BSIZE 0)"
  note c = binit_cold[of ?c, simplified]
  have "avail (cabs (binit ?c)) 40" by (simp add: c(2) avail_def NBUF_def)
  moreover have "disk (binit ?c) = (\<lambda>_. replicate BSIZE 0)"
    using arg_cong[OF c(2), of cv_disk] by simp
  ultimately show ?thesis
    using bwrite_bread_coherent[OF c(1), of 40 40 "replicate BSIZE 7"] by auto
qed

end
