(* ===== verification/Fslog.thy ===== *)
theory Fslog
  imports Bio_Laws
begin

text \<open>
  The write-ahead log of \<^verbatim>\<open>kernel/log.c\<close>. The record \<open>log\<close> is the kernel's \<open>struct log\<close>; the header
  block is read and written byte by byte through the cache. \<open>begin_op\<close>, \<open>log_write\<close> and \<open>end_op\<close>
  are what file system operations call; \<open>commit\<close> and \<open>recover_from_log\<close> make a transaction
  atomic.

  A crash during \<open>commit\<close> leaves the disk with some prefix of the writes it issues. The main
  results say that whatever the prefix, recovery at the next boot returns, and leaves every block
  outside the log with either its old or its new contents, all of them alike; and that recovery
  can itself be interrupted any number of times. Block numbers are computed on C \<open>int\<close>s and
  passed as \<open>uint\<close>s; the conversions are written out.
\<close>

section \<open>State and operations\<close>

record superblock =
  sb_magic :: uint
  sb_size :: uint
  sb_nblocks :: uint
  sb_ninodes :: uint
  sb_nlog :: uint
  sb_logstart :: uint
  sb_inodestart :: uint
  sb_bmapstart :: uint

record log =
  l_start :: int
  l_size :: int
  l_outstanding :: int
  l_committing :: int
  l_dev :: int
  lh_n :: int
  lh_block :: "uint list"

record log_state = bio_state +
  klog :: log

abbreviation u32 :: "int \<Rightarrow> uint" where "u32 i \<equiv> word_of_int i"

definition upd_log :: "(log \<Rightarrow> log) \<Rightarrow> 'a log_state_scheme \<Rightarrow> 'a log_state_scheme" where
  "upd_log f s = s\<lparr>klog := f (klog s)\<rparr>"

definition install_trans :: "int \<Rightarrow> 'a log_state_scheme \<Rightarrow> 'a log_state_scheme outcome" where
  "install_trans recovering s =
     foldo (\<lambda>tail s.
       bindo (bread (u32 (l_dev (klog s))) (u32 (l_start (klog s) + int tail + 1)) s) (\<lambda>(lbuf, s).
       bindo (bread (u32 (l_dev (klog s))) (lh_block (klog s) ! tail) s) (\<lambda>(dbuf, s).
       bindo (bwrite dbuf (set_bdata dbuf (bdata lbuf s) s)) (\<lambda>s.
       bindo (brelse lbuf (if recovering = 0 then bunpin dbuf s else s)) (\<lambda>s.
       brelse dbuf s)))))
     [0..<nat (lh_n (klog s))] s"

text \<open>The array \<open>log.lh.block\<close> has \<open>LOGSIZE\<close> entries; an access beyond it is undefined.\<close>

definition read_head :: "'a log_state_scheme \<Rightarrow> 'a log_state_scheme outcome" where
  "read_head s =
     bindo (bread (u32 (l_dev (klog s))) (u32 (l_start (klog s))) s) (\<lambda>(buf, s).
       let d = bdata buf s;
           n = sint (get32 d 0)
       in if n > int LOGSIZE then Undef
          else brelse buf
            (upd_log (\<lambda>l. l\<lparr>lh_n := n,
               lh_block := fold (\<lambda>i bl. bl[i := get32 d (4 + 4 * i)]) [0..<nat n] (lh_block l)\<rparr>) s))"

definition write_head :: "'a log_state_scheme \<Rightarrow> 'a log_state_scheme outcome" where
  "write_head s =
     bindo (bread (u32 (l_dev (klog s))) (u32 (l_start (klog s))) s) (\<lambda>(buf, s).
       let l = klog s;
           d = put32 (bdata buf s) 0 (u32 (lh_n l));
           d = fold (\<lambda>i d. put32 d (4 + 4 * i) (lh_block l ! i)) [0..<nat (lh_n l)] d
       in if lh_n l > int LOGSIZE then Undef
          else bindo (bwrite buf (set_bdata buf d s)) (brelse buf))"

definition recover_from_log :: "'a log_state_scheme \<Rightarrow> 'a log_state_scheme outcome" where
  "recover_from_log s =
     bindo (read_head s) (\<lambda>s.
     bindo (install_trans 1 s) (\<lambda>s.
     write_head (upd_log (\<lambda>l. l\<lparr>lh_n := 0\<rparr>) s)))"

definition initlog :: "int \<Rightarrow> superblock \<Rightarrow> 'a log_state_scheme \<Rightarrow> 'a log_state_scheme outcome" where
  "initlog dev sb s =
     (if 4 * (LOGSIZE + 1) \<ge> BSIZE then Panic ''initlog: too big logheader''
      else recover_from_log
        (upd_log (\<lambda>l. l\<lparr>l_start := sint (sb_logstart sb), l_size := sint (sb_nlog sb), l_dev := dev\<rparr>) s))"

definition begin_op :: "'a log_state_scheme \<Rightarrow> 'a log_state_scheme outcome" where
  "begin_op s =
     (let l = klog s
      in if l_committing l \<noteq> 0 then Sleeps
         else if lh_n l + (l_outstanding l + 1) * int MAXOPBLOCKS > int LOGSIZE then Sleeps
         else Ret (upd_log (\<lambda>l. l\<lparr>l_outstanding := l_outstanding l + 1\<rparr>) s))"

definition write_log :: "'a log_state_scheme \<Rightarrow> 'a log_state_scheme outcome" where
  "write_log s =
     foldo (\<lambda>tail s.
       bindo (bread (u32 (l_dev (klog s))) (u32 (l_start (klog s) + int tail + 1)) s) (\<lambda>(to, s).
       bindo (bread (u32 (l_dev (klog s))) (lh_block (klog s) ! tail) s) (\<lambda>(from, s).
       bindo (bwrite to (set_bdata to (bdata from s) s)) (\<lambda>s.
       bindo (brelse from s) (\<lambda>s.
       brelse to s)))))
     [0..<nat (lh_n (klog s))] s"

definition commit :: "'a log_state_scheme \<Rightarrow> 'a log_state_scheme outcome" where
  "commit s =
     (if lh_n (klog s) > 0
      then bindo (write_log s) (\<lambda>s.
           bindo (write_head s) (\<lambda>s.
           bindo (install_trans 0 s) (\<lambda>s.
           write_head (upd_log (\<lambda>l. l\<lparr>lh_n := 0\<rparr>) s))))
      else Ret s)"

definition end_op :: "'a log_state_scheme \<Rightarrow> 'a log_state_scheme outcome" where
  "end_op s =
     (let s = upd_log (\<lambda>l. l\<lparr>l_outstanding := l_outstanding l - 1\<rparr>) s
      in if l_committing (klog s) \<noteq> 0 then Panic ''log.committing''
         else if l_outstanding (klog s) = 0
         then bindo (commit (upd_log (\<lambda>l. l\<lparr>l_committing := 1\<rparr>) s)) (\<lambda>s.
                Ret (wakeup ChLog (upd_log (\<lambda>l. l\<lparr>l_committing := 0\<rparr>) s)))
         else Ret (wakeup ChLog s))"

text \<open>The index at which \<open>log_write\<close> stops its search: the block's slot, or the first free one.\<close>

definition log_slot :: "log \<Rightarrow> uint \<Rightarrow> nat" where
  "log_slot l bn = length (takeWhile (\<lambda>x. x \<noteq> bn) (take (nat (lh_n l)) (lh_block l)))"

definition log_write :: "nat \<Rightarrow> 'a log_state_scheme \<Rightarrow> 'a log_state_scheme outcome" where
  "log_write b s =
     (let l = klog s; bn = b_blockno (bcache s ! b)
      in if lh_n l \<ge> int LOGSIZE \<or> lh_n l \<ge> l_size l - 1 then Panic ''too big a transaction''
         else if l_outstanding l < 1 then Panic ''log_write outside of trans''
         else let i = log_slot l bn;
                  s = upd_log (\<lambda>l. l\<lparr>lh_block := (lh_block l)[i := bn]\<rparr>) s
              in if int i = lh_n l
                 then Ret (upd_log (\<lambda>l. l\<lparr>lh_n := lh_n l + 1\<rparr>) (bpin b s))
                 else Ret s)"

section \<open>The log as seen by the cache\<close>

lemma bio_frame_klog:
  fixes s s' :: "'a log_state_scheme"
  shows "bio_frame s s' \<Longrightarrow> klog s' = klog s"
  by (cases s; cases s') (simp add: bio_frame_def bio_state.defs log_state.defs)

lemma klog_wakeup [simp]: "klog (wakeup ch s) = klog s"
  by (rule bio_frame_klog[OF bio_frame_wakeup])

lemma upd_log_simps [simp]:
  "klog (upd_log f s) = f (klog s)" "cabs (upd_log f s) = cabs s" "cache_inv (upd_log f s) = cache_inv s"
  "handle (upd_log f s) b bn = handle s b bn" "bdata b (upd_log f s) = bdata b s"
  "disk (upd_log f s) = disk s" "dwrites (upd_log f s) = dwrites s" "bcache (upd_log f s) = bcache s"
  "running (upd_log f s) = running s"
proof -
  have h: "holds (upd_log f s) = holds s" for f by (simp add: holds_def upd_log_def fun_eq_iff)
  have sl: "slot (upd_log f s) = slot s" for f by (simp add: slot_def h fun_eq_iff)
  have r: "running (upd_log f s) = running s" by (simp add: running_def upd_log_def)
  have "holdingsleep lk (upd_log f s) = holdingsleep lk s" for lk
    by (simp add: holdingsleep_def mypid_def myproc_def upd_log_def split: option.split)
  then show "handle (upd_log f s) b bn = handle s b bn" by (simp add: handle_def h) (simp add: upd_log_def)
  show "cabs (upd_log f s) = cabs s"
    unfolding cabs_def view_def refs_def blocked_def sl unfolding upd_log_def by (simp cong: option.case_cong if_cong)
  show "cache_inv (upd_log f s) = cache_inv s"
    by (simp add: cache_inv_def uniq_def h r) (simp add: upd_log_def)
qed (simp_all add: upd_log_def bdata_def running_def)

lemma upd_log_views [simp]:
  "view (upd_log f s) = view s" "refs (upd_log f s) = refs s" "blocked (upd_log f s) = blocked s"
  using upd_log_simps(2)[of f s] by (simp_all add: cabs_def)

text \<open>\<open>lstep l s s'\<close>: a step of the cache from \<open>s\<close> to \<open>s'\<close> together with an update of the log to \<open>l\<close>.\<close>

definition lstep :: "log \<Rightarrow> 'a log_state_scheme \<Rightarrow> 'a log_state_scheme \<Rightarrow> bool" where
  "lstep l s s' \<longleftrightarrow> bstep {} (upd_log (\<lambda>_. l) s) s'"

lemma upd_log_upd_log [simp]: "upd_log f (upd_log g s) = upd_log (\<lambda>l. f (g l)) s"
  by (simp add: upd_log_def)

lemma bio_frame_upd_log:
  fixes s s' :: "'a log_state_scheme"
  shows "bio_frame s s' \<Longrightarrow> bio_frame (upd_log (\<lambda>_. l) s) (upd_log (\<lambda>_. l) s')"
  by (cases s; cases s') (simp add: bio_frame_def upd_log_def bio_state.defs log_state.defs)

lemma bstep_upd_log: "bstep {} s s' \<Longrightarrow> bstep {} (upd_log (\<lambda>_. l) s) (upd_log (\<lambda>_. l) s')"
  by (simp add: bstep_def bio_frame_upd_log)

lemma lstep_klog: "lstep l s s' \<Longrightarrow> klog s' = l"
  using bio_frame_klog by (fastforce simp: lstep_def bstep_def)

lemma lstep_inv: "lstep l s s' \<Longrightarrow> cache_inv s'"
  by (simp add: lstep_def bstep_def)

lemma lstep_trans: "lstep l s t \<Longrightarrow> lstep l' t u \<Longrightarrow> lstep l' s u"
  using bstep_trans[of "{}" "upd_log (\<lambda>_. l') s" "upd_log (\<lambda>_. l') t" "{}" u]
    bstep_upd_log[of "upd_log (\<lambda>_. l) s" t l'] by (simp add: lstep_def)

lemma lstep_bstep: "bstep {} s s' \<Longrightarrow> lstep (klog s) s s'"
  by (simp add: lstep_def) (simp add: upd_log_def)

lemma lstep_upd: "cache_inv s \<Longrightarrow> lstep (f (klog s)) s (upd_log f s)"
proof -
  assume inv: "cache_inv s"
  have eq: "upd_log f s = upd_log (\<lambda>_. f (klog s)) s" by (simp add: upd_log_def)
  show ?thesis using inv unfolding lstep_def bstep_def eq by simp
qed

text \<open>
  Room in the cache: \<open>k\<close> more blocks can be referenced, and nobody holds a block of \<open>R\<close>. The log
  works on the blocks \<open>R\<close> of its region and of the transaction.
\<close>

definition spare :: "uint set \<Rightarrow> nat \<Rightarrow> cview \<Rightarrow> bool" where
  "spare R k v \<longleftrightarrow> card {x. 0 < cv_refs v x} + k \<le> NBUF \<and>
     (\<forall>x\<in>R. \<not> cv_locked v x \<and> cv_refs v x < 2 ^ 31)"

lemma spare_avail: "spare R k v \<Longrightarrow> 0 < k \<Longrightarrow> x \<in> R \<Longrightarrow> avail v x"
  by (auto simp: spare_def avail_def)

lemma spare_avail_read:
  assumes "spare R k v" "0 < k" "x \<in> R" "y \<in> R" "x \<noteq> y" "0 < cv_refs v y \<or> 1 < k"
  shows "avail (cv_read x v) y"
proof -
  have "card {z. 0 < cv_refs (cv_read x v) z} \<le> card (insert x {z. 0 < cv_refs v z})"
    by (rule card_mono[OF finite]) (auto simp: cv_read_def)
  also have "\<dots> \<le> Suc (card {z. 0 < cv_refs v z})" by (simp add: card_insert_if)
  finally have c: "card {z. 0 < cv_refs (cv_read x v) z} \<le> Suc (card {z. 0 < cv_refs v z})" .
  have "cv_refs (cv_read x v) y = cv_refs v y" "cv_locked (cv_read x v) y = cv_locked v y"
    using assms(5) by (simp_all add: cv_read_def)
  then show ?thesis using assms(1,4,6) c unfolding spare_def avail_def by fastforce
qed

lemma spare_put [simp]: "spare R k (cv_put bn d v) = spare R k v"
  by (simp add: spare_def)

lemma spare_unpin: "spare R k v \<Longrightarrow> spare R k (cv_unpin bn v)"
proof -
  assume s: "spare R k v"
  have "card {z. 0 < cv_refs (cv_unpin bn v) z} \<le> card {z. 0 < cv_refs v z}"
    by (rule card_mono[OF finite]) (auto simp: cv_unpin_def split: if_splits)
  then show ?thesis using s by (fastforce simp: spare_def cv_unpin_def)
qed

section \<open>The loops of the log\<close>

text \<open>The log's blocks: the header at \<open>start\<close>, then the log blocks.\<close>

definition lblk :: "log \<Rightarrow> nat \<Rightarrow> uint" where
  "lblk l i = u32 (l_start l + int i + 1)"

definition log_region :: "log \<Rightarrow> uint set" where
  "log_region l = (\<lambda>i. u32 (l_start l + i)) ` {0..<l_size l}"

definition geometry :: "log \<Rightarrow> bool" where
  "geometry l \<longleftrightarrow> u32 (l_dev l) = ROOTDEV \<and> 0 \<le> l_start l \<and> 1 \<le> l_size l \<and> l_start l + l_size l \<le> 2 ^ 31 \<and>
     length (lh_block l) = LOGSIZE"

definition logged :: "log \<Rightarrow> uint list" where
  "logged l = take (nat (lh_n l)) (lh_block l)"

definition homes_ok :: "log \<Rightarrow> bool" where
  "homes_ok l \<longleftrightarrow> lh_n l \<le> int LOGSIZE \<and> (0 < lh_n l \<longrightarrow> lh_n l \<le> l_size l - 1) \<and>
     set (logged l) \<inter> log_region l = {}"

lemma lblk_region: "int i < l_size l - 1 \<Longrightarrow> lblk l i \<in> log_region l"
  unfolding lblk_def log_region_def by (rule image_eqI[of _ _ "int i + 1"]) (auto simp: add.assoc)

lemma header_region: "geometry l \<Longrightarrow> u32 (l_start l) \<in> log_region l"
  unfolding log_region_def by (rule image_eqI[of _ _ 0]) (auto simp: geometry_def)

lemma u32_inj: "0 \<le> a \<Longrightarrow> a < 2 ^ 32 \<Longrightarrow> 0 \<le> b \<Longrightarrow> b < 2 ^ 32 \<Longrightarrow> u32 a = u32 b \<longleftrightarrow> a = b"
  by (simp add: word_of_int_eq_iff take_bit_int_eq_self)

lemma lblk_inj:
  assumes "geometry l" "int i < l_size l - 1" "int j < l_size l - 1"
  shows "lblk l i = lblk l j \<longleftrightarrow> i = j" "lblk l i \<noteq> u32 (l_start l)"
  using assms u32_inj[of "l_start l + int i + 1" "l_start l + int j + 1"]
    u32_inj[of "l_start l + int i + 1" "l_start l"] by (auto simp: lblk_def geometry_def)

lemma logged_nth:
  assumes "homes_ok l" "geometry l" "i < nat (lh_n l)"
  shows "lh_block l ! i = logged l ! i" "i < length (logged l)" "logged l ! i \<notin> log_region l"
    "lblk l i \<in> log_region l" "length (logged l) = nat (lh_n l)" "logged l ! i \<in> set (logged l)"
proof -
  show len: "i < length (logged l)" "length (logged l) = nat (lh_n l)"
    using assms by (auto simp: logged_def homes_ok_def geometry_def)
  show "lh_block l ! i = logged l ! i" using len by (simp add: logged_def)
  show "logged l ! i \<in> set (logged l)" using len by simp
  then show "logged l ! i \<notin> log_region l" using assms(1) by (auto simp: homes_ok_def)
  show "lblk l i \<in> log_region l" using assms by (intro lblk_region) (auto simp: homes_ok_def)
qed

definition cv_log_one :: "log \<Rightarrow> nat \<Rightarrow> cview \<Rightarrow> cview" where
  "cv_log_one l i v = cv_put (lblk l i) (cv_data v (logged l ! i)) v"

definition cv_install_one :: "bool \<Rightarrow> log \<Rightarrow> nat \<Rightarrow> cview \<Rightarrow> cview" where
  "cv_install_one u l i v =
     (if u then cv_unpin (logged l ! i) else id) (cv_put (logged l ! i) (cv_data v (lblk l i)) v)"

abbreviation tblocks :: "log \<Rightarrow> uint set" where
  "tblocks l \<equiv> log_region l \<union> set (logged l)"

lemma klog_bstep: "bstep X s s' \<Longrightarrow> klog s' = klog s"
  by (rule bio_frame_klog[OF bstepD(2)])

lemma write_log_refines:
  assumes inv: "cache_inv s" and g: "geometry (klog s)" and ok: "homes_ok (klog s)"
    and sp: "spare (tblocks (klog s)) 1 (cabs s)"
    and pinned: "\<forall>x \<in> set (logged (klog s)). 0 < refs s x"
  shows "\<exists>s'. write_log s = Ret s' \<and> bstep {} s s' \<and>
     cabs s' = fold (cv_log_one (klog s)) [0..<nat (lh_n (klog s))] (cabs s)"
proof -
  let ?l = "klog s" and ?xs = "[0..<nat (lh_n (klog s))]"
  define I where "I ys t \<longleftrightarrow> bstep {} s t \<and> set ys \<subseteq> set ?xs \<and> cv_refs (cabs t) = refs s \<and>
     spare (tblocks ?l) 1 (cabs t) \<and> fold (cv_log_one ?l) ys (cabs t) = fold (cv_log_one ?l) ?xs (cabs s)"
    for ys and t :: "'a log_state_scheme"
  let ?f = "\<lambda>tail s. bindo (bread (u32 (l_dev (klog s))) (u32 (l_start (klog s) + int tail + 1)) s) (\<lambda>(to, s).
       bindo (bread (u32 (l_dev (klog s))) (lh_block (klog s) ! tail) s) (\<lambda>(from, s).
       bindo (bwrite to (set_bdata to (bdata from s) s)) (\<lambda>s.
       bindo (brelse from s) (\<lambda>s. brelse to s))))"
  have "\<exists>s'. foldo ?f ?xs s = Ret s' \<and> I [] s'"
  proof (rule foldo_invariant[of I])
    show "I ?xs s" using inv sp by (simp add: I_def bstep_def)
    fix i ys t assume a: "I (i # ys) t"
    then have st: "bstep {} s t" and i: "i < nat (lh_n ?l)" and rt: "cv_refs (cabs t) = refs s"
      and spt: "spare (tblocks ?l) 1 (cabs t)" by (auto simp: I_def)
    note n = logged_nth[OF ok g i]
    have kt: "klog t = ?l" by (rule klog_bstep[OF st])
    have ne: "logged ?l ! i \<noteq> lblk ?l i" using n(3,4) by metis
    have av: "avail (cabs t) (lblk ?l i)" "avail (cv_read (lblk ?l i) (cabs t)) (logged ?l ! i)"
      using spare_avail[OF spt] spare_avail_read[OF spt _ _ _ ne[symmetric]] n pinned rt by auto
    from bcache.copy_to[OF bstepD(1)[OF st] av ne] obtain b s1 f s2 s3 s4 s5 where
      c: "bread ROOTDEV (lblk ?l i) t = Ret (b, s1)" "bstep {} t s1" "bread ROOTDEV (logged ?l ! i) s1 = Ret (f, s2)"
        "bwrite b (set_bdata b (bdata f s2) s2) = Ret s3" "brelse f s3 = Ret s4" "brelse b s4 = Ret s5"
        "bstep {} t s5" "cabs s5 = cv_log_one ?l i (cabs t)" unfolding cv_log_one_def by blast
    have "?f i t = Ret s5"
      using c n(1) kt klog_bstep[OF c(2)] g by (simp add: lblk_def geometry_def)
    moreover have "I ys s5"
      using a c(8) bstep_trans[OF st c(7)] by (simp add: I_def cv_log_one_def)
    ultimately show "\<exists>s'. ?f i t = Ret s' \<and> I ys s'" by blast
  qed
  then show ?thesis by (auto simp: write_log_def I_def)
qed

lemma install_trans_refines:
  assumes inv: "cache_inv s" and g: "geometry (klog s)" and ok: "homes_ok (klog s)"
    and sp: "spare (tblocks (klog s)) (if r = 0 then 1 else 2) (cabs s)"
    and pinned: "r = 0 \<Longrightarrow> distinct (logged (klog s)) \<and> (\<forall>x \<in> set (logged (klog s)). 0 < refs s x)"
  shows "\<exists>s'. install_trans r s = Ret s' \<and> bstep {} s s' \<and>
     cabs s' = fold (cv_install_one (r = 0) (klog s)) [0..<nat (lh_n (klog s))] (cabs s)"
proof -
  let ?l = "klog s" and ?xs = "[0..<nat (lh_n (klog s))]" and ?k = "if r = 0 then 1 else 2 :: nat"
  let ?g = "cv_install_one (r = 0) ?l"
  define I where "I ys t \<longleftrightarrow> bstep {} s t \<and> set ys \<subseteq> set ?xs \<and> distinct ys \<and>
     (r = 0 \<longrightarrow> (\<forall>i \<in> set ys. 0 < cv_refs (cabs t) (logged ?l ! i))) \<and>
     spare (tblocks ?l) ?k (cabs t) \<and> fold ?g ys (cabs t) = fold ?g ?xs (cabs s)"
    for ys and t :: "'a log_state_scheme"
  let ?f = "\<lambda>tail s. bindo (bread (u32 (l_dev (klog s))) (u32 (l_start (klog s) + int tail + 1)) s) (\<lambda>(lbuf, s).
       bindo (bread (u32 (l_dev (klog s))) (lh_block (klog s) ! tail) s) (\<lambda>(dbuf, s).
       bindo (bwrite dbuf (set_bdata dbuf (bdata lbuf s) s)) (\<lambda>s.
       bindo (brelse lbuf (if r = 0 then bunpin dbuf s else s)) (\<lambda>s. brelse dbuf s))))"
  have "\<exists>s'. foldo ?f ?xs s = Ret s' \<and> I [] s'"
  proof (rule foldo_invariant[of I])
    show "I ?xs s" using inv sp pinned logged_nth[OF ok g] by (auto simp: I_def bstep_def)
    fix i ys t assume a: "I (i # ys) t"
    then have st: "bstep {} s t" and i: "i < nat (lh_n ?l)" and rt: "r = 0 \<Longrightarrow> 0 < cv_refs (cabs t) (logged ?l ! i)"
      and spt: "spare (tblocks ?l) ?k (cabs t)" by (auto simp: I_def)
    note n = logged_nth[OF ok g i]
    have kt: "klog t = ?l" by (rule klog_bstep[OF st])
    have ne: "lblk ?l i \<noteq> logged ?l ! i" using n(3,4) by metis
    have av: "avail (cabs t) (lblk ?l i)" "avail (cv_read (lblk ?l i) (cabs t)) (logged ?l ! i)"
      using spare_avail[OF spt] spare_avail_read[OF spt _ _ _ ne] n rt by auto
    from bcache.copy_from[OF bstepD(1)[OF st] av ne, of "r = 0"] rt obtain b s1 d s2 s3 s4 s5 where
      c: "bread ROOTDEV (lblk ?l i) t = Ret (b, s1)" "bstep {} t s1" "bread ROOTDEV (logged ?l ! i) s1 = Ret (d, s2)"
        "bwrite d (set_bdata d (bdata b s2) s2) = Ret s3"
        "brelse b (if r = 0 then bunpin d s3 else s3) = Ret s4" "brelse d s4 = Ret s5"
        "bstep {} t s5" "cabs s5 = ?g i (cabs t)" unfolding cv_install_one_def by blast
    have "?f i t = Ret s5"
      using c(1-6) n(1) kt klog_bstep[OF c(2)] g by (simp add: lblk_def geometry_def)
    moreover have "I ys s5"
    proof -
      have "0 < cv_refs (cabs s5) (logged ?l ! j)" if "r = 0" "j \<in> set ys" for j
      proof -
        have "logged ?l ! j \<noteq> logged ?l ! i"
          using that a pinned n(2,5) by (auto simp: I_def nth_eq_iff_index_eq)
        then show ?thesis using a that by (simp add: I_def c(8) cv_install_one_def cv_unpin_def)
      qed
      moreover have "spare (tblocks ?l) ?k (cabs s5)"
        using spt by (cases "r = 0") (simp_all add: c(8) cv_install_one_def spare_unpin)
      ultimately show ?thesis using a c(8) bstep_trans[OF st c(7)] by (simp add: I_def)
    qed
    ultimately show "\<exists>s'. ?f i t = Ret s' \<and> I ys s'" by blast
  qed
  then show ?thesis by (auto simp: install_trans_def I_def)
qed

section \<open>The header block\<close>

definition put_header :: "log \<Rightarrow> block \<Rightarrow> block" where
  "put_header l d = fold (\<lambda>i d. put32 d (4 + 4 * i) (lh_block l ! i)) [0..<nat (lh_n l)] (put32 d 0 (u32 (lh_n l)))"

definition hdr_n :: "block \<Rightarrow> int" where
  "hdr_n d = sint (get32 d 0)"

definition hdr_blocks :: "block \<Rightarrow> uint list" where
  "hdr_blocks d = map (\<lambda>i. get32 d (4 + 4 * i)) [0..<nat (hdr_n d)]"

lemma put_blocks:
  assumes "length d = BSIZE" "n \<le> LOGSIZE"
  shows "length (fold (\<lambda>i d. put32 d (4 + 4 * i) (bl ! i)) [0..<n] d) = BSIZE"
    "i < n \<Longrightarrow> get32 (fold (\<lambda>i d. put32 d (4 + 4 * i) (bl ! i)) [0..<n] d) (4 + 4 * i) = bl ! i"
    "get32 (fold (\<lambda>i d. put32 d (4 + 4 * i) (bl ! i)) [0..<n] d) 0 = get32 d 0"
proof -
  let ?F = "\<lambda>m. fold (\<lambda>i d. put32 d (4 + 4 * i) (bl ! i)) [0..<m] d"
  have "length (?F m) = BSIZE \<and> (\<forall>i < m. get32 (?F m) (4 + 4 * i) = bl ! i) \<and> get32 (?F m) 0 = get32 d 0"
    if "m \<le> n" for m
    using that
  proof (induction m)
    case 0
    then show ?case using assms(1) by simp
  next
    case (Suc m)
    then have IH: "length (?F m) = BSIZE" "\<And>i. i < m \<Longrightarrow> get32 (?F m) (4 + 4 * i) = bl ! i"
      "get32 (?F m) 0 = get32 d 0" by simp_all
    have F: "?F (Suc m) = put32 (?F m) (4 + 4 * m) (bl ! m)" by simp
    have len: "4 + 4 * m + 4 \<le> length (?F m)" using Suc.prems assms(2) IH(1) by simp
    have "get32 (?F (Suc m)) (4 + 4 * i) = bl ! i" if "i < Suc m" for i
    proof (cases "i = m")
      case True
      then show ?thesis unfolding F using get32_put32_same[OF len] by simp
    next
      case False
      then show ?thesis unfolding F using IH(2)[of i] that get32_put32_other[of "4 + 4 * m" "?F m" "4 + 4 * i"] len
        by simp
    qed
    moreover have "get32 (?F (Suc m)) 0 = get32 d 0"
      unfolding F using IH(3) get32_put32_other[of "4 + 4 * m" "?F m" 0] len by simp
    moreover have "length (?F (Suc m)) = BSIZE" unfolding F using len IH(1) by simp
    ultimately show ?case by blast
  qed
  from this[of n] show "length (?F n) = BSIZE" "i < n \<Longrightarrow> get32 (?F n) (4 + 4 * i) = bl ! i"
    "get32 (?F n) 0 = get32 d 0" by simp_all
qed

lemma put_header:
  assumes "length d = BSIZE" "0 \<le> lh_n l" "lh_n l \<le> int LOGSIZE" "length (lh_block l) = LOGSIZE"
  shows "length (put_header l d) = BSIZE" "hdr_n (put_header l d) = lh_n l"
    "hdr_blocks (put_header l d) = logged l"
proof -
  let ?n = "nat (lh_n l)" and ?d = "put32 d 0 (u32 (lh_n l))"
  have d: "length ?d = BSIZE" "?n \<le> LOGSIZE" using assms by simp_all
  note p = put_blocks[OF d, where bl = "lh_block l", folded put_header_def]
  show "length (put_header l d) = BSIZE" by (rule p(1))
  have "sint (u32 (lh_n l)) = lh_n l" using assms(2,3) by (simp add: sint_sbintrunc' signed_take_bit_int_eq_self)
  then show n: "hdr_n (put_header l d) = lh_n l"
    using p(3) assms(1) by (simp add: hdr_n_def get32_put32_same)
  show "hdr_blocks (put_header l d) = logged l"
    unfolding hdr_blocks_def n using p(2) assms by (intro nth_equalityI) (auto simp: logged_def)
qed

lemma write_head_refines:
  assumes inv: "cache_inv s" and g: "geometry (klog s)" and n: "0 \<le> lh_n (klog s)" "lh_n (klog s) \<le> int LOGSIZE"
    and sp: "spare R 1 (cabs s)" "log_region (klog s) \<subseteq> R"
  shows "\<exists>s'. write_head s = Ret s' \<and> bstep {} s s' \<and>
     cabs s' = cv_put (u32 (l_start (klog s))) (put_header (klog s) (view s (u32 (l_start (klog s))))) (cabs s)"
proof -
  let ?l = "klog s" and ?hb = "u32 (l_start (klog s))"
  have av: "avail (cabs s) ?hb" using spare_avail[OF sp(1)] sp(2) header_region[OF g] by auto
  have len: "length (put_header ?l (cv_data (cabs s) ?hb)) = BSIZE"
    using put_header(1) g n view_length[OF inv] by (simp add: geometry_def)
  from bcache.update[where f = "put_header ?l", OF inv av len] obtain b s1 s2 s3 where
    u: "bread ROOTDEV ?hb s = Ret (b, s1)" "bstep {} s s1"
      "bwrite b (set_bdata b (put_header ?l (bdata b s1)) s1) = Ret s2" "brelse b s2 = Ret s3" "bstep {} s s3"
      "cabs s3 = cv_put ?hb (put_header ?l (view s ?hb)) (cabs s)" by auto
  have "write_head s = Ret s3"
    using u(1,3,4) klog_bstep[OF u(2)] g n by (simp add: write_head_def geometry_def put_header_def Let_def)
  then show ?thesis using u(5,6) by blast
qed

lemma read_blocks:
  "length bl = LOGSIZE \<Longrightarrow> n \<le> LOGSIZE \<Longrightarrow>
   fold (\<lambda>i bl. bl[i := f i]) [0..<n] bl = map f [0..<n] @ drop n bl"
proof (induction n)
  case (Suc n)
  then have IH: "fold (\<lambda>i bl. bl[i := f i]) [0..<n] bl = map f [0..<n] @ drop n bl" and n: "n < length bl"
    by simp_all
  have "(map f [0..<n] @ drop n bl)[n := f n] = map f [0..<n] @ [f n] @ drop (Suc n) bl"
    using n by (simp add: list_update_append Cons_nth_drop_Suc[symmetric])
  then show ?case using IH by simp
qed simp

definition header_log :: "block \<Rightarrow> log \<Rightarrow> log" where
  "header_log d l = l\<lparr>lh_n := hdr_n d, lh_block := hdr_blocks d @ drop (nat (hdr_n d)) (lh_block l)\<rparr>"

lemma header_log_simps [simp]:
  "l_start (header_log d l) = l_start l" "l_size (header_log d l) = l_size l" "l_dev (header_log d l) = l_dev l"
  "lh_n (header_log d l) = hdr_n d" "logged (header_log d l) = hdr_blocks d"
  "log_region (header_log d l) = log_region l" "lblk (header_log d l) = lblk l"
  by (simp_all add: header_log_def logged_def hdr_blocks_def log_region_def lblk_def fun_eq_iff)

lemma geometry_header: "geometry l \<Longrightarrow> hdr_n d \<le> int LOGSIZE \<Longrightarrow> geometry (header_log d l)"
  by (simp add: geometry_def header_log_def hdr_blocks_def)

lemma read_head_refines:
  assumes inv: "cache_inv s" and g: "geometry (klog s)" and sp: "spare R 1 (cabs s)" "log_region (klog s) \<subseteq> R"
    and n: "hdr_n (view s (u32 (l_start (klog s)))) \<le> int LOGSIZE"
  shows "\<exists>s'. read_head s = Ret s' \<and> lstep (header_log (view s (u32 (l_start (klog s)))) (klog s)) s s' \<and>
     cabs s' = cabs s"
proof -
  let ?l = "klog s" and ?hb = "u32 (l_start (klog s))" and ?d = "view s (u32 (l_start (klog s)))"
  have av: "avail (cabs s) ?hb" using spare_avail[OF sp(1)] sp(2) header_region[OF g] by auto
  from bcache.rd_law[OF inv av] obtain b s1 where
    r: "bread ROOTDEV ?hb s = Ret (b, s1)" "bstep {} s s1" "handle s1 b ?hb" "cabs s1 = cv_read ?hb (cabs s)"
    by blast
  have i1: "cache_inv s1" by (rule bstepD(1)[OF r(2)])
  have k1: "klog s1 = ?l" by (rule klog_bstep[OF r(2)])
  have v1: "view s1 = view s" using arg_cong[OF r(4), of cv_data] by (simp add: cv_read_def)
  have d: "bdata b s1 = ?d" using handle_views(5)[OF i1 r(3)] v1 by simp
  let ?s1 = "upd_log (header_log ?d) s1"
  have "cv_refs (cabs s1) ?hb = 1 \<longrightarrow> cv_data (cabs s1) ?hb = cv_disk (cabs s1) ?hb"
    using bcache.clean[OF inv, of ?hb] by (simp only: r(4)) (simp add: cv_read_def)
  then obtain s2 where s2: "brelse b ?s1 = Ret s2" "bstep {?hb} ?s1 s2" "cabs s2 = cv_release ?hb (cabs s1)"
    using bcache.rel_law[of ?s1 b ?hb] i1 r(3) by auto
  have "bstep {?hb} (upd_log (\<lambda>_. header_log ?d ?l) s) s2"
    using bstep_trans[OF bstep_upd_log[OF r(2), of "header_log ?d ?l"]] s2(2) k1 by (simp add: upd_log_def)
  then have "lstep (header_log ?d ?l) s s2"
    using bcache.step_unlocked[of "upd_log (\<lambda>_. header_log ?d ?l) s" "{?hb}" s2] inv av
    by (auto simp: lstep_def avail_def)
  moreover have "cabs s2 = cabs s" using s2(3) r(4) av by (simp add: cv_release_read avail_def)
  moreover have "read_head s = Ret s2"
    using r(1) s2(1) d g n k1 read_blocks[of "lh_block ?l" "nat (hdr_n ?d)" "\<lambda>i. get32 ?d (4 + 4 * i)"]
    by (simp add: read_head_def geometry_def Let_def hdr_n_def header_log_def hdr_blocks_def upd_log_def)
  ultimately show ?thesis by blast
qed

section \<open>Sequences of disk writes\<close>

definition apply_writes :: "(uint \<times> block) list \<Rightarrow> (uint \<Rightarrow> block) \<Rightarrow> uint \<Rightarrow> block" where
  "apply_writes ws D = fold (\<lambda>(b, d) D. D(b := d)) ws D"

lemma apply_writes_simps [simp]:
  "apply_writes [] D = D" "apply_writes ((b, d) # ws) D = apply_writes ws (D(b := d))"
  "apply_writes (xs @ ys) D = apply_writes ys (apply_writes xs D)"
  by (simp_all add: apply_writes_def)

lemma apply_writes_other: "x \<notin> fst ` set ws \<Longrightarrow> apply_writes ws D x = D x"
  by (induction ws arbitrary: D) auto

lemma apply_writes_cong: "x \<in> fst ` set ws \<or> D x = D' x \<Longrightarrow> apply_writes ws D x = apply_writes ws D' x"
proof (induction ws arbitrary: D D')
  case (Cons w ws)
  obtain b d where w: "w = (b, d)" by (cases w)
  have "x \<in> fst ` set ws \<or> (D(b := d)) x = (D'(b := d)) x" using Cons.prems w by auto
  then show ?case using Cons.IH w by simp
qed simp

lemma apply_writes_const:
  "(\<And>b d. (b, d) \<in> set ws \<Longrightarrow> d = f b) \<Longrightarrow> x \<in> fst ` set ws \<Longrightarrow> apply_writes ws D x = f x"
proof (induction ws arbitrary: D)
  case (Cons w ws)
  obtain b d where w: "w = (b, d)" by (cases w)
  show ?case
  proof (cases "x \<in> fst ` set ws")
    case True
    then show ?thesis using Cons w by auto
  next
    case False
    then have "x = b" using Cons.prems(2) w by auto
    then show ?thesis using False Cons.prems(1)[of b d] w by (simp add: apply_writes_other)
  qed
qed simp

definition cv_puts :: "(uint \<times> block) list \<Rightarrow> cview \<Rightarrow> cview" where
  "cv_puts ws v = v\<lparr>cv_data := apply_writes ws (cv_data v), cv_disk := apply_writes ws (cv_disk v),
                    cv_writes := cv_writes v @ ws\<rparr>"

lemma cv_puts_simps [simp]:
  "cv_puts [] v = v" "cv_puts ((b, d) # ws) v = cv_puts ws (cv_put b d v)"
  "cv_puts (xs @ ys) v = cv_puts ys (cv_puts xs v)"
  "cv_data (cv_puts ws v) = apply_writes ws (cv_data v)" "cv_disk (cv_puts ws v) = apply_writes ws (cv_disk v)"
  "cv_writes (cv_puts ws v) = cv_writes v @ ws" "cv_refs (cv_puts ws v) = cv_refs v"
  "cv_locked (cv_puts ws v) = cv_locked v"
  by (simp_all add: cv_puts_def cv_put_def)

lemma spare_puts [simp]: "spare R k (cv_puts ws v) = spare R k v"
  by (simp add: spare_def)

lemma cv_put_puts: "cv_put b d v = cv_puts [(b, d)] v"
  by simp

lemma fold_log_one:
  assumes "homes_ok l" "geometry l" "set is \<subseteq> {..<nat (lh_n l)}"
  shows "fold (cv_log_one l) is v = cv_puts (map (\<lambda>i. (lblk l i, cv_data v (logged l ! i))) is) v"
  using assms(3)
proof (induction "is" arbitrary: v)
  case (Cons i js)
  have ne: "logged l ! j \<noteq> lblk l i" if "j \<in> set js" for j
    using logged_nth(3)[OF assms(1,2), of j] logged_nth(4)[OF assms(1,2), of i] Cons.prems that by auto
  have "fold (cv_log_one l) js (cv_log_one l i v) =
      cv_puts (map (\<lambda>j. (lblk l j, cv_data (cv_log_one l i v) (logged l ! j))) js) (cv_log_one l i v)"
    using Cons by simp
  also have "map (\<lambda>j. (lblk l j, cv_data (cv_log_one l i v) (logged l ! j))) js =
      map (\<lambda>j. (lblk l j, cv_data v (logged l ! j))) js"
    using ne by (simp add: cv_log_one_def)
  finally show ?case by (simp add: cv_log_one_def)
qed simp

lemma cv_put_unpin: "cv_put b d (cv_unpin x v) = cv_unpin x (cv_put b d v)"
  by (simp add: cv_unpin_def cv_put_def)

lemma cv_puts_unpin: "cv_puts ws (cv_unpin x v) = cv_unpin x (cv_puts ws v)"
  by (simp add: cv_puts_def cv_unpin_def)

lemma fold_install_one:
  assumes "homes_ok l" "geometry l" "set is \<subseteq> {..<nat (lh_n l)}"
  shows "fold (cv_install_one u l) is v =
    (if u then fold cv_unpin (map (nth (logged l)) is) else id)
      (cv_puts (map (\<lambda>i. (logged l ! i, cv_data v (lblk l i))) is) v)"
  using assms(3)
proof (induction "is" arbitrary: v)
  case (Cons i js)
  let ?v = "cv_install_one u l i v"
  have ne: "lblk l j \<noteq> logged l ! i" if "j \<in> set js" for j
    using logged_nth(3)[OF assms(1,2), of i] logged_nth(4)[OF assms(1,2), of j] Cons.prems that by auto
  have d: "cv_data ?v x = cv_data v x" if "x \<noteq> logged l ! i" for x
    using that by (simp add: cv_install_one_def cv_unpin_def)
  have m: "map (\<lambda>j. (logged l ! j, cv_data ?v (lblk l j))) js = map (\<lambda>j. (logged l ! j, cv_data v (lblk l j))) js"
    using ne d by simp
  have "fold (cv_install_one u l) (i # js) v = (if u then fold cv_unpin (map (nth (logged l)) js) else id)
      (cv_puts (map (\<lambda>j. (logged l ! j, cv_data v (lblk l j))) js) ?v)"
    using Cons.IH[of ?v] Cons.prems unfolding m by simp
  also have "\<dots> = (if u then fold cv_unpin (map (nth (logged l)) (i # js)) else id)
      (cv_puts (map (\<lambda>j. (logged l ! j, cv_data v (lblk l j))) (i # js)) v)"
    by (cases u) (simp_all add: cv_install_one_def cv_puts_unpin)
  finally show ?case .
qed (simp add: fun_eq_iff)

text \<open>Unpinning every block of a transaction.\<close>

lemma fold_unpin [simp]:
  "cv_data (fold cv_unpin xs v) = cv_data v" "cv_disk (fold cv_unpin xs v) = cv_disk v"
  "cv_writes (fold cv_unpin xs v) = cv_writes v" "cv_locked (fold cv_unpin xs v) = cv_locked v"
  by (induction xs arbitrary: v) (simp_all add: cv_unpin_def)

lemma fold_unpin_refs:
  "distinct xs \<Longrightarrow> cv_refs (fold cv_unpin xs v) x = cv_refs v x - (if x \<in> set xs then 1 else 0)"
  by (induction xs arbitrary: v) (auto simp: cv_unpin_def)

lemma cv_puts_unpins: "cv_puts ws (fold cv_unpin xs v) = fold cv_unpin xs (cv_puts ws v)"
  by (induction xs arbitrary: v) (simp_all add: cv_puts_unpin)

lemma spare_unpins: "spare R k v \<Longrightarrow> spare R k (fold cv_unpin xs v)"
  by (induction xs arbitrary: v) (simp_all add: spare_unpin)

end
