(* ===== verification/Fslog_Txn.thy ===== *)
theory Fslog_Txn
  imports Fslog
begin

text \<open>
  Transactions from the point of view of the file system: what \<open>begin_op\<close>, \<open>log_write\<close> and the
  release of a logged buffer do to the set of logged blocks, and the space reservation that
  \<open>begin_op\<close> makes. \<open>log_inv\<close> is the invariant of the log between these calls.
\<close>

section \<open>The invariant of the log\<close>

definition log_inv :: "'a log_state_scheme \<Rightarrow> bool" where
  "log_inv s \<longleftrightarrow>
     cache_inv s \<and> geometry (klog s) \<and> homes_ok (klog s) \<and> 0 \<le> lh_n (klog s) \<and> distinct (logged (klog s)) \<and>
     (\<forall>x \<in> set (logged (klog s)). 0 < refs s x)"

text \<open>
  A transaction that can be committed: its blocks are distinct, lie outside the log and are pinned,
  and the cache has room for one more block.
\<close>

definition txn_ready :: "'a log_state_scheme \<Rightarrow> bool" where
  "txn_ready s \<longleftrightarrow> log_inv s \<and> spare (tblocks (klog s)) 1 (cabs s)"

definition log_room :: "log \<Rightarrow> bool" where
  "log_room l \<longleftrightarrow> lh_n l < int LOGSIZE \<and> lh_n l < l_size l - 1 \<and> 1 \<le> l_outstanding l"

lemma logged_length: "geometry l \<Longrightarrow> homes_ok l \<Longrightarrow> length (logged l) = nat (lh_n l)"
  by (auto simp: logged_def geometry_def homes_ok_def)

lemma log_slot_new:
  assumes "geometry l" "homes_ok l" "bn \<notin> set (logged l)"
  shows "log_slot l bn = nat (lh_n l)"
proof -
  have "takeWhile (\<lambda>x. x \<noteq> bn) (logged l) = logged l"
    using assms(3) by (intro takeWhile_eq_all_conv[THEN iffD2]) auto
  then show ?thesis using logged_length[OF assms(1,2)] unfolding log_slot_def logged_def by metis
qed

lemma log_slot_old:
  assumes "geometry l" "homes_ok l" "bn \<in> set (logged l)"
  shows "log_slot l bn < nat (lh_n l)" "lh_block l ! log_slot l bn = bn"
proof -
  let ?i = "length (takeWhile (\<lambda>x. x \<noteq> bn) (logged l))"
  have "takeWhile (\<lambda>x. x \<noteq> bn) (logged l) \<noteq> logged l" using assms(3) by (auto simp: takeWhile_eq_all_conv)
  then have i: "?i < length (logged l)"
    using length_takeWhile_le[of "\<lambda>x. x \<noteq> bn" "logged l"] takeWhile_eq_take[of "\<lambda>x. x \<noteq> bn" "logged l"]
    by (metis le_neq_implies_less take_all order_refl)
  have "logged l ! ?i = bn" using nth_length_takeWhile[OF i] by simp
  then show "log_slot l bn < nat (lh_n l)" "lh_block l ! log_slot l bn = bn"
    using i logged_length[OF assms(1,2)] by (simp_all add: log_slot_def logged_def)
qed

lemma logged_upd_other [simp]:
  "logged (l\<lparr>l_outstanding := n\<rparr>) = logged l" "geometry (l\<lparr>l_outstanding := n\<rparr>) = geometry l"
  "log_region (l\<lparr>l_outstanding := n\<rparr>) = log_region l" "homes_ok (l\<lparr>l_outstanding := n\<rparr>) = homes_ok l"
  by (simp_all add: logged_def geometry_def log_region_def homes_ok_def)

definition log_add :: "uint \<Rightarrow> log \<Rightarrow> log" where
  "log_add bn l = l\<lparr>lh_block := (lh_block l)[nat (lh_n l) := bn], lh_n := lh_n l + 1\<rparr>"

lemma log_add_facts:
  assumes "geometry l" "homes_ok l" "0 \<le> lh_n l" "log_room l"
  shows "logged (log_add bn l) = logged l @ [bn]" "geometry (log_add bn l)"
    "log_region (log_add bn l) = log_region l" "lh_n (log_add bn l) = lh_n l + 1"
    "bn \<notin> log_region l \<Longrightarrow> homes_ok (log_add bn l)"
proof -
  have n: "nat (lh_n l) < length (lh_block l)" "nat (lh_n l + 1) = Suc (nat (lh_n l))"
    using assms by (auto simp: geometry_def log_room_def)
  show lg: "logged (log_add bn l) = logged l @ [bn]"
    using n by (simp add: logged_def log_add_def take_Suc_conv_app_nth)
  show "geometry (log_add bn l)" using assms(1) by (simp add: geometry_def log_add_def)
  show r: "log_region (log_add bn l) = log_region l" by (simp add: log_region_def log_add_def)
  show "lh_n (log_add bn l) = lh_n l + 1" by (simp add: log_add_def)
  show "homes_ok (log_add bn l)" if "bn \<notin> log_region l"
    using assms that lg r by (auto simp: homes_ok_def log_room_def) (simp_all add: log_add_def)
qed

text \<open>
  \<open>log_write\<close> on a held buffer: an already logged block is absorbed, any other is appended to the
  list and pinned.
\<close>

lemma log_write_refines:
  assumes inv: "log_inv s" and h: "handle s b bn" and room: "log_room (klog s)"
    and off: "bn \<notin> log_region (klog s)" and small: "refs s bn < 2 ^ 32 - 1"
  shows "\<exists>s'. log_write b s = Ret s' \<and> log_inv s' \<and>
     lstep (if bn \<in> set (logged (klog s)) then klog s else log_add bn (klog s)) s s' \<and>
     cabs s' = (if bn \<in> set (logged (klog s)) then cabs s else cv_pin bn (cabs s)) \<and>
     (\<forall>b x. handle s b x \<longrightarrow> handle s' b x)"
proof -
  let ?l = "klog s"
  have c: "cache_inv s" and g: "geometry ?l" and ok: "homes_ok ?l" and n: "0 \<le> lh_n ?l"
    and d: "distinct (logged ?l)" and p: "\<forall>x \<in> set (logged ?l). 0 < refs s x"
    using inv by (auto simp: log_inv_def)
  have bn: "b_blockno (bcache s ! b) = bn" by (rule handle_views(4)[OF c h])
  show ?thesis
  proof (cases "bn \<in> set (logged ?l)")
    case True
    note sl = log_slot_old[OF g ok True]
    have "(lh_block ?l)[log_slot ?l bn := bn] = lh_block ?l" using sl(2) by (metis list_update_id)
    then have "upd_log (\<lambda>l. l\<lparr>lh_block := (lh_block l)[log_slot ?l bn := bn]\<rparr>) s = s"
      by (simp add: upd_log_def)
    then have "log_write b s = Ret s"
      using room bn sl(1) n by (auto simp: log_write_def log_room_def Let_def)
    moreover have "lstep ?l s s" by (rule lstep_bstep) (simp add: bstep_def c)
    ultimately show ?thesis using inv True by auto
  next
    case False
    note a = log_add_facts[OF g ok n room]
    have sl: "log_slot ?l bn = nat (lh_n ?l)" by (rule log_slot_new[OF g ok False])
    note pin = bpin_refines[OF c h small]
    let ?s' = "upd_log (\<lambda>_. log_add bn ?l) (bpin b s)"
    have k: "klog (bpin b s) = ?l" by (rule bio_frame_klog[OF bstepD(2)[OF pin(1)]])
    have comm: "bpin b (upd_log f s) = upd_log f (bpin b s)" for f
      by (simp add: bpin_def upd_buf_def upd_log_def)
    have "log_write b s = Ret ?s'"
      using room bn sl n k
      by (simp add: log_write_def log_room_def Let_def comm) (simp add: upd_log_def log_add_def)
    moreover have st: "lstep (log_add bn ?l) s ?s'"
      using bstep_upd_log[OF pin(1)] by (simp add: lstep_def)
    moreover have "log_inv ?s'"
    proof -
      have "refs (bpin b s) = (refs s)(bn := refs s bn + 1)"
        using arg_cong[OF pin(2), of cv_refs] by (simp add: cv_pin_def)
      then show ?thesis using lstep_inv[OF st] a d p off n False by (auto simp: log_inv_def)
    qed
    moreover have "handle ?s' b x" if "handle s b x" for b x
      using bstepD(3)[OF pin(1) that] by simp
    ultimately show ?thesis using False pin(2) by (auto simp: cv_pin_def)
  qed
qed

section \<open>A transaction in progress\<close>

text \<open>
  \<open>txn H k s\<close>: the caller runs inside a transaction, holds exactly the buffers of the blocks \<open>H\<close>,
  and \<open>k\<close> more blocks can be logged. The only references to blocks are the pins of the log and
  the buffers of \<open>H\<close>.
\<close>

definition txn :: "uint set \<Rightarrow> nat \<Rightarrow> 'a log_state_scheme \<Rightarrow> bool" where
  "txn H k s \<longleftrightarrow> log_inv s \<and> blocked s = (\<lambda>x. x \<in> H) \<and>
     refs s = (\<lambda>x. of_bool (x \<in> set (logged (klog s))) + of_bool (x \<in> H)) \<and>
     1 \<le> l_outstanding (klog s) \<and> lh_n (klog s) + int k \<le> int LOGSIZE \<and>
     lh_n (klog s) + int k \<le> l_size (klog s) - 1 \<and> l_size (klog s) \<le> int NBUF"

text \<open>What a step inside a transaction leaves alone: the disk, and all of the log but its block list.\<close>

definition txn_step :: "uint set \<Rightarrow> 'a log_state_scheme \<Rightarrow> 'a log_state_scheme \<Rightarrow> bool" where
  "txn_step X s s' \<longleftrightarrow> bstep X (upd_log (\<lambda>_. klog s') s) s' \<and> disk s' = disk s \<and> dwrites s' = dwrites s \<and>
     l_start (klog s') = l_start (klog s) \<and> l_size (klog s') = l_size (klog s) \<and>
     l_outstanding (klog s') = l_outstanding (klog s) \<and> l_committing (klog s') = l_committing (klog s) \<and>
     set (logged (klog s)) \<subseteq> set (logged (klog s'))"

lemma bstep_upd_log_any: "bstep X s s' \<Longrightarrow> bstep X (upd_log (\<lambda>_. l) s) (upd_log (\<lambda>_. l) s')"
  by (simp add: bstep_def bio_frame_upd_log)

lemma txn_step_trans: "txn_step X s t \<Longrightarrow> txn_step Y t u \<Longrightarrow> txn_step (X \<union> Y) s u"
  using bstep_trans[of X "upd_log (\<lambda>_. klog u) s" "upd_log (\<lambda>_. klog u) t" Y u]
    bstep_upd_log_any[of X "upd_log (\<lambda>_. klog t) s" t "klog u"]
  by (auto simp: txn_step_def)

lemma txn_step_refl: "cache_inv s \<Longrightarrow> txn_step {} s s"
proof -
  assume c: "cache_inv s"
  have "upd_log (\<lambda>_. klog s) s = s" by (simp add: upd_log_def)
  then show ?thesis using c by (simp add: txn_step_def bstep_def)
qed

lemma txn_step_handle: "txn_step X s s' \<Longrightarrow> handle s b bn \<Longrightarrow> bn \<notin> X \<Longrightarrow> handle s' b bn"
  by (auto simp: txn_step_def bstep_def)

lemma txn_step_region: "txn_step X s s' \<Longrightarrow> log_region (klog s') = log_region (klog s)"
  by (simp add: txn_step_def log_region_def)

lemma txn_step_bstep:
  assumes st: "bstep X s s'" and d: "disk s' = disk s" "dwrites s' = dwrites s"
  shows "txn_step X s s'"
proof -
  have k: "klog s' = klog s" by (rule bio_frame_klog[OF bstepD(2)[OF st]])
  have "upd_log (\<lambda>_. klog s) s = s" by (simp add: upd_log_def)
  then show ?thesis using assms k by (simp add: txn_step_def)
qed

lemma txn_refs_card:
  assumes "txn H k s"
  shows "card {x. 0 < refs s x} \<le> nat (lh_n (klog s)) + card H"
proof -
  let ?l = "klog s"
  have l: "length (logged ?l) = nat (lh_n ?l)"
    using assms by (intro logged_length) (auto simp: txn_def log_inv_def)
  have "{x. 0 < refs s x} = set (logged ?l) \<union> H" using assms by (auto simp: txn_def)
  then have "card {x. 0 < refs s x} \<le> card (set (logged ?l)) + card H" by (simp add: card_Un_le)
  also have "card (set (logged ?l)) \<le> nat (lh_n ?l)" using card_length[of "logged ?l"] l by simp
  finally show ?thesis by simp
qed

lemma txn_avail: "txn H k s \<Longrightarrow> bn \<notin> H \<Longrightarrow> card H \<le> k \<Longrightarrow> avail (cabs s) bn"
  using txn_refs_card[of H k s] by (auto simp: avail_def txn_def log_inv_def)

lemma txn_bread:
  assumes t: "txn H k s" and bn: "bn \<notin> H" and room: "card H \<le> k"
  shows "\<exists>b s'. bread ROOTDEV bn s = Ret (b, s') \<and> txn (insert bn H) k s' \<and> handle s' b bn \<and>
     view s' = view s \<and> txn_step {} s s' \<and> klog s' = klog s"
proof -
  have inv: "cache_inv s" using t by (simp add: txn_def log_inv_def)
  from bcache.rd_law[OF inv txn_avail[OF t bn room]] obtain b s' where
    r: "bread ROOTDEV bn s = Ret (b, s')" "bstep {} s s'" "handle s' b bn" "cabs s' = cv_read bn (cabs s)" by blast
  note f = arg_cong[OF r(4), of cv_data] arg_cong[OF r(4), of cv_refs] arg_cong[OF r(4), of cv_locked]
    arg_cong[OF r(4), of cv_disk] arg_cong[OF r(4), of cv_writes]
  have k: "klog s' = klog s" by (rule bio_frame_klog[OF bstepD(2)[OF r(2)]])
  have "txn (insert bn H) k s'"
    using t bn f k bstepD(1)[OF r(2)]
    by (auto simp: txn_def log_inv_def cv_read_def fun_eq_iff)
  then show ?thesis using r(1,3) f k txn_step_bstep[OF r(2)] by (auto simp: cv_read_def)
qed

lemma txn_brelse:
  assumes t: "txn H k s" and h: "handle s b bn" and cl: "bn \<in> set (logged (klog s)) \<or> view s bn = disk s bn"
  shows "\<exists>s'. brelse b s = Ret s' \<and> txn (H - {bn}) k s' \<and> view s' = view s \<and> txn_step {bn} s s' \<and>
     klog s' = klog s"
proof -
  have inv: "cache_inv s" using t by (simp add: txn_def log_inv_def)
  have bnH: "bn \<in> H" using handle_views(8)[OF inv h] t by (simp add: txn_def)
  have "refs s bn = 1 \<longrightarrow> view s bn = disk s bn" using cl t bnH by (auto simp: txn_def)
  then obtain s' where r: "brelse b s = Ret s'" "bstep {bn} s s'" "cabs s' = cv_release bn (cabs s)"
    using brelse_refines[OF inv h] by blast
  note f = arg_cong[OF r(3), of cv_data] arg_cong[OF r(3), of cv_refs] arg_cong[OF r(3), of cv_locked]
    arg_cong[OF r(3), of cv_disk] arg_cong[OF r(3), of cv_writes]
  have k: "klog s' = klog s" by (rule bio_frame_klog[OF bstepD(2)[OF r(2)]])
  have "txn (H - {bn}) k s'"
    using t f k bnH bstepD(1)[OF r(2)] by (auto simp: txn_def log_inv_def cv_release_def fun_eq_iff)
  then show ?thesis using r(1) f k txn_step_bstep[OF r(2)] by (auto simp: cv_release_def)
qed

lemma txn_set_bdata:
  assumes t: "txn H k s" and h: "handle s b bn" and d: "length d = BSIZE"
  shows "txn H k (set_bdata b d s)" "view (set_bdata b d s) = (view s)(bn := d)"
    "txn_step {} s (set_bdata b d s)" "handle (set_bdata b d s) b bn" "klog (set_bdata b d s) = klog s"
proof -
  have inv: "cache_inv s" using t by (simp add: txn_def log_inv_def)
  note r = set_bdata_refines[OF inv h d]
  note f = arg_cong[OF r(2), of cv_data] arg_cong[OF r(2), of cv_refs] arg_cong[OF r(2), of cv_locked]
    arg_cong[OF r(2), of cv_disk] arg_cong[OF r(2), of cv_writes]
  show k: "klog (set_bdata b d s) = klog s" by (rule bio_frame_klog[OF bstepD(2)[OF r(1)]])
  show "txn H k (set_bdata b d s)"
    using t f k bstepD(1)[OF r(1)] by (auto simp: txn_def log_inv_def cv_set_def)
  show "view (set_bdata b d s) = (view s)(bn := d)" using f by (simp add: cv_set_def)
  show st: "txn_step {} s (set_bdata b d s)" using f by (intro txn_step_bstep[OF r(1)]) (simp_all add: cv_set_def)
  show "handle (set_bdata b d s) b bn" using txn_step_handle[OF st h] by simp
qed

lemma txn_log_write:
  assumes t: "txn H (Suc k) s" and h: "handle s b bn" and off: "bn \<notin> log_region (klog s)"
  shows "\<exists>s'. log_write b s = Ret s' \<and> txn H (if bn \<in> set (logged (klog s)) then Suc k else k) s' \<and>
     view s' = view s \<and> txn_step {} s s' \<and> set (logged (klog s')) = insert bn (set (logged (klog s)))"
proof -
  let ?l = "klog s" and ?in = "bn \<in> set (logged (klog s))"
  have inv: "log_inv s" and room: "log_room ?l" and small: "refs s bn < 2 ^ 32 - 1"
    and g: "geometry ?l" and ok: "homes_ok ?l" and n: "0 \<le> lh_n ?l"
    using t by (auto simp: txn_def log_room_def log_inv_def)
  note a = log_add_facts[OF g ok n room, of bn]
  from log_write_refines[OF inv h room off small] obtain s' where
    r: "log_write b s = Ret s'" "log_inv s'" "lstep (if ?in then ?l else log_add bn ?l) s s'"
      "cabs s' = (if ?in then cabs s else cv_pin bn (cabs s))" by blast
  have k: "klog s' = (if ?in then ?l else log_add bn ?l)" by (rule lstep_klog[OF r(3)])
  note f = arg_cong[OF r(4), of cv_data] arg_cong[OF r(4), of cv_refs] arg_cong[OF r(4), of cv_locked]
    arg_cong[OF r(4), of cv_disk] arg_cong[OF r(4), of cv_writes]
  have ad: "l_outstanding (log_add bn ?l) = l_outstanding ?l" "l_size (log_add bn ?l) = l_size ?l"
    "l_start (log_add bn ?l) = l_start ?l" "l_committing (log_add bn ?l) = l_committing ?l"
    by (simp_all add: log_add_def)
  have "txn H (if ?in then Suc k else k) s'"
    using t r(2) f k a ad n by (auto simp: txn_def cv_pin_def fun_eq_iff)
  moreover have "txn_step {} s s'"
    using r(3) f k a ad by (auto simp: txn_step_def lstep_def cv_pin_def)
  ultimately show ?thesis using r(1) f k a by (auto simp: cv_pin_def)
qed

section \<open>The interface of transactions\<close>

text \<open>
  What the file system relies on. \<open>T H k s\<close> is the state of a transaction that holds the blocks
  \<open>H\<close> and may log \<open>k\<close> more; \<open>vw\<close> is the contents of the blocks as the transaction sees them.
\<close>

locale txn_store =
  fixes rd :: "uint \<Rightarrow> 's \<Rightarrow> (nat \<times> 's) outcome"
    and dat :: "nat \<Rightarrow> 's \<Rightarrow> block"
    and put :: "nat \<Rightarrow> block \<Rightarrow> 's \<Rightarrow> 's"
    and lw rel :: "nat \<Rightarrow> 's \<Rightarrow> 's outcome"
    and T :: "uint set \<Rightarrow> nat \<Rightarrow> 's \<Rightarrow> bool"
    and vw :: "'s \<Rightarrow> uint \<Rightarrow> block" and hnd :: "'s \<Rightarrow> nat \<Rightarrow> uint \<Rightarrow> bool"
    and reg lgd :: "'s \<Rightarrow> uint set" and step :: "uint set \<Rightarrow> 's \<Rightarrow> 's \<Rightarrow> bool"
    and clean :: "'s \<Rightarrow> uint \<Rightarrow> bool"
  assumes step_trans: "step X s t \<Longrightarrow> step Y t u \<Longrightarrow> step (X \<union> Y) s u"
    and step_hnd: "step X s s' \<Longrightarrow> hnd s b bn \<Longrightarrow> bn \<notin> X \<Longrightarrow> hnd s' b bn"
    and step_reg: "step X s s' \<Longrightarrow> reg s' = reg s"
    and step_free: "T H k s \<Longrightarrow> step X s s' \<Longrightarrow> X \<inter> H = {} \<Longrightarrow> step {} s s'"
    and T_hnd: "T H k s \<Longrightarrow> hnd s b bn \<Longrightarrow> dat b s = vw s bn"
    and T_len: "T H k s \<Longrightarrow> length (vw s bn) = BSIZE"
    and T_less: "T H k s \<Longrightarrow> j \<le> k \<Longrightarrow> T H j s"
    and T_clean: "T H k s \<Longrightarrow> bn \<notin> H \<Longrightarrow> bn \<in> lgd s \<or> clean s bn"
    and rd_law: "T H k s \<Longrightarrow> bn \<notin> H \<Longrightarrow> card H \<le> k \<Longrightarrow>
      \<exists>b s'. rd bn s = Ret (b, s') \<and> T (insert bn H) k s' \<and> hnd s' b bn \<and> vw s' = vw s \<and> step {} s s' \<and>
        lgd s' = lgd s \<and> clean s' = clean s"
    and put_law: "T H k s \<Longrightarrow> hnd s b bn \<Longrightarrow> length d = BSIZE \<Longrightarrow>
      T H k (put b d s) \<and> vw (put b d s) = (vw s)(bn := d) \<and> step {} s (put b d s) \<and> lgd (put b d s) = lgd s"
    and lw_law: "T H (Suc k) s \<Longrightarrow> hnd s b bn \<Longrightarrow> bn \<notin> reg s \<Longrightarrow>
      \<exists>s'. lw b s = Ret s' \<and> T H (if bn \<in> lgd s then Suc k else k) s' \<and> vw s' = vw s \<and> step {} s s' \<and>
        lgd s' = insert bn (lgd s)"
    and rel_law: "T H k s \<Longrightarrow> hnd s b bn \<Longrightarrow> bn \<in> lgd s \<or> clean s bn \<Longrightarrow>
      \<exists>s'. rel b s = Ret s' \<and> T (H - {bn}) k s' \<and> vw s' = vw s \<and> step {bn} s s' \<and> lgd s' = lgd s"
begin

text \<open>Reading a block and releasing it.\<close>

lemma peek:
  assumes "T H k s" "bn \<notin> H" "card H \<le> k"
  shows "\<exists>b s1 s2. rd bn s = Ret (b, s1) \<and> dat b s1 = vw s bn \<and> vw s1 = vw s \<and> step {} s s1 \<and>
     rel b s1 = Ret s2 \<and> T H k s2 \<and> vw s2 = vw s \<and> step {} s s2 \<and> lgd s2 = lgd s"
proof -
  from rd_law[OF assms] obtain b s1 where r: "rd bn s = Ret (b, s1)" "T (insert bn H) k s1" "hnd s1 b bn"
    "vw s1 = vw s" "step {} s s1" "lgd s1 = lgd s" "clean s1 = clean s" by blast
  have "bn \<in> lgd s1 \<or> clean s1 bn" using T_clean[OF assms(1,2)] r by simp
  from rel_law[OF r(2,3) this] obtain s2 where s2: "rel b s1 = Ret s2" "T (insert bn H - {bn}) k s2"
    "vw s2 = vw s1" "step {bn} s1 s2" "lgd s2 = lgd s1" by blast
  have "step {bn} s s2" using step_trans[OF r(5) s2(4)] by simp
  then have "step {} s s2" using step_free[OF assms(1)] assms(2) by blast
  then show ?thesis using r s2 T_hnd[OF r(2,3)] assms(2) by auto
qed

text \<open>The use of \<open>log_write\<close> that \<^verbatim>\<open>log.c\<close> describes: read, modify, \<open>log_write\<close>, release.\<close>

lemma modify:
  assumes T: "T H (Suc k) s" and bn: "bn \<notin> H" "bn \<notin> reg s" and c: "card H \<le> Suc k"
    and len: "length (f (vw s bn)) = BSIZE"
  shows "\<exists>b s1 s2 s3. rd bn s = Ret (b, s1) \<and> dat b s1 = vw s bn \<and> vw s1 = vw s \<and> step {} s s1 \<and>
     lw b (put b (f (dat b s1)) s1) = Ret s2 \<and> rel b s2 = Ret s3 \<and>
     T H (if bn \<in> lgd s then Suc k else k) s3 \<and> vw s3 = (vw s)(bn := f (vw s bn)) \<and> step {} s s3 \<and>
     lgd s3 = insert bn (lgd s)"
proof -
  from rd_law[OF T bn(1) c] obtain b s1 where r: "rd bn s = Ret (b, s1)" "T (insert bn H) (Suc k) s1" "hnd s1 b bn"
    "vw s1 = vw s" "step {} s s1" "lgd s1 = lgd s" "clean s1 = clean s" by blast
  note d = T_hnd[OF r(2,3)]
  let ?t = "put b (f (dat b s1)) s1"
  have p: "T (insert bn H) (Suc k) ?t" "vw ?t = (vw s)(bn := f (vw s bn))" "step {} s1 ?t" "lgd ?t = lgd s1"
    using put_law[OF r(2,3), of "f (dat b s1)"] len d r(4) by simp_all
  have h: "hnd ?t b bn" using step_hnd[OF p(3) r(3)] by simp
  have "bn \<notin> reg ?t" using bn(2) step_reg[OF r(5)] step_reg[OF p(3)] by simp
  from lw_law[OF p(1) h this] obtain s2 where s2: "lw b ?t = Ret s2"
    "T (insert bn H) (if bn \<in> lgd ?t then Suc k else k) s2" "vw s2 = vw ?t" "step {} ?t s2"
    "lgd s2 = insert bn (lgd ?t)" by blast
  have h2: "hnd s2 b bn" using step_hnd[OF s2(4) h] by simp
  from rel_law[OF s2(2) h2] s2(5) obtain s3 where s3: "rel b s2 = Ret s3"
    "T (insert bn H - {bn}) (if bn \<in> lgd ?t then Suc k else k) s3" "vw s3 = vw s2" "step {bn} s2 s3"
    "lgd s3 = lgd s2" by auto
  have "step {bn} s s3" using step_trans[OF step_trans[OF step_trans[OF r(5) p(3)] s2(4)] s3(4)] by simp
  then have "step {} s s3" using step_free[OF T] bn(1) by blast
  then show ?thesis using r s2 s3 p d bn(1) by auto
qed

end

interpretation wal: txn_store "bread ROOTDEV" bdata set_bdata log_write brelse txn view handle
  "\<lambda>s. log_region (klog s)" "\<lambda>s. set (logged (klog s))" txn_step "\<lambda>s bn. view s bn = disk s bn"
proof (unfold_locales, goal_cases)
  case (1 X s t Y u)
  then show ?case by (rule txn_step_trans)
next
  case (2 X s s' b bn)
  then show ?case by (rule txn_step_handle)
next
  case (3 X s s')
  then show ?case by (rule txn_step_region)
next
  case (4 H k s X s')
  then have "\<not> handle s b bn" if "bn \<in> X" for b bn
    using handle_views(8)[of s b bn] that by (auto simp: txn_def log_inv_def)
  then show ?case using 4(2) by (auto simp: txn_step_def bstep_def)
next
  case (5 H k s b bn)
  then show ?case by (auto simp: txn_def log_inv_def intro: handle_views(5))
next
  case (6 H k s bn)
  then show ?case by (auto simp: txn_def log_inv_def intro: view_length)
next
  case (7 H k s j)
  then show ?case by (auto simp: txn_def)
next
  case (8 H k s bn)
  then show ?case using view_clean[of s bn] by (auto simp: txn_def log_inv_def)
next
  case (9 H k s bn)
  from txn_bread[OF this] show ?case by (auto simp: txn_step_def)
next
  case (10 H k s b bn d)
  from txn_set_bdata[OF this] show ?case by simp
next
  case (11 H k s b bn)
  from txn_log_write[OF this] show ?case by blast
next
  case (12 H k s b bn)
  from txn_brelse[OF this] show ?case by auto
qed

end
