(* ===== verification/Fslog_Crash.thy ===== *)
theory Fslog_Crash
  imports Fslog_Txn
begin

text \<open>
  Crash safety of the log. The writes that \<open>commit\<close> and \<open>recover_from_log\<close> issue are given in
  closed form; \<open>logical\<close> is the contents a disk stands for once its committed transaction, if
  any, is installed. Every prefix of the writes of \<open>commit\<close> leaves the logical contents either
  old or new, and every prefix of the writes of recovery keeps them.
\<close>

section \<open>What recovery and commit write\<close>

abbreviation hb :: "log \<Rightarrow> uint" where
  "hb l \<equiv> u32 (l_start l)"

definition install_writes :: "log \<Rightarrow> (uint \<Rightarrow> block) \<Rightarrow> (uint \<times> block) list" where
  "install_writes l D = map (\<lambda>i. (hdr_blocks (D (hb l)) ! i, D (lblk l i))) [0..<nat (hdr_n (D (hb l)))]"

definition recovery_writes :: "log \<Rightarrow> (uint \<Rightarrow> block) \<Rightarrow> (uint \<times> block) list" where
  "recovery_writes l D = install_writes l D @ [(hb l, put32 (D (hb l)) 0 0)]"

definition log_writes :: "log \<Rightarrow> (uint \<Rightarrow> block) \<Rightarrow> (uint \<times> block) list" where
  "log_writes l V = map (\<lambda>i. (lblk l i, V (logged l ! i))) [0..<nat (lh_n l)]"

definition home_writes :: "log \<Rightarrow> (uint \<Rightarrow> block) \<Rightarrow> (uint \<times> block) list" where
  "home_writes l V = map (\<lambda>i. (logged l ! i, V (logged l ! i))) [0..<nat (lh_n l)]"

definition commit_writes :: "log \<Rightarrow> (uint \<Rightarrow> block) \<Rightarrow> (uint \<times> block) list" where
  "commit_writes l V =
     log_writes l V @ [(hb l, put_header l (V (hb l)))] @ home_writes l V @ [(hb l, put32 (put_header l (V (hb l))) 0 0)]"

definition recoverable :: "log \<Rightarrow> (uint \<Rightarrow> block) \<Rightarrow> bool" where
  "recoverable l D \<longleftrightarrow> homes_ok (header_log (D (hb l)) l)"

lemma put_header_empty [simp]: "put_header (l\<lparr>lh_n := 0\<rparr>) d = put32 d 0 0"
  by (simp add: put_header_def)

lemma upd_n_simps [simp]:
  "log_region (l\<lparr>lh_n := n\<rparr>) = log_region l" "lblk (l\<lparr>lh_n := n\<rparr>) = lblk l"
  "geometry (l\<lparr>lh_n := n\<rparr>) = geometry l"
  by (simp_all add: log_region_def lblk_def geometry_def fun_eq_iff)

lemma clear_head_refines:
  assumes inv: "cache_inv s" and g: "geometry (klog s)" and sp: "spare R 1 (cabs s)" "log_region (klog s) \<subseteq> R"
  shows "\<exists>s'. write_head (upd_log (\<lambda>l. l\<lparr>lh_n := 0\<rparr>) s) = Ret s' \<and> lstep ((klog s)\<lparr>lh_n := 0\<rparr>) s s' \<and>
     cabs s' = cv_puts [(hb (klog s), put32 (view s (hb (klog s))) 0 0)] (cabs s)"
proof -
  let ?t = "upd_log (\<lambda>l. l\<lparr>lh_n := 0\<rparr>) s"
  from write_head_refines[of ?t R] inv g sp obtain s' where
    s': "write_head ?t = Ret s'" "bstep {} ?t s'" "cabs s' = cv_puts [(hb (klog s), put32 (view s (hb (klog s))) 0 0)] (cabs s)"
    by auto
  have "lstep ((klog s)\<lparr>lh_n := 0\<rparr>) s s'"
    using lstep_trans[OF lstep_upd[OF inv, of "\<lambda>l. l\<lparr>lh_n := 0\<rparr>"] lstep_bstep[OF s'(2)]] by simp
  then show ?thesis using s' by blast
qed

lemma recover_refines:
  assumes inv: "cache_inv s" and g: "geometry (klog s)" and ok: "recoverable (klog s) (disk s)"
    and clean: "view s = disk s"
    and sp: "spare (log_region (klog s) \<union> set (hdr_blocks (disk s (hb (klog s))))) 2 (cabs s)"
  shows "\<exists>s'. recover_from_log s = Ret s' \<and> cabs s' = cv_puts (recovery_writes (klog s) (disk s)) (cabs s) \<and>
     lstep ((header_log (disk s (hb (klog s))) (klog s))\<lparr>lh_n := 0\<rparr>) s s'"
proof -
  let ?l = "klog s" and ?d = "disk s (hb (klog s))"
  let ?l1 = "header_log ?d ?l"
  let ?R = "log_region ?l \<union> set (hdr_blocks ?d)"
  have ok1: "homes_ok ?l1" using ok by (simp add: recoverable_def)
  have n: "hdr_n ?d \<le> int LOGSIZE" using ok1 by (simp add: homes_ok_def)
  have g1: "geometry ?l1" by (rule geometry_header[OF g n])
  have sp1: "spare ?R 1 (cabs s)" using sp by (simp add: spare_def)
  from read_head_refines[OF inv g sp1] n clean obtain s1 where
    1: "read_head s = Ret s1" "lstep ?l1 s s1" "cabs s1 = cabs s" by auto
  note k1 = lstep_klog[OF 1(2)] and i1 = lstep_inv[OF 1(2)]
  from install_trans_refines[OF i1, of 1] sp g1 ok1 1(3) obtain s2 where
    2: "install_trans 1 s1 = Ret s2" "bstep {} s1 s2"
      "cabs s2 = fold (cv_install_one False ?l1) [0..<nat (hdr_n ?d)] (cabs s)" by (auto simp: k1)
  have "cabs s2 = cv_puts (install_writes ?l (disk s)) (cabs s)"
    unfolding 2(3) using clean fold_install_one[OF ok1 g1, of "[0..<nat (hdr_n ?d)]" False "cabs s"]
    by (simp add: install_writes_def atLeast_upt)
  note c2 = this
  have k2: "klog s2 = ?l1" using klog_bstep[OF 2(2)] k1 by simp
  have "hb ?l \<notin> fst ` set (install_writes ?l (disk s))"
    using ok1 header_region[OF g] by (auto simp: install_writes_def homes_ok_def hdr_blocks_def)
  then have "view s2 (hb ?l) = ?d"
    using arg_cong[OF c2, of cv_data] clean by (simp add: apply_writes_other)
  with clear_head_refines[OF bstepD(1)[OF 2(2)], of ?R] k2 g1 sp1 c2 obtain s3 where
    3: "write_head (upd_log (\<lambda>l. l\<lparr>lh_n := 0\<rparr>) s2) = Ret s3" "lstep (?l1\<lparr>lh_n := 0\<rparr>) s2 s3"
      "cabs s3 = cv_puts (recovery_writes ?l (disk s)) (cabs s)"
    by (auto simp: recovery_writes_def)
  have "lstep (?l1\<lparr>lh_n := 0\<rparr>) s s3"
    using lstep_trans[OF lstep_trans[OF 1(2) lstep_bstep[OF 2(2)]] 3(2)] .
  then show ?thesis using 1(1) 2(1) 3(1,3) by (auto simp: recover_from_log_def)
qed

lemma logged_writes_other:
  assumes "geometry l" "homes_ok l" "x \<notin> log_region l"
  shows "x \<notin> fst ` set (map (\<lambda>i. (lblk l i, f i)) [0..<nat (lh_n l)])"
  using logged_nth(4)[OF assms(2,1)] assms(3) by auto

lemma lblk_header:
  assumes "geometry l" "homes_ok l" "i < nat (lh_n l)"
  shows "lblk l i \<noteq> hb l"
proof -
  have "int i < l_size l - 1" using assms(2,3) by (auto simp: homes_ok_def)
  then show ?thesis using lblk_inj(2)[OF assms(1), of i i] by blast
qed

lemma log_blocks_written:
  assumes "geometry l" "homes_ok l" "i < nat (lh_n l)"
  shows "apply_writes (map (\<lambda>i. (lblk l i, f i)) [0..<nat (lh_n l)]) D (lblk l i) = f i"
proof -
  have inj: "lblk l i = lblk l j \<longleftrightarrow> i = j" if "i < nat (lh_n l)" "j < nat (lh_n l)" for i j
    using lblk_inj(1)[OF assms(1), of i j] assms(2) that by (auto simp: homes_ok_def)
  let ?g = "\<lambda>b. f (THE j. j < nat (lh_n l) \<and> lblk l j = b)"
  have the: "(THE j. j < nat (lh_n l) \<and> lblk l j = lblk l i) = i" if "i < nat (lh_n l)" for i
    using inj that by (intro the_equality) auto
  have "apply_writes (map (\<lambda>i. (lblk l i, f i)) [0..<nat (lh_n l)]) D (lblk l i) = ?g (lblk l i)"
    using the assms(3) by (intro apply_writes_const) (auto simp: image_image)
  then show ?thesis using the[OF assms(3)] by simp
qed

lemma commit_refines:
  assumes "txn_ready s"
  shows "\<exists>s'. commit s = Ret s' \<and> lstep ((klog s)\<lparr>lh_n := 0\<rparr>) s s' \<and>
     cabs s' = fold cv_unpin (logged (klog s))
       (cv_puts (if lh_n (klog s) = 0 then [] else commit_writes (klog s) (view s)) (cabs s))"
proof (cases "lh_n (klog s) = 0")
  case True
  have inv: "cache_inv s" using assms by (simp add: txn_ready_def log_inv_def)
  have l: "(klog s)\<lparr>lh_n := 0\<rparr> = klog s" using True by (cases "klog s") simp
  have "commit s = Ret s" "logged (klog s) = []" using True by (simp_all add: commit_def logged_def)
  moreover have "lstep (klog s) s s" by (rule lstep_bstep) (simp add: bstep_def inv)
  ultimately show ?thesis unfolding l using True by simp
next
  case False
  let ?l = "klog s" and ?n = "nat (lh_n (klog s))" and ?R = "tblocks (klog s)" and ?V = "view s"
  have inv: "cache_inv s" and g: "geometry ?l" and ok: "homes_ok ?l" and pos: "0 < lh_n ?l"
    and dis: "distinct (logged ?l)" and sp: "spare ?R 1 (cabs s)"
    and pin: "\<forall>x \<in> set (logged ?l). 0 < refs s x"
    using assms False by (auto simp: txn_ready_def log_inv_def)
  let ?W1 = "map (\<lambda>i. (lblk ?l i, ?V (logged ?l ! i))) [0..<?n]"
  let ?W2 = "[(hb ?l, put_header ?l (?V (hb ?l)))]"
  let ?W3 = "map (\<lambda>i. (logged ?l ! i, ?V (logged ?l ! i))) [0..<?n]"
  let ?W4 = "[(hb ?l, put32 (put_header ?l (?V (hb ?l))) 0 0)]"
  from write_log_refines[OF inv g ok sp pin] obtain s1 where
    1: "write_log s = Ret s1" "bstep {} s s1" "cabs s1 = cv_puts ?W1 (cabs s)"
    using fold_log_one[OF ok g, of "[0..<?n]" "cabs s"] by (auto simp: atLeast_upt)
  note k1 = klog_bstep[OF 1(2)] and i1 = bstepD(1)[OF 1(2)]
  have hn: "lh_n ?l \<le> int LOGSIZE" "length (logged ?l) = ?n"
    using ok logged_nth(5)[OF ok g, of 0] pos by (simp_all add: homes_ok_def)
  have v1: "view s1 = apply_writes ?W1 ?V" "refs s1 = refs s"
    using arg_cong[OF 1(3), of cv_data] arg_cong[OF 1(3), of cv_refs] by simp_all
  have h1: "view s1 (hb ?l) = ?V (hb ?l)"
    unfolding v1 using lblk_header[OF g ok] by (intro apply_writes_other) force
  from write_head_refines[OF i1, of ?R] k1 g pos hn sp 1(3) h1 obtain s2 where
    2: "write_head s1 = Ret s2" "bstep {} s1 s2" "cabs s2 = cv_puts (?W1 @ ?W2) (cabs s)"
    by auto
  note k2 = klog_bstep[OF 2(2)] and i2 = bstepD(1)[OF 2(2)]
  have v2: "view s2 = apply_writes (?W1 @ ?W2) ?V" "refs s2 = refs s"
    using arg_cong[OF 2(3), of cv_data] arg_cong[OF 2(3), of cv_refs] by simp_all
  have b2: "view s2 (lblk ?l i) = ?V (logged ?l ! i)" if "i < ?n" for i
    unfolding v2 using lblk_header[OF g ok that] log_blocks_written[OF g ok that] by simp
  have "spare (tblocks (klog s2)) 1 (cabs s2)" using sp k1 k2 by (simp add: 2(3))
  with install_trans_refines[OF i2, of 0] k1 k2 g ok dis pin v2(2) obtain s3 where
    3: "install_trans 0 s2 = Ret s3" "bstep {} s2 s3"
      "cabs s3 = fold (cv_install_one True ?l) [0..<?n] (cabs s2)" by auto
  have m3: "map (\<lambda>i. (logged ?l ! i, cv_data (cabs s2) (lblk ?l i))) [0..<?n] = ?W3" using b2 by simp
  have m4: "map (nth (logged ?l)) [0..<?n] = logged ?l" using hn(2) by (metis map_nth)
  have e: "fold (cv_install_one True ?l) [0..<?n] (cabs s2) =
      (if True then fold cv_unpin (map (nth (logged ?l)) [0..<?n]) else id)
        (cv_puts (map (\<lambda>i. (logged ?l ! i, cv_data (cabs s2) (lblk ?l i))) [0..<?n]) (cabs s2))"
    by (rule fold_install_one[OF ok g]) auto
  have c3: "cabs s3 = fold cv_unpin (logged ?l) (cv_puts (?W1 @ ?W2 @ ?W3) (cabs s))"
    unfolding 3(3) e m3 m4 by (simp add: 2(3))
  note k3 = klog_bstep[OF 3(2)] and i3 = bstepD(1)[OF 3(2)]
  have "hb ?l \<notin> fst ` set ?W3" using ok header_region[OF g] logged_nth(3)[OF ok g] by auto
  then have h3: "view s3 (hb ?l) = put_header ?l (?V (hb ?l))"
    using arg_cong[OF c3, of cv_data] by (simp add: apply_writes_other)
  have sp3: "spare ?R 1 (cabs s3)" unfolding c3 using sp by (intro spare_unpins) simp
  from clear_head_refines[OF i3, of ?R] g sp3 k1 k2 k3 h3 obtain s4 where
    4: "write_head (upd_log (\<lambda>l. l\<lparr>lh_n := 0\<rparr>) s3) = Ret s4" "lstep (?l\<lparr>lh_n := 0\<rparr>) s3 s4"
      "cabs s4 = cv_puts ?W4 (cabs s3)" by auto
  have "cabs s4 = fold cv_unpin (logged ?l) (cv_puts (commit_writes ?l ?V) (cabs s))"
    unfolding 4(3) c3 commit_writes_def log_writes_def home_writes_def by (simp add: cv_puts_unpins)
  moreover have "lstep (?l\<lparr>lh_n := 0\<rparr>) s s4"
    using bstep_trans[OF bstep_trans[OF 1(2) 2(2)] 3(2)] lstep_trans[OF lstep_bstep 4(2)] by simp
  moreover have "commit s = Ret s4" using 1(1) 2(1) 3(1) 4(1) pos by (simp add: commit_def)
  ultimately show ?thesis using False by auto
qed

section \<open>The contents a disk stands for\<close>

definition logical :: "log \<Rightarrow> (uint \<Rightarrow> block) \<Rightarrow> uint \<Rightarrow> block" where
  "logical l D = apply_writes (install_writes l D) D"

definition off_log :: "log \<Rightarrow> (uint \<Rightarrow> block) \<Rightarrow> (uint \<Rightarrow> block) \<Rightarrow> bool" where
  "off_log l D D' \<longleftrightarrow> (\<forall>x. x \<notin> log_region l \<longrightarrow> D x = D' x)"

lemma off_log_trans: "off_log l D D' \<Longrightarrow> off_log l D' D'' \<Longrightarrow> off_log l D D''"
  by (simp add: off_log_def)

lemma idle_disk:
  assumes "hdr_n (D (hb l)) \<le> 0"
  shows "install_writes l D = []" "logical l D = D" "geometry l \<Longrightarrow> recoverable l D"
  using assms by (simp_all add: install_writes_def logical_def recoverable_def homes_ok_def hdr_blocks_def geometry_def)

lemma hdr_clear: "length d = BSIZE \<Longrightarrow> hdr_n (put32 d 0 0) = 0"
  by (simp add: hdr_n_def get32_put32_same)

lemma install_writes_homes: "fst ` set (install_writes l D) = set (hdr_blocks (D (hb l)))"
  by (force simp: install_writes_def hdr_blocks_def)

lemma take_homes: "x \<in> fst ` set (take k ws) \<Longrightarrow> x \<in> fst ` set ws"
  by (meson image_mono in_mono set_take_subset)

lemma apply_writes_length:
  "\<forall>x. length (D x) = n \<Longrightarrow> \<forall>w \<in> set ws. length (snd w) = n \<Longrightarrow> length (apply_writes ws D x) = n"
  by (induction ws arbitrary: D) auto

text \<open>A disk that agrees with \<open>D\<close> on the log region has the same header and log blocks.\<close>

lemma same_region:
  assumes g: "geometry l" and ok: "recoverable l D" and eq: "\<And>x. x \<in> log_region l \<Longrightarrow> D' x = D x"
  shows "recoverable l D'" "install_writes l D' = install_writes l D"
proof -
  have h: "D' (hb l) = D (hb l)" using eq header_region[OF g] by blast
  then show "recoverable l D'" using ok by (simp add: recoverable_def)
  have g': "geometry (header_log (D (hb l)) l)"
    using ok by (intro geometry_header[OF g]) (simp add: recoverable_def homes_ok_def)
  have "D' (lblk l i) = D (lblk l i)" if "i < nat (hdr_n (D (hb l)))" for i
    using eq logged_nth(4)[OF ok[unfolded recoverable_def] g', of i] that by simp
  then show "install_writes l D' = install_writes l D" by (simp add: install_writes_def h)
qed

lemma recovery_prefix:
  assumes g: "geometry l" and ok: "recoverable l D" and len: "\<And>x. length (D x) = BSIZE"
  defines "D' \<equiv> \<lambda>k. apply_writes (take k (recovery_writes l D)) D"
  shows "recoverable l (D' k)" "off_log l (logical l (D' k)) (logical l D)"
proof -
  let ?W = "install_writes l D"
  have homes: "x \<notin> log_region l" if "x \<in> fst ` set ?W" for x
    using that ok by (auto simp: install_writes_homes recoverable_def homes_ok_def)
  have "recoverable l (D' k) \<and> off_log l (logical l (D' k)) (logical l D)"
  proof (cases "k \<le> length ?W")
    case True
    then have D': "D' k = apply_writes (take k ?W) D" by (simp add: D'_def recovery_writes_def)
    have eq: "D' k x = D x" if "x \<in> log_region l" for x
      unfolding D' using homes that take_homes[of x k ?W] by (intro apply_writes_other) auto
    have s: "recoverable l (D' k)" "install_writes l (D' k) = install_writes l D"
      by (rule same_region[OF g ok]; rule eq; assumption)+
    have "x \<in> fst ` set ?W \<or> D' k x = D x" for x
      unfolding D' using apply_writes_other[of x "take k ?W" D] take_homes[of x k ?W] by blast
    then have "logical l (D' k) x = logical l D x" for x
      unfolding logical_def s(2) by (intro apply_writes_cong) simp
    then show ?thesis using s(1) by (simp add: off_log_def)
  next
    case False
    then have D': "D' k = (apply_writes ?W D)(hb l := put32 (D (hb l)) 0 0)"
      by (simp add: D'_def recovery_writes_def)
    then have "hdr_n (D' k (hb l)) \<le> 0" using hdr_clear[OF len] by simp
    note s = idle_disk[of "D' k" l, OF this]
    have "logical l (D' k) x = logical l D x" if "x \<notin> log_region l" for x
      unfolding s(2) using that header_region[OF g] by (auto simp: D' logical_def)
    then show ?thesis using s(3)[OF g] by (simp add: off_log_def)
  qed
  then show "recoverable l (D' k)" "off_log l (logical l (D' k)) (logical l D)" by simp_all
qed

text \<open>The contents after the transaction: the cached contents of its blocks, the others as on disk.\<close>

definition committed :: "log \<Rightarrow> (uint \<Rightarrow> block) \<Rightarrow> (uint \<Rightarrow> block) \<Rightarrow> uint \<Rightarrow> block" where
  "committed l V D x = (if x \<in> set (logged l) then V x else D x)"

lemma log_writes_facts:
  assumes "geometry l" "homes_ok l"
  shows "x \<notin> log_region l \<or> x = hb l \<Longrightarrow> apply_writes (take k (log_writes l V)) D x = D x"
    "i < nat (lh_n l) \<Longrightarrow> apply_writes (log_writes l V) D (lblk l i) = V (logged l ! i)"
    "length (log_writes l V) = nat (lh_n l)"
proof -
  have "x \<in> log_region l \<and> x \<noteq> hb l" if "x \<in> fst ` set (log_writes l V)" for x
    using that logged_nth(4)[OF assms(2,1)] lblk_header[OF assms] by (auto simp: log_writes_def)
  then show "x \<notin> log_region l \<or> x = hb l \<Longrightarrow> apply_writes (take k (log_writes l V)) D x = D x"
    using take_homes[of x k "log_writes l V"] by (intro apply_writes_other) blast
  show "i < nat (lh_n l) \<Longrightarrow> apply_writes (log_writes l V) D (lblk l i) = V (logged l ! i)"
    unfolding log_writes_def by (rule log_blocks_written[OF assms])
qed (simp add: log_writes_def)

lemma home_writes_facts:
  assumes "geometry l" "homes_ok l"
  shows "fst ` set (home_writes l V) = set (logged l)" "length (home_writes l V) = nat (lh_n l)"
    "x \<in> set (logged l) \<Longrightarrow> apply_writes (home_writes l V) D x = V x"
    "x \<notin> set (logged l) \<Longrightarrow> apply_writes (take k (home_writes l V)) D x = D x"
proof -
  have "length (logged l) = nat (lh_n l)"
    using assms by (auto simp: logged_def geometry_def homes_ok_def)
  then show f: "fst ` set (home_writes l V) = set (logged l)" by (force simp: home_writes_def in_set_conv_nth)
  show "length (home_writes l V) = nat (lh_n l)" by (simp add: home_writes_def)
  show "x \<in> set (logged l) \<Longrightarrow> apply_writes (home_writes l V) D x = V x"
    using f by (intro apply_writes_const) (auto simp: home_writes_def)
  show "x \<notin> set (logged l) \<Longrightarrow> apply_writes (take k (home_writes l V)) D x = D x"
    using f take_homes[of x k "home_writes l V"] by (intro apply_writes_other) blast
qed

text \<open>The three phases of a commit: filling the log, installing behind a full header, done.\<close>

definition sealed :: "log \<Rightarrow> (uint \<Rightarrow> block) \<Rightarrow> (uint \<Rightarrow> block) \<Rightarrow> uint \<Rightarrow> block" where
  "sealed l V D = (apply_writes (log_writes l V) D)(hb l := put_header l (V (hb l)))"

lemma sealed_other: "geometry l \<Longrightarrow> homes_ok l \<Longrightarrow> x \<notin> log_region l \<Longrightarrow> sealed l V D x = D x"
  using log_writes_facts(1)[of l x "nat (lh_n l)" V D] log_writes_facts(3)[of l V] header_region[of l]
  by (auto simp: sealed_def)

lemma commit_phases:
  assumes "geometry l" "homes_ok l"
  shows "apply_writes (take k (commit_writes l V)) D =
    (if k \<le> nat (lh_n l) then apply_writes (take k (log_writes l V)) D
     else if k \<le> 2 * nat (lh_n l) + 1 then apply_writes (take (k - Suc (nat (lh_n l))) (home_writes l V)) (sealed l V D)
     else (apply_writes (home_writes l V) (sealed l V D))(hb l := put32 (put_header l (V (hb l))) 0 0))"
  using log_writes_facts(3)[OF assms, of V] home_writes_facts(2)[OF assms, of V]
  by (auto simp: commit_writes_def take_Cons' sealed_def)

lemma sealed_logical:
  assumes g: "geometry l" and ok: "homes_ok l" and pos: "0 < lh_n l" and len: "length (V (hb l)) = BSIZE"
    and D': "\<And>x. x \<notin> set (logged l) \<Longrightarrow> D' x = sealed l V D x"
  shows "recoverable l D'" "off_log l (logical l D') (committed l V D)"
proof -
  have "lh_n l \<le> int LOGSIZE" "length (lh_block l) = LOGSIZE" "0 \<le> lh_n l"
    using ok g pos by (simp_all add: homes_ok_def geometry_def)
  note H = put_header[OF len this(3,1,2)]
  have off: "x \<notin> set (logged l)" if "x \<in> log_region l" for x using that ok by (auto simp: homes_ok_def)
  have hd: "D' (hb l) = put_header l (V (hb l))"
    using D' off header_region[OF g] by (simp add: sealed_def)
  have lb: "D' (lblk l i) = V (logged l ! i)" if "i < nat (lh_n l)" for i
    using D' off logged_nth(4)[OF ok g that] lblk_header[OF g ok that] log_writes_facts(2)[OF g ok that]
    by (simp add: sealed_def)
  show "recoverable l D'" using ok by (simp add: recoverable_def hd H homes_ok_def)
  have iw: "install_writes l D' = home_writes l V" using hd H lb by (simp add: install_writes_def home_writes_def)
  have "logical l D' x = committed l V D x" if "x \<notin> log_region l" for x
  proof (cases "x \<in> set (logged l)")
    case True
    then show ?thesis using home_writes_facts(3)[OF g ok] by (simp add: logical_def iw committed_def)
  next
    case False
    then show ?thesis
      using home_writes_facts(4)[OF g ok False, of "nat (lh_n l)" V D'] home_writes_facts(2)[OF g ok, of V]
        D' sealed_other[OF g ok that] by (simp add: logical_def iw committed_def)
  qed
  then show "off_log l (logical l D') (committed l V D)" by (simp add: off_log_def)
qed

lemma commit_done:
  assumes g: "geometry l" and ok: "homes_ok l" and x: "x \<notin> log_region l"
  shows "apply_writes (home_writes l V) (sealed l V D) x = committed l V D x"
  using sealed_other[OF g ok x] home_writes_facts(2,3)[OF g ok]
    home_writes_facts(4)[OF g ok, of x "nat (lh_n l)" V "sealed l V D"]
  by (cases "x \<in> set (logged l)") (auto simp: committed_def)

lemma commit_all:
  assumes g: "geometry l" and ok: "homes_ok l" and x: "x \<notin> log_region l"
  shows "apply_writes (commit_writes l V) D x = committed l V D x"
  using commit_done[OF assms] x header_region[OF g] by (auto simp: commit_writes_def sealed_def)

lemma commit_prefix:
  assumes g: "geometry l" and ok: "homes_ok l" and pos: "0 < lh_n l" and idle: "hdr_n (D (hb l)) \<le> 0"
    and len: "length (V (hb l)) = BSIZE"
  defines "D' \<equiv> \<lambda>k. apply_writes (take k (commit_writes l V)) D"
  shows "recoverable l (D' k) \<and>
    off_log l (logical l (D' k)) (if k \<le> nat (lh_n l) then D else committed l V D)"
proof -
  let ?n = "nat (lh_n l)" and ?H = "put_header l (V (hb l))"
  note D'_def = D'_def[unfolded commit_phases[OF g ok]]
  consider (log) "k \<le> ?n" | (home) "?n < k" "k \<le> 2 * ?n + 1" | (fin) "2 * ?n + 1 < k" by linarith
  then show ?thesis
  proof cases
    case log
    then have D': "D' k = apply_writes (take k (log_writes l V)) D" by (simp add: D'_def)
    note W = log_writes_facts(1)[OF g ok]
    have "hdr_n (D' k (hb l)) \<le> 0" using W[of "hb l" k V D] idle by (simp add: D')
    note s = idle_disk[of "D' k" l, OF this]
    show ?thesis unfolding s(2) off_log_def using s(3)[OF g] W log by (simp add: D')
  next
    case home
    then have D': "D' k = apply_writes (take (k - Suc ?n) (home_writes l V)) (sealed l V D)" by (simp add: D'_def)
    have "D' k x = sealed l V D x" if "x \<notin> set (logged l)" for x
      unfolding D' by (rule home_writes_facts(4)[OF g ok that])
    then show ?thesis using sealed_logical[where V = V and D' = "D' k" and D = D, OF g ok pos len] home by simp
  next
    case fin
    then have D': "D' k = (apply_writes (home_writes l V) (sealed l V D))(hb l := put32 ?H 0 0)"
      by (simp add: D'_def)
    have "length ?H = BSIZE" using put_header(1)[OF len] ok g pos by (simp add: homes_ok_def geometry_def)
    then have "hdr_n (D' k (hb l)) \<le> 0" unfolding D' by (simp add: hdr_clear)
    note s = idle_disk[of "D' k" l, OF this]
    have "D' k x = committed l V D x" if "x \<notin> log_region l" for x
      using that header_region[OF g] commit_done[OF g ok that] by (auto simp: D')
    then show ?thesis using s fin g by (simp add: off_log_def)
  qed
qed

section \<open>Booting from a disk\<close>

definition zero_log :: log where
  "zero_log = \<lparr>l_start = 0, l_size = 0, l_outstanding = 0, l_committing = 0, l_dev = 0, lh_n = 0,
               lh_block = replicate LOGSIZE 0\<rparr>"

text \<open>The log that \<open>initlog\<close> sets up for a superblock.\<close>

definition sb_log :: "superblock \<Rightarrow> log" where
  "sb_log sb = zero_log\<lparr>l_start := sint (sb_logstart sb), l_size := sint (sb_nlog sb), l_dev := 1\<rparr>"

text \<open>
  A machine just powered on with disk \<open>D\<close>: static data is zero, the first process runs (it calls
  \<open>fsinit\<close>, which calls \<open>initlog\<close>) and \<open>binit\<close> is still to come.
\<close>

definition powered :: "(uint \<Rightarrow> block) \<Rightarrow> 'a log_state_scheme \<Rightarrow> bool" where
  "powered D b \<longleftrightarrow> bcache b = replicate (Suc NBUF) zero_buf \<and> running b \<and> disk b = D \<and> klog b = zero_log"

lemma initlog_recovers:
  fixes b :: "'a log_state_scheme"
  assumes p: "powered D b" and g: "geometry (sb_log sb)" and ok: "recoverable (sb_log sb) D"
    and len: "\<forall>x. length (D x) = BSIZE"
  shows "\<exists>b'. initlog 1 sb (binit b) = Ret b' \<and> dwrites b' = dwrites b @ recovery_writes (sb_log sb) D \<and>
     disk b' = apply_writes (recovery_writes (sb_log sb) D) D \<and> lh_n (klog b') = 0 \<and> cache_inv b'"
proof -
  let ?l = "sb_log sb"
  have bz: "bcache b = replicate (Suc NBUF) zero_buf" "running b" "\<And>x. length (disk b x) = BSIZE"
    and k: "klog (binit b) = zero_log" and D: "disk b = D"
    using p len bio_frame_klog[of b "binit b"] by (simp_all add: powered_def binit_def)
  note c = binit_cold[OF bz]
  define s where
    "s = upd_log (\<lambda>l. l\<lparr>l_start := sint (sb_logstart sb), l_size := sint (sb_nlog sb), l_dev := 1\<rparr>) (binit b)"
  have ks: "klog s = ?l" and i: "cache_inv s" and cs: "cabs s = cabs (binit b)"
    using c(1) by (simp_all add: s_def k sb_log_def)
  have vs: "view s = D" "disk s = D"
    using arg_cong[OF c(2)[folded cs], of cv_data] arg_cong[OF c(2)[folded cs], of cv_disk] by (simp_all add: D)
  have "spare R 2 (cabs s)" for R by (simp add: cs c(2) spare_def NBUF_def)
  from recover_refines[OF i, unfolded ks vs, OF g ok refl this] obtain b' where
    b': "recover_from_log s = Ret b'" "cabs b' = cv_puts (recovery_writes ?l D) (cabs (binit b))"
      "lstep ((header_log (D (hb ?l)) ?l)\<lparr>lh_n := 0\<rparr>) s b'" unfolding cs by blast
  have "disk b' = apply_writes (recovery_writes ?l D) D" "dwrites b' = dwrites b @ recovery_writes ?l D"
    using arg_cong[OF b'(2), of cv_disk] arg_cong[OF b'(2), of cv_writes] by (simp_all add: c(2) D)
  then show ?thesis using b'(1) lstep_klog[OF b'(3)] lstep_inv[OF b'(3)] by (simp add: initlog_def s_def)
qed

text \<open>
  \<open>reboots sb D D'\<close>: starting from disk \<open>D\<close> the machine boots any number of times, each boot
  failing after some prefix of the writes of recovery, and ends with disk \<open>D'\<close>.
\<close>

inductive reboots :: "superblock \<Rightarrow> (uint \<Rightarrow> block) \<Rightarrow> (uint \<Rightarrow> block) \<Rightarrow> bool" for sb D where
  off: "reboots sb D D"
| crash: "reboots sb D D' \<Longrightarrow> powered D' (b :: log_state) \<Longrightarrow> initlog 1 sb (binit b) = Ret b' \<Longrightarrow>
    dwrites b' = dwrites b @ ws \<Longrightarrow> reboots sb D (apply_writes (take k ws) D')"

lemma recovery_writes_length:
  assumes "\<forall>x. length (D x) = BSIZE" "w \<in> set (recovery_writes l D)"
  shows "length (snd w) = BSIZE"
  using assms by (auto simp: recovery_writes_def install_writes_def)

lemma reboots_logical:
  assumes "reboots sb D D'" "geometry (sb_log sb)" "recoverable (sb_log sb) D" "\<forall>x. length (D x) = BSIZE"
  shows "recoverable (sb_log sb) D' \<and> off_log (sb_log sb) (logical (sb_log sb) D') (logical (sb_log sb) D) \<and>
    (\<forall>x. length (D' x) = BSIZE)"
  using assms(1)
proof induction
  case off
  then show ?case using assms by (simp add: off_log_def)
next
  case (crash D' b b' ws k)
  then have ok: "recoverable (sb_log sb) D'" "off_log (sb_log sb) (logical (sb_log sb) D') (logical (sb_log sb) D)"
    and len: "\<forall>x. length (D' x) = BSIZE" by simp_all
  have ws: "ws = recovery_writes (sb_log sb) D'"
    using initlog_recovers[OF crash(2) assms(2) ok(1) len] crash(3,4) by auto
  have "\<forall>w \<in> set (take k ws). length (snd w) = BSIZE"
    using recovery_writes_length[OF len, of _ "sb_log sb"] set_take_subset[of k ws] ws by blast
  then show ?case
    using recovery_prefix[OF assms(2) ok(1), of k] ok(2) len ws off_log_trans apply_writes_length[OF len] by auto
qed

lemma same_layout:
  assumes "l_start l = l_start l'" "l_size l = l_size l'"
  shows "log_region l = log_region l'" "recoverable l = recoverable l'" "logical l = logical l'"
    "off_log l = off_log l'"
proof -
  show r: "log_region l = log_region l'" using assms by (simp add: log_region_def)
  then show "off_log l = off_log l'" by (simp add: off_log_def fun_eq_iff)
  show "recoverable l = recoverable l'"
    using assms r by (simp add: recoverable_def homes_ok_def fun_eq_iff)
  show "logical l = logical l'"
    using assms by (simp add: logical_def install_writes_def lblk_def fun_eq_iff)
qed

lemma commit_writes_length:
  assumes "geometry l" "homes_ok l" "0 < lh_n l" "\<And>x. length (V x) = BSIZE" "w \<in> set (commit_writes l V)"
  shows "length (snd w) = BSIZE"
proof -
  have "length (put_header l (V (hb l))) = BSIZE"
    using assms by (intro put_header(1)) (auto simp: homes_ok_def geometry_def)
  then show ?thesis using assms(4,5) by (auto simp: commit_writes_def log_writes_def home_writes_def)
qed

text \<open>One boot that is not interrupted leaves the logical contents of the disk it finds.\<close>

lemma initlog_installs:
  fixes b :: "'a log_state_scheme"
  assumes "powered D b" "geometry (sb_log sb)" "recoverable (sb_log sb) D" "\<forall>x. length (D x) = BSIZE"
  shows "\<exists>b'. initlog 1 sb (binit b) = Ret b' \<and> off_log (sb_log sb) (disk b') (logical (sb_log sb) D) \<and>
     hdr_n (disk b' (hb (sb_log sb))) = 0"
proof -
  from initlog_recovers[OF assms] obtain b' where b': "initlog 1 sb (binit b) = Ret b'"
    "disk b' = apply_writes (recovery_writes (sb_log sb) D) D" by blast
  have "off_log (sb_log sb) (disk b') (logical (sb_log sb) D)"
    using header_region[OF assms(2)] by (auto simp: b'(2) recovery_writes_def logical_def off_log_def)
  moreover have "hdr_n (disk b' (hb (sb_log sb))) = 0"
    using assms(4) by (simp add: b'(2) recovery_writes_def hdr_clear)
  ultimately show ?thesis using b'(1) by blast
qed

lemma commit_then_reboots:
  assumes r: "txn_ready s" and sb: "l_start (klog s) = sint (sb_logstart sb)" "l_size (klog s) = sint (sb_nlog sb)"
    and idle: "hdr_n (disk s (hb (klog s))) \<le> 0"
    and ws: "ws = (if lh_n (klog s) = 0 then [] else commit_writes (klog s) (view s))"
    and rb: "reboots sb (apply_writes (take k ws) (disk s)) D"
  shows "geometry (sb_log sb)" "recoverable (sb_log sb) D" "\<forall>x. length (D x) = BSIZE"
    "off_log (klog s) (logical (sb_log sb) D)
       (if k \<le> nat (lh_n (klog s)) then disk s else committed (klog s) (view s) (disk s))"
proof -
  let ?l = "klog s" and ?m = "sb_log sb"
  let ?D0 = "apply_writes (take k ws) (disk s)"
  let ?C = "if k \<le> nat (lh_n ?l) then disk s else committed ?l (view s) (disk s)"
  have g: "geometry ?l" and ok: "homes_ok ?l" and inv: "cache_inv s" and pos: "0 \<le> lh_n ?l"
    using r by (simp_all add: txn_ready_def log_inv_def)
  have lay: "l_start ?l = l_start ?m" "l_size ?l = l_size ?m" using sb by (simp_all add: sb_log_def)
  note same = same_layout[OF lay]
  show gm: "geometry ?m" using g lay by (simp add: geometry_def sb_log_def zero_log_def)
  have dl: "\<forall>x. length (disk s x) = BSIZE" using inv by (simp add: cache_inv_def)
  have "recoverable ?l ?D0 \<and> off_log ?l (logical ?l ?D0) ?C \<and> (\<forall>x. length (?D0 x) = BSIZE)"
  proof (cases "lh_n ?l = 0")
    case True
    then have D0: "?D0 = disk s" by (simp add: ws)
    have "logged ?l = []" using True by (simp add: logged_def)
    then show ?thesis unfolding D0 using idle_disk[of "disk s" ?l] idle g dl
      by (simp add: off_log_def committed_def)
  next
    case False
    then have w: "ws = commit_writes ?l (view s)" "0 < lh_n ?l" using pos ws by simp_all
    have "\<forall>w \<in> set (take k ws). length (snd w) = BSIZE"
      using commit_writes_length[where V = "view s", OF g ok w(2) view_length[OF inv]] set_take_subset[of k ws] w(1) by blast
    then show ?thesis
      using commit_prefix[where V = "view s" and D = "disk s", OF g ok w(2) idle view_length[OF inv], of k] w(1) apply_writes_length[OF dl] by simp
  qed
  then have 0: "recoverable ?m ?D0" "off_log ?l (logical ?m ?D0) ?C" "\<forall>x. length (?D0 x) = BSIZE"
    by (simp_all add: same)
  from reboots_logical[OF rb gm 0(1,3)] show "recoverable ?m D" "\<forall>x. length (D x) = BSIZE"
    "off_log ?l (logical ?m D) ?C" using 0(2) off_log_trans same(4) by auto
qed

text \<open>
  C1. Crash safety of a transaction. \<open>commit\<close> returns, and whatever prefix \<open>take k ws\<close> of its
  writes reaches the disk before the machine stops, and however often it is restarted and stops
  again during recovery, the next boot whose recovery is not interrupted returns and leaves every
  block outside the log with its old contents when the header had not been written (\<open>k\<close> is at most
  the number of logged blocks), and with its new contents otherwise.
\<close>

theorem commit_crash_safe:
  fixes s :: "'a log_state_scheme"
  assumes "txn_ready s" "l_start (klog s) = sint (sb_logstart sb)" "l_size (klog s) = sint (sb_nlog sb)"
    and "hdr_n (disk s (u32 (l_start (klog s)))) \<le> 0"
  shows "\<exists>s' ws. commit s = Ret s' \<and> dwrites s' = dwrites s @ ws \<and>
    (\<forall>k D b. reboots sb (apply_writes (take k ws) (disk s)) D \<longrightarrow> powered D (b :: log_state) \<longrightarrow>
      (\<exists>b'. initlog 1 sb (binit b) = Ret b' \<and>
        (\<forall>x. x \<notin> log_region (klog s) \<longrightarrow>
          disk b' x = (if k \<le> nat (lh_n (klog s)) then disk s x
                       else if x \<in> set (logged (klog s)) then view s x else disk s x))))"
proof -
  define ws where "ws = (if lh_n (klog s) = 0 then [] else commit_writes (klog s) (view s))"
  from commit_refines[OF assms(1)] obtain s' where s': "commit s = Ret s'"
    "cabs s' = fold cv_unpin (logged (klog s)) (cv_puts ws (cabs s))" unfolding ws_def by blast
  have w: "dwrites s' = dwrites s @ ws" using arg_cong[OF s'(2), of cv_writes] by simp
  have "\<exists>b'. initlog 1 sb (binit b) = Ret b' \<and>
        (\<forall>x. x \<notin> log_region (klog s) \<longrightarrow>
          disk b' x = (if k \<le> nat (lh_n (klog s)) then disk s x
                       else if x \<in> set (logged (klog s)) then view s x else disk s x))"
    if rb: "reboots sb (apply_writes (take k ws) (disk s)) D" and p: "powered D b" for k D and b :: log_state
  proof -
    note c = commit_then_reboots[OF assms ws_def rb]
    have "log_region (klog s) = log_region (sb_log sb)"
      using assms by (intro same_layout(1)) (simp_all add: sb_log_def)
    then show ?thesis
      using initlog_installs[OF p c(1-3)] c(4) by (auto simp: off_log_def committed_def)
  qed
  then show ?thesis using s'(1) w by blast
qed

section \<open>Durability, and an example transaction\<close>

text \<open>
  C5. Durability. When the last outstanding operation ends its transaction, \<open>end_op\<close> returns, the
  log is empty again, no block is pinned or locked, and every block outside the log has on disk
  the contents the transaction gave it.
\<close>

theorem end_op_durable:
  assumes t: "txn {} k s" and o: "l_outstanding (klog s) = 1" "l_committing (klog s) = 0"
  shows "\<exists>s'. end_op s = Ret s' \<and> cache_inv s' \<and> klog s' = (klog s)\<lparr>lh_n := 0, l_outstanding := 0\<rparr> \<and>
     refs s' = (\<lambda>_. 0) \<and> blocked s' = (\<lambda>_. False) \<and>
     (\<forall>x. x \<notin> log_region (klog s) \<longrightarrow> disk s' x = view s x \<and> view s' x = view s x)"
proof -
  let ?l = "klog s"
  let ?c = "upd_log (\<lambda>l. l\<lparr>l_outstanding := l_outstanding l - 1, l_committing := 1\<rparr>) s"
  let ?m = "?l\<lparr>l_outstanding := 0, l_committing := 1\<rparr>"
  have inv: "log_inv s" and rf: "refs s = (\<lambda>x. of_bool (x \<in> set (logged ?l)))" and bl: "blocked s = (\<lambda>_. False)"
    and dis: "distinct (logged ?l)" and cl: "x \<notin> set (logged ?l) \<Longrightarrow> view s x = disk s x" for x
    using t wal.T_clean[OF t] by (auto simp: txn_def log_inv_def)
  have kc: "klog ?c = ?m" using o by simp
  have same: "logged ?m = logged ?l" "log_region ?m = log_region ?l" "geometry ?m = geometry ?l"
    "homes_ok ?m = homes_ok ?l" "lh_n ?m = lh_n ?l"
    by (simp_all add: logged_def log_region_def geometry_def homes_ok_def)
  have "spare R 1 (cabs s)" for R
    using txn_refs_card[OF t] t by (auto simp: spare_def bl rf txn_def log_inv_def)
  then have "txn_ready ?c" using inv unfolding txn_ready_def log_inv_def kc by (simp add: same)
  from commit_refines[OF this] obtain s1 where 1: "commit ?c = Ret s1" "lstep (?m\<lparr>lh_n := 0\<rparr>) ?c s1"
    "cabs s1 = fold cv_unpin (logged ?l) (cv_puts (if lh_n ?l = 0 then [] else commit_writes ?m (view s)) (cabs s))"
    unfolding kc same by auto
  note k1 = lstep_klog[OF 1(2)]
  let ?s' = "wakeup ChLog (upd_log (\<lambda>l. l\<lparr>l_committing := 0\<rparr>) s1)"
  let ?W = "if lh_n ?l = 0 then [] else commit_writes ?m (view s)"
  have k': "klog ?s' = ?l\<lparr>lh_n := 0, l_outstanding := 0\<rparr>"
    using o by (cases ?l) (simp add: k1)
  have c': "cabs ?s' = fold cv_unpin (logged ?l) (cv_puts ?W (cabs s))" using 1(3) by simp
  note f = arg_cong[OF c', of cv_data] arg_cong[OF c', of cv_disk] arg_cong[OF c', of cv_locked]
  have "refs ?s' x = 0" for x
    using fold_unpin_refs[OF dis, of "cv_puts ?W (cabs s)" x] arg_cong[OF c', of cv_refs] by (auto simp: rf)
  moreover have "disk ?s' x = view s x" "view ?s' x = view s x" if x: "x \<notin> log_region ?l" for x
  proof -
    have g: "geometry ?m" "homes_ok ?m" "x \<notin> log_region ?m" using inv x by (simp_all add: log_inv_def same)
    have "apply_writes ?W (disk s) x = view s x" "apply_writes ?W (view s) x = view s x"
      using commit_all[OF g, of "view s"] cl[of x] by (auto simp: committed_def same logged_def)
    then show "disk ?s' x = view s x" "view ?s' x = view s x" using f by simp_all
  qed
  moreover have "end_op s = Ret ?s'" using o 1(1) by (simp add: end_op_def Let_def)
  ultimately show ?thesis using k' f(3) bl lstep_inv[OF 1(2)] by (auto simp: fun_eq_iff)
qed

text \<open>
  An example: the image that \<^verbatim>\<open>mkfs\<close> lays out (log at block 2, 30 blocks), booted, with one
  operation that changes block 50.
\<close>

definition mkfs_sb :: superblock where
  "mkfs_sb = \<lparr>sb_magic = 0x10203040, sb_size = 2000, sb_nblocks = 1954, sb_ninodes = 200, sb_nlog = 30,
              sb_logstart = 2, sb_inodestart = 32, sb_bmapstart = 45\<rparr>"

definition cold_log :: "(uint \<Rightarrow> block) \<Rightarrow> log \<Rightarrow> log_state" where
  "cold_log d l = bio_state.extend (cold_bio d) \<lparr>klog = l\<rparr>"

lemma cold_log_simps [simp]:
  "bcache (cold_log d l) = replicate (Suc NBUF) zero_buf" "disk (cold_log d l) = d" "running (cold_log d l)"
  "dwrites (cold_log d l) = []" "klog (cold_log d l) = l"
  by (simp_all add: cold_log_def cold_bio_def running_def bio_state.defs log_state.defs)

definition op_log :: log where
  "op_log = (sb_log mkfs_sb)\<lparr>l_outstanding := 1\<rparr>"

lemma op_log_simps:
  "l_start op_log = 2" "l_size op_log = 30" "l_outstanding op_log = 1" "l_committing op_log = 0"
  "lh_n op_log = 0" "logged op_log = []" "geometry op_log" "homes_ok op_log"
  by (simp_all add: op_log_def sb_log_def zero_log_def mkfs_sb_def logged_def geometry_def homes_ok_def)

lemma example_off_log: "l_start l = 2 \<Longrightarrow> l_size l = 30 \<Longrightarrow> 50 \<notin> log_region l"
  using u32_inj[of 48] by (auto simp: log_region_def)

lemma example_started:
  "txn {} 29 (binit (cold_log (\<lambda>_. replicate BSIZE 0) op_log))"
  "view (binit (cold_log (\<lambda>_. replicate BSIZE 0) op_log)) = (\<lambda>_. replicate BSIZE 0)"
  "disk (binit (cold_log (\<lambda>_. replicate BSIZE 0) op_log)) = (\<lambda>_. replicate BSIZE 0)"
  "klog (binit (cold_log (\<lambda>_. replicate BSIZE 0) op_log)) = op_log"
proof -
  let ?s = "cold_log (\<lambda>_. replicate BSIZE 0) op_log"
  have c: "cache_inv (binit ?s)" "cabs (binit ?s) = \<lparr>cv_data = disk ?s, cv_disk = disk ?s,
      cv_writes = dwrites ?s, cv_refs = (\<lambda>_. 0), cv_locked = (\<lambda>_. False)\<rparr>" "bio_frame ?s (binit ?s)"
    by (rule binit_cold; simp)+
  show k: "klog (binit ?s) = op_log" using bio_frame_klog[OF c(3)] by simp
  show "view (binit ?s) = (\<lambda>_. replicate BSIZE 0)" "disk (binit ?s) = (\<lambda>_. replicate BSIZE 0)"
    using arg_cong[OF c(2), of cv_data] arg_cong[OF c(2), of cv_disk] by simp_all
  have "refs (binit ?s) = (\<lambda>_. 0)" "blocked (binit ?s) = (\<lambda>_. False)"
    using arg_cong[OF c(2), of cv_refs] arg_cong[OF c(2), of cv_locked] by simp_all
  then show "txn {} 29 (binit ?s)"
    using c(1) by (simp add: txn_def log_inv_def k op_log_simps NBUF_def)
qed

lemma example_txn:
  "\<exists>s :: log_state. txn {} 28 s \<and> set (logged (klog s)) = {50} \<and> view s 50 = replicate BSIZE 7 \<and>
     disk s = (\<lambda>_. replicate BSIZE 0) \<and> l_start (klog s) = 2 \<and> l_size (klog s) = 30 \<and>
     l_outstanding (klog s) = 1 \<and> l_committing (klog s) = 0"
proof -
  let ?s = "binit (cold_log (\<lambda>_. replicate BSIZE 0) op_log)"
  note e = example_started
  note l = op_log_simps
  have off: "50 \<notin> log_region (klog ?s)" using example_off_log[of op_log] by (simp add: e l)
  have T: "txn {} (Suc 28) ?s" using e(1) by simp
  from wal.modify[OF T, of 50 "\<lambda>_. replicate BSIZE 7"] off obtain s3 where
    "txn {} (if 50 \<in> set (logged (klog ?s)) then Suc 28 else 28) s3"
    "view s3 = (view ?s)(50 := replicate BSIZE 7)" "txn_step {} ?s s3"
    "set (logged (klog s3)) = insert 50 (set (logged (klog ?s)))" by auto
  then show ?thesis using e l by (intro exI[of _ s3]) (auto simp: txn_step_def)
qed

lemma txn_txn_ready: "txn {} k s \<Longrightarrow> txn_ready s"
  using txn_refs_card[of "{}" k s] by (auto simp: txn_ready_def txn_def spare_def log_inv_def)

theorem commit_crash_safe_witness:
  "\<exists>(s :: log_state) s' ws. txn_ready s \<and> set (logged (klog s)) = {50} \<and> commit s = Ret s' \<and> dwrites s' = dwrites s @ ws \<and>
    (\<forall>k D b. reboots mkfs_sb (apply_writes (take k ws) (disk s)) D \<longrightarrow> powered D (b :: log_state) \<longrightarrow>
      (\<exists>b'. initlog 1 mkfs_sb (binit b) = Ret b' \<and>
        disk b' 50 = (if k \<le> 1 then replicate BSIZE 0 else replicate BSIZE 7)))"
proof -
  from example_txn obtain s :: log_state where s: "txn {} 28 s" "set (logged (klog s)) = {50}" "view s 50 = replicate BSIZE 7"
    "disk s = (\<lambda>_. replicate BSIZE 0)" "l_start (klog s) = 2" "l_size (klog s) = 30" by blast
  note r = txn_txn_ready[OF s(1)]
  have off: "50 \<notin> log_region (klog s)" using example_off_log s(5,6) by blast
  have "length (logged (klog s)) = 1" using s(2) r distinct_card[of "logged (klog s)"]
    by (simp add: txn_ready_def log_inv_def)
  then have n: "nat (lh_n (klog s)) = 1"
    using r logged_length[of "klog s"] by (simp add: txn_ready_def log_inv_def)
  have h: "hdr_n (disk s (u32 (l_start (klog s)))) \<le> 0"
    by (simp add: s(4) hdr_n_def get32_def of_bytes_replicate0)
  have g: "l_start (klog s) = sint (sb_logstart mkfs_sb)" "l_size (klog s) = sint (sb_nlog mkfs_sb)"
    by (simp_all add: s(5,6) mkfs_sb_def)
  from commit_crash_safe[OF r g h] obtain s' ws where
    c: "commit s = Ret s'" "dwrites s' = dwrites s @ ws" and
    d: "\<And>k D b. reboots mkfs_sb (apply_writes (take k ws) (disk s)) D \<Longrightarrow> powered D (b :: log_state) \<Longrightarrow>
      \<exists>b'. initlog 1 mkfs_sb (binit b) = Ret b' \<and> (\<forall>x. x \<notin> log_region (klog s) \<longrightarrow>
        disk b' x = (if k \<le> nat (lh_n (klog s)) then disk s x
                     else if x \<in> set (logged (klog s)) then view s x else disk s x))" by blast
  have "\<exists>b'. initlog 1 mkfs_sb (binit b) = Ret b' \<and>
      disk b' 50 = (if k \<le> 1 then replicate BSIZE 0 else replicate BSIZE 7)"
    if "reboots mkfs_sb (apply_writes (take k ws) (disk s)) D" "powered D b" for k D and b :: log_state
    using d[OF that] off n s(2,3,4) by (metis singletonI)
  then show ?thesis using r s(2) c by blast
qed

theorem end_op_durable_witness:
  "\<exists>(s :: log_state) s'. txn {} 28 s \<and> view s 50 = replicate BSIZE 7 \<and> disk s 50 = replicate BSIZE 0 \<and>
     end_op s = Ret s' \<and> disk s' 50 = replicate BSIZE 7 \<and> lh_n (klog s') = 0"
proof -
  from example_txn obtain s :: log_state where s: "txn {} 28 s" "view s 50 = replicate BSIZE 7"
    "disk s = (\<lambda>_. replicate BSIZE 0)" "l_start (klog s) = 2" "l_size (klog s) = 30"
    "l_outstanding (klog s) = 1" "l_committing (klog s) = 0" by blast
  have off: "50 \<notin> log_region (klog s)" using example_off_log s(4,5) by blast
  from end_op_durable[OF s(1,6,7)] obtain s' where "end_op s = Ret s'" "lh_n (klog s') = 0" "disk s' 50 = view s 50"
    using off by force
  then show ?thesis using s(1-3) by auto
qed

end
