(* ===== verification/Vm.thy ===== *)
theory Vm
  imports Proc_Table
begin

text \<open>
  Virtual memory: \<^verbatim>\<open>kernel/vm.c\<close>, the page-table macros of \<^verbatim>\<open>kernel/riscv.h\<close> and the memory map of
  \<^verbatim>\<open>kernel/memlayout.h\<close>. Page tables live in the modelled memory: a table is a page of 512
  eight-byte entries, read and written at their addresses, and its pages come from \<open>kalloc\<close>.
  The null pointer is address 0. Kernel-side buffers that are not pages (a stack variable, a cache
  buffer) are byte lists: \<open>copyout\<close> takes the bytes to copy, \<open>copyin\<close> and \<open>copyinstr\<close> return the
  bytes they have stored at \<open>dst\<close>, also when they fail half way.
\<close>

section \<open>Page-table entries\<close>

abbreviation (input) PTE_V :: uint64 where "PTE_V \<equiv> 1"
abbreviation (input) PTE_R :: uint64 where "PTE_R \<equiv> 2"
abbreviation (input) PTE_W :: uint64 where "PTE_W \<equiv> 4"
abbreviation (input) PTE_X :: uint64 where "PTE_X \<equiv> 8"
abbreviation (input) PTE_U :: uint64 where "PTE_U \<equiv> 16"

abbreviation (input) UART0 :: uint64 where "UART0 \<equiv> 0x10000000"
abbreviation (input) VIRTIO0 :: uint64 where "VIRTIO0 \<equiv> 0x10001000"
abbreviation (input) PLIC :: uint64 where "PLIC \<equiv> 0x0c000000"

definition PA2PTE :: "uint64 \<Rightarrow> uint64" where
  "PA2PTE pa = push_bit 10 (drop_bit 12 pa)"

definition PTE2PA :: "uint64 \<Rightarrow> uint64" where
  "PTE2PA pte = push_bit 12 (drop_bit 10 pte)"

definition PTE_FLAGS :: "uint64 \<Rightarrow> uint64" where
  "PTE_FLAGS pte = pte AND 0x3FF"

definition PXSHIFT :: "nat \<Rightarrow> nat" where
  "PXSHIFT level = 12 + 9 * level"

definition PX :: "nat \<Rightarrow> uint64 \<Rightarrow> uint64" where
  "PX level va = drop_bit (PXSHIFT level) va AND 0x1FF"

text \<open>\<open>&pagetable[i]\<close>, and the test \<open>*pte & PTE_V\<close>.\<close>

definition pte_addr :: "uint64 \<Rightarrow> uint64 \<Rightarrow> uint64" where
  "pte_addr pagetable i = pagetable + 8 * i"

definition valid_pte :: "uint64 \<Rightarrow> bool" where
  "valid_pte pte \<longleftrightarrow> pte AND PTE_V \<noteq> 0"

section \<open>Walking and mapping\<close>

text \<open>The loop of \<open>walk\<close>, from \<open>level\<close> down to 1.\<close>

fun walk_loop :: "nat \<Rightarrow> uint64 \<Rightarrow> uint64 \<Rightarrow> bool \<Rightarrow> 'a kmem_state_scheme \<Rightarrow> uint64 \<times> 'a kmem_state_scheme" where
  "walk_loop 0 pagetable va alloc s = (pte_addr pagetable (PX 0 va), s)"
| "walk_loop (Suc l) pagetable va alloc s =
     (let pte = pte_addr pagetable (PX (Suc l) va);
          v = load64 (mem s) pte
      in if valid_pte v then walk_loop l (PTE2PA v) va alloc s
         else if \<not> alloc then (0, s)
         else let (pg, s) = kalloc s
              in if pg = 0 then (0, s)
                 else walk_loop l pg va alloc
                        (s\<lparr>mem := store64 (memset (mem s) pg 0 4096) pte (PA2PTE pg OR PTE_V)\<rparr>))"

definition walk :: "uint64 \<Rightarrow> uint64 \<Rightarrow> bool \<Rightarrow> 'a kmem_state_scheme \<Rightarrow> (uint64 \<times> 'a kmem_state_scheme) outcome" where
  "walk pagetable va alloc s =
     (if va \<ge> MAXVA then Panic ''walk'' else Ret (walk_loop 2 pagetable va alloc s))"

definition walkaddr :: "uint64 \<Rightarrow> uint64 \<Rightarrow> 'a kmem_state_scheme \<Rightarrow> uint64 outcome" where
  "walkaddr pagetable va s =
     (if va \<ge> MAXVA then Ret 0
      else bindo (walk pagetable va False s) (\<lambda>(pte, s).
        if pte = 0 then Ret 0
        else let v = load64 (mem s) pte
             in if \<not> valid_pte v then Ret 0
                else if v AND PTE_U = 0 then Ret 0
                else Ret (PTE2PA v)))"

lemma walk_Ret: "walk pagetable va alloc s = Ret r \<longleftrightarrow> va < MAXVA \<and> r = walk_loop 2 pagetable va alloc s"
  by (auto simp: walk_def)

text \<open>A loop over pages ends because \<open>walk\<close> panics at \<open>MAXVA\<close>.\<close>

lemma MAXVA_step:
  fixes a :: uint64
  shows "a < MAXVA \<Longrightarrow> unat (MAXVA :: uint64) - unat (a + PGSIZE) < unat (MAXVA :: uint64) - unat a"
proof -
  assume "a < MAXVA"
  then have "unat a < 0x4000000000" by (simp add: word_less_nat_alt)
  moreover from this have "unat (a + PGSIZE) = unat a + 4096" by (simp add: unat_word_ariths)
  ultimately show ?thesis by simp
qed

function mappages_loop ::
  "uint64 \<Rightarrow> uint64 \<Rightarrow> uint64 \<Rightarrow> uint64 \<Rightarrow> uint64 \<Rightarrow> 'a kmem_state_scheme \<Rightarrow> (int \<times> 'a kmem_state_scheme) outcome" where
  "mappages_loop pagetable a alast pa perm s =
     bindo (walk pagetable a True s) (\<lambda>(pte, s).
       if pte = 0 then Ret (- 1, s)
       else if valid_pte (load64 (mem s) pte) then Panic ''mappages: remap''
       else let s = s\<lparr>mem := store64 (mem s) pte (PA2PTE pa OR perm OR PTE_V)\<rparr>
            in if a = alast then Ret (0, s)
               else mappages_loop pagetable (a + PGSIZE) alast (pa + PGSIZE) perm s)"
  by pat_completeness auto
termination
  by (relation "measure (\<lambda>(pagetable, a, alast, pa, perm, s). unat (MAXVA :: uint64) - unat a)")
    (simp_all only: in_measure wf_measure walk_Ret case_prod_conv MAXVA_step)

declare mappages_loop.simps [simp del]

definition mappages ::
  "uint64 \<Rightarrow> uint64 \<Rightarrow> uint64 \<Rightarrow> uint64 \<Rightarrow> uint64 \<Rightarrow> 'a kmem_state_scheme \<Rightarrow> (int \<times> 'a kmem_state_scheme) outcome" where
  "mappages pagetable va sz pa perm s =
     (if sz = 0 then Panic ''mappages: size''
      else mappages_loop pagetable (PGROUNDDOWN va) (PGROUNDDOWN (va + sz - 1)) pa perm s)"

definition kvmmap ::
  "uint64 \<Rightarrow> uint64 \<Rightarrow> uint64 \<Rightarrow> uint64 \<Rightarrow> uint64 \<Rightarrow> 'a kmem_state_scheme \<Rightarrow> 'a kmem_state_scheme outcome" where
  "kvmmap kpgtbl va pa sz perm s =
     bindo (mappages kpgtbl va sz pa perm s) (\<lambda>(r, s). if r \<noteq> 0 then Panic ''kvmmap'' else Ret s)"

function uvmunmap_loop ::
  "uint64 \<Rightarrow> uint64 \<Rightarrow> uint64 \<Rightarrow> bool \<Rightarrow> 'a kmem_state_scheme \<Rightarrow> 'a kmem_state_scheme outcome" where
  "uvmunmap_loop pagetable a stop do_free s =
     (if a < stop
      then bindo (walk pagetable a False s) (\<lambda>(pte, s).
        if pte = 0 then Panic ''uvmunmap: walk''
        else let v = load64 (mem s) pte
             in if \<not> valid_pte v then Panic ''uvmunmap: not mapped''
                else if PTE_FLAGS v = PTE_V then Panic ''uvmunmap: not a leaf''
                else bindo (if do_free then kfree (PTE2PA v) s else Ret s) (\<lambda>s.
                  uvmunmap_loop pagetable (a + PGSIZE) stop do_free (s\<lparr>mem := store64 (mem s) pte 0\<rparr>)))
      else Ret s)"
  by pat_completeness auto
termination
  by (relation "measure (\<lambda>(pagetable, a, stop, do_free, s). unat (MAXVA :: uint64) - unat a)")
    (simp_all only: in_measure wf_measure walk_Ret case_prod_conv MAXVA_step)

declare uvmunmap_loop.simps [simp del]

definition uvmunmap ::
  "uint64 \<Rightarrow> uint64 \<Rightarrow> uint64 \<Rightarrow> bool \<Rightarrow> 'a kmem_state_scheme \<Rightarrow> 'a kmem_state_scheme outcome" where
  "uvmunmap pagetable va npages do_free s =
     (if va mod PGSIZE \<noteq> 0 then Panic ''uvmunmap: not aligned''
      else uvmunmap_loop pagetable va (va + npages * PGSIZE) do_free s)"

section \<open>The kernel page table\<close>

definition proc_mapstacks :: "uint64 \<Rightarrow> 'a kmem_state_scheme \<Rightarrow> 'a kmem_state_scheme outcome" where
  "proc_mapstacks kpgtbl s =
     foldo (\<lambda>p s. let (pa, s) = kalloc s
                  in if pa = 0 then Panic ''kalloc''
                     else kvmmap kpgtbl (KSTACK p) pa PGSIZE (PTE_R OR PTE_W) s) [0..<NPROC] s"

text \<open>\<open>etext\<close> and \<open>trampoline\<close> are linker symbols. \<open>kvmmake\<close> does not test the page it is given.\<close>

definition kvmmake :: "uint64 \<Rightarrow> uint64 \<Rightarrow> 'a kmem_state_scheme \<Rightarrow> (uint64 \<times> 'a kmem_state_scheme) outcome" where
  "kvmmake etext trampoline s =
     (let (kpgtbl, s) = kalloc s
      in if kpgtbl = 0 then Undef
         else bindo (kvmmap kpgtbl UART0 UART0 PGSIZE (PTE_R OR PTE_W) (s\<lparr>mem := memset (mem s) kpgtbl 0 4096\<rparr>)) (\<lambda>s.
              bindo (kvmmap kpgtbl VIRTIO0 VIRTIO0 PGSIZE (PTE_R OR PTE_W) s) (\<lambda>s.
              bindo (kvmmap kpgtbl PLIC PLIC 0x400000 (PTE_R OR PTE_W) s) (\<lambda>s.
              bindo (kvmmap kpgtbl KERNBASE KERNBASE (etext - KERNBASE) (PTE_R OR PTE_X) s) (\<lambda>s.
              bindo (kvmmap kpgtbl etext etext (PHYSTOP - etext) (PTE_R OR PTE_W) s) (\<lambda>s.
              bindo (kvmmap kpgtbl TRAMPOLINE trampoline PGSIZE (PTE_R OR PTE_X) s) (\<lambda>s.
              bindo (proc_mapstacks kpgtbl s) (\<lambda>s.
              Ret (kpgtbl, s)))))))))"

section \<open>User address spaces\<close>

definition uvmcreate :: "'a kmem_state_scheme \<Rightarrow> uint64 \<times> 'a kmem_state_scheme" where
  "uvmcreate s =
     (let (pagetable, s) = kalloc s
      in if pagetable = 0 then (0, s) else (pagetable, s\<lparr>mem := memset (mem s) pagetable 0 4096\<rparr>))"

definition uvmfirst :: "uint64 \<Rightarrow> uchar list \<Rightarrow> 'a kmem_state_scheme \<Rightarrow> 'a kmem_state_scheme outcome" where
  "uvmfirst pagetable src s =
     (if length src \<ge> 4096 then Panic ''uvmfirst: more than a page''
      else let (pg, s) = kalloc s
           in if pg = 0 then Undef
              else bindo (mappages pagetable 0 PGSIZE pg (PTE_W OR PTE_R OR PTE_X OR PTE_U)
                           (s\<lparr>mem := memset (mem s) pg 0 4096\<rparr>)) (\<lambda>(r, s).
                Ret (s\<lparr>mem := store_bytes (mem s) pg src\<rparr>)))"

definition uvmdealloc :: "uint64 \<Rightarrow> uint64 \<Rightarrow> uint64 \<Rightarrow> 'a kmem_state_scheme \<Rightarrow> (uint64 \<times> 'a kmem_state_scheme) outcome" where
  "uvmdealloc pagetable oldsz newsz s =
     (if newsz \<ge> oldsz then Ret (oldsz, s)
      else if PGROUNDUP newsz < PGROUNDUP oldsz
      then bindo (uvmunmap pagetable (PGROUNDUP newsz)
                    (signed_take_bit 31 ((PGROUNDUP oldsz - PGROUNDUP newsz) div PGSIZE)) True s) (\<lambda>s.
             Ret (newsz, s))
      else Ret (newsz, s))"

lemma mappages_loop_MAXVA: "mappages_loop pagetable a alast pa perm s = Ret r \<Longrightarrow> a < MAXVA"
  by (subst (asm) mappages_loop.simps) (auto simp: walk_def split: if_splits)

lemma PGROUNDDOWN_MAXVA: "PGROUNDDOWN a < MAXVA \<Longrightarrow> a < MAXVA"
  by (auto simp: word_less_nat_alt unat_PGROUNDDOWN)

lemma mappages_MAXVA: "mappages pagetable va sz pa perm s = Ret r \<Longrightarrow> va < MAXVA"
  by (auto simp: mappages_def split: if_splits dest: mappages_loop_MAXVA intro: PGROUNDDOWN_MAXVA)

function uvmalloc_loop ::
  "uint64 \<Rightarrow> uint64 \<Rightarrow> uint64 \<Rightarrow> uint64 \<Rightarrow> uint64 \<Rightarrow> 'a kmem_state_scheme \<Rightarrow> (uint64 \<times> 'a kmem_state_scheme) outcome" where
  "uvmalloc_loop pagetable a oldsz newsz xperm s =
     (if a < newsz
      then let (pg, s) = kalloc s
           in if pg = 0
              then bindo (uvmdealloc pagetable a oldsz s) (\<lambda>(_, s). Ret (0, s))
              else bindo (mappages pagetable a PGSIZE pg (PTE_R OR PTE_U OR xperm)
                           (s\<lparr>mem := memset (mem s) pg 0 4096\<rparr>)) (\<lambda>(r, s).
                     if r \<noteq> 0
                     then bindo (kfree pg s) (\<lambda>s.
                          bindo (uvmdealloc pagetable a oldsz s) (\<lambda>(_, s). Ret (0, s)))
                     else uvmalloc_loop pagetable (a + PGSIZE) oldsz newsz xperm s)
      else Ret (newsz, s))"
  by pat_completeness auto
termination
  by (relation "measure (\<lambda>(pagetable, a, oldsz, newsz, xperm, s). unat (MAXVA :: uint64) - unat a)")
    (auto intro: MAXVA_step[simplified] dest: mappages_MAXVA)

declare uvmalloc_loop.simps [simp del]

definition uvmalloc ::
  "uint64 \<Rightarrow> uint64 \<Rightarrow> uint64 \<Rightarrow> uint64 \<Rightarrow> 'a kmem_state_scheme \<Rightarrow> (uint64 \<times> 'a kmem_state_scheme) outcome" where
  "uvmalloc pagetable oldsz newsz xperm s =
     (if newsz < oldsz then Ret (oldsz, s)
      else uvmalloc_loop pagetable (PGROUNDUP oldsz) (PGROUNDUP oldsz) newsz xperm s)"

text \<open>
  \<open>freewalk\<close> recurses along valid entries without permissions. A recursion deeper than the number of
  pages of RAM meets a table it is already working on and never ends.
\<close>

fun freewalk_rec :: "nat \<Rightarrow> uint64 \<Rightarrow> 'a kmem_state_scheme \<Rightarrow> 'a kmem_state_scheme outcome" where
  "freewalk_rec 0 pagetable s = Loops"
| "freewalk_rec (Suc n) pagetable s =
     bindo (foldo (\<lambda>i s.
         let pte = load64 (mem s) (pte_addr pagetable (of_nat i))
         in if valid_pte pte \<and> pte AND (PTE_R OR PTE_W OR PTE_X) = 0
            then bindo (freewalk_rec n (PTE2PA pte) s) (\<lambda>s.
                 Ret (s\<lparr>mem := store64 (mem s) (pte_addr pagetable (of_nat i)) 0\<rparr>))
            else if valid_pte pte then Panic ''freewalk: leaf''
            else Ret s) [0..<512] s)
       (kfree pagetable)"

definition freewalk :: "uint64 \<Rightarrow> 'a kmem_state_scheme \<Rightarrow> 'a kmem_state_scheme outcome" where
  "freewalk = freewalk_rec 0x8001"

definition uvmfree :: "uint64 \<Rightarrow> uint64 \<Rightarrow> 'a kmem_state_scheme \<Rightarrow> 'a kmem_state_scheme outcome" where
  "uvmfree pagetable sz s =
     bindo (if sz > 0 then uvmunmap pagetable 0 (PGROUNDUP sz div PGSIZE) True s else Ret s) (freewalk pagetable)"

text \<open>The loop of \<open>uvmcopy\<close>; on failure it removes the pages mapped so far.\<close>

function uvmcopy_loop ::
  "uint64 \<Rightarrow> uint64 \<Rightarrow> uint64 \<Rightarrow> uint64 \<Rightarrow> 'a kmem_state_scheme \<Rightarrow> (int \<times> 'a kmem_state_scheme) outcome" where
  "uvmcopy_loop old new i sz s =
     (if i < sz
      then bindo (walk old i False s) (\<lambda>(pte, s).
        if pte = 0 then Panic ''uvmcopy: pte should exist''
        else let v = load64 (mem s) pte
             in if \<not> valid_pte v then Panic ''uvmcopy: page not present''
                else let (pg, s) = kalloc s
                     in if pg = 0
                        then bindo (uvmunmap new 0 (i div PGSIZE) True s) (\<lambda>s. Ret (- 1, s))
                        else bindo (mappages new i PGSIZE pg (PTE_FLAGS v)
                                     (s\<lparr>mem := memmove (mem s) pg (PTE2PA v) 4096\<rparr>)) (\<lambda>(r, s).
                               if r \<noteq> 0
                               then bindo (kfree pg s) (\<lambda>s.
                                    bindo (uvmunmap new 0 (i div PGSIZE) True s) (\<lambda>s. Ret (- 1, s)))
                               else uvmcopy_loop old new (i + PGSIZE) sz s))
      else Ret (0, s))"
  by pat_completeness auto
termination
  by (relation "measure (\<lambda>(old, new, i, sz, s). unat (MAXVA :: uint64) - unat i)")
    (auto intro: MAXVA_step[simplified] dest: mappages_MAXVA)

declare uvmcopy_loop.simps [simp del]

definition uvmcopy ::
  "uint64 \<Rightarrow> uint64 \<Rightarrow> uint64 \<Rightarrow> 'a kmem_state_scheme \<Rightarrow> (int \<times> 'a kmem_state_scheme) outcome" where
  "uvmcopy old new sz s = uvmcopy_loop old new 0 sz s"

definition uvmclear :: "uint64 \<Rightarrow> uint64 \<Rightarrow> 'a kmem_state_scheme \<Rightarrow> 'a kmem_state_scheme outcome" where
  "uvmclear pagetable va s =
     bindo (walk pagetable va False s) (\<lambda>(pte, s).
       if pte = 0 then Panic ''uvmclear''
       else Ret (s\<lparr>mem := store64 (mem s) pte (load64 (mem s) pte AND NOT PTE_U)\<rparr>))"

section \<open>Copying between kernel and user memory\<close>

text \<open>The bytes a copy loop handles in its first page: \<open>PGSIZE - (va - va0)\<close>, at most what remains.\<close>

definition in_page :: "uint64 \<Rightarrow> nat \<Rightarrow> nat" where
  "in_page va n = min (unat (PGSIZE - (va - PGROUNDDOWN va))) n"

lemma page_offset: "unat (va - PGROUNDDOWN va) = unat va mod 4096"
proof -
  have "PGROUNDDOWN va \<le> va" by (simp add: word_le_nat_alt unat_PGROUNDDOWN)
  then have "unat (va - PGROUNDDOWN va) = unat va - unat va div 4096 * 4096"
    by (simp add: unat_sub unat_PGROUNDDOWN)
  then show ?thesis by (simp add: minus_div_mult_eq_mod)
qed

lemma in_page_eq: "in_page va n = min (4096 - unat va mod 4096) n"
proof -
  have "va - PGROUNDDOWN va \<le> PGSIZE" by (simp add: word_le_nat_alt page_offset less_imp_le)
  then show ?thesis by (simp add: in_page_def unat_sub page_offset)
qed

lemma in_page_bounds: "0 < n \<Longrightarrow> 0 < in_page va n" "in_page va n \<le> n" "in_page va n \<le> 4096"
  by (auto simp: in_page_eq min_def)

function copyout :: "uint64 \<Rightarrow> uint64 \<Rightarrow> uchar list \<Rightarrow> 'a kmem_state_scheme \<Rightarrow> (int \<times> 'a kmem_state_scheme) outcome" where
  "copyout pagetable dstva src s =
     (if src = [] then Ret (0, s)
      else let va0 = PGROUNDDOWN dstva
           in bindo (walkaddr pagetable va0 s) (\<lambda>pa0.
                if pa0 = 0 then Ret (- 1, s)
                else let n = in_page dstva (length src)
                     in copyout pagetable (va0 + PGSIZE) (drop n src)
                          (s\<lparr>mem := store_bytes (mem s) (pa0 + (dstva - va0)) (take n src)\<rparr>)))"
  by pat_completeness auto
termination
  by (relation "measure (\<lambda>(pagetable, dstva, src, s). length src)") (auto simp: in_page_bounds)

declare copyout.simps [simp del]

function copyin :: "uint64 \<Rightarrow> uint64 \<Rightarrow> nat \<Rightarrow> 'a kmem_state_scheme \<Rightarrow> (int \<times> uchar list) outcome" where
  "copyin pagetable srcva len s =
     (if len = 0 then Ret (0, [])
      else let va0 = PGROUNDDOWN srcva
           in bindo (walkaddr pagetable va0 s) (\<lambda>pa0.
                if pa0 = 0 then Ret (- 1, [])
                else let n = in_page srcva len
                     in bindo (copyin pagetable (va0 + PGSIZE) (len - n) s) (\<lambda>(r, bs).
                          Ret (r, load_bytes (mem s) (pa0 + (srcva - va0)) n @ bs))))"
  by pat_completeness auto
termination
  by (relation "measure (\<lambda>(pagetable, srcva, len, s). len)") (auto simp: in_page_bounds)

declare copyin.simps [simp del]

text \<open>The inner loop of \<open>copyinstr\<close>: copy up to and including a terminator, and say whether one was met.\<close>

fun copy_str :: "uchar list \<Rightarrow> uchar list \<times> bool" where
  "copy_str [] = ([], False)"
| "copy_str (c # cs) = (if c = 0 then ([0], True) else let (bs, got) = copy_str cs in (c # bs, got))"

function copyinstr :: "uint64 \<Rightarrow> uint64 \<Rightarrow> nat \<Rightarrow> 'a kmem_state_scheme \<Rightarrow> (int \<times> uchar list) outcome" where
  "copyinstr pagetable srcva mx s =
     (if mx = 0 then Ret (- 1, [])
      else let va0 = PGROUNDDOWN srcva
           in bindo (walkaddr pagetable va0 s) (\<lambda>pa0.
                if pa0 = 0 then Ret (- 1, [])
                else let n = in_page srcva mx;
                         (bs, got_null) = copy_str (load_bytes (mem s) (pa0 + (srcva - va0)) n)
                     in if got_null then Ret (0, bs)
                        else bindo (copyinstr pagetable (va0 + PGSIZE) (mx - n) s) (\<lambda>(r, cs). Ret (r, bs @ cs))))"
  by pat_completeness auto
termination
  by (relation "measure (\<lambda>(pagetable, srcva, mx, s). mx)") (auto simp: in_page_bounds)

declare copyinstr.simps [simp del]

end
