(* ===== verification/Vm_Laws.thy ===== *)
theory Vm_Laws
  imports Vm
begin

text \<open>
  What page tables mean. \<open>node m pt p\<close> is the table page reached from the root \<open>pt\<close> along the entry
  indices \<open>p\<close>, and \<open>leaf m pt va\<close> the entry that translates \<open>va\<close> (0 when a table is missing).
  The invariant \<open>pt_ok\<close> says that the table pages of an address space are distinct allocated
  pages. Walking with allocation changes no translation; mapping and unmapping change exactly
  the translations of the pages they are given.
\<close>

section \<open>Entries and indices\<close>

lemma take_bit_self_iff:
  fixes w :: uint64
  assumes "k < 64"
  shows "take_bit k w = w \<longleftrightarrow> w < 2 ^ k"
proof -
  have "(2 :: nat) ^ k < 2 ^ 64" using assms by (intro power_strict_increasing) simp_all
  then have "unat (of_nat (2 ^ k) :: uint64) = 2 ^ k" by (simp add: unat_of_nat del: of_nat_power)
  then have "unat (2 ^ k :: uint64) = 2 ^ k" by simp
  then have "take_bit k w = w \<longleftrightarrow> unat w mod 2 ^ k = unat w" and "w < 2 ^ k \<longleftrightarrow> unat w < 2 ^ k"
    by (simp_all add: word_unat_eq_iff take_bit_eq_mod unat_mod word_less_nat_alt)
  then show ?thesis by (metis mod_less mod_less_divisor zero_less_numeral zero_less_power)
qed

lemma PX_less: "PX l va < 512"
proof -
  have m: "(0x1FF :: uint64) = mask 9" by (simp add: mask_eq_exp_minus_1)
  have "take_bit 9 (PX l va) = PX l va" unfolding PX_def m by (simp flip: take_bit_eq_mask)
  then show ?thesis using take_bit_self_iff[of 9 "PX l va"] by simp
qed

lemma bit_PX: "bit (PX l va) n \<longleftrightarrow> n < 9 \<and> bit va (12 + 9 * l + n)"
proof -
  have m: "(0x1FF :: uint64) = mask 9" by (simp add: mask_eq_exp_minus_1)
  show ?thesis unfolding PX_def m by (auto simp: bit_simps PXSHIFT_def dest: bit_imp_le_length)
qed

lemma small_bits:
  fixes w :: uint64
  assumes "w < 2 ^ k" "k < 64" "k \<le> n"
  shows "\<not> bit w n"
proof -
  have "take_bit k w = w" using assms(1,2) by (simp add: take_bit_self_iff)
  then have "bit w n = bit (take_bit k w) n" by simp
  then show ?thesis using assms(3) by (simp add: bit_take_bit_iff)
qed

lemma aligned_bits: "page_aligned p \<Longrightarrow> n < 12 \<Longrightarrow> \<not> bit p n"
proof -
  assume a: "page_aligned p" and n: "n < 12"
  have "take_bit 12 p = 0" using a by (simp add: page_aligned_def take_bit_eq_mod)
  then have "\<not> bit (take_bit 12 p) n" by simp
  then show ?thesis using n by (simp add: bit_take_bit_iff)
qed

lemma PTE2PA_PA2PTE:
  assumes "page_aligned pa" "pa < 2 ^ 56" "w < 1024"
  shows "PTE2PA (PA2PTE pa OR w) = pa"
proof (rule bit_word_eqI)
  fix n assume n: "n < LENGTH(64)"
  have w: "\<not> bit w k" if "10 \<le> k" for k using small_bits[of w 10 k] assms(3) that by simp
  have hi: "\<not> bit pa n" if "56 \<le> n" using small_bits[of pa 56 n] assms(2) that by simp
  have lo: "\<not> bit pa n" if "n < 12" using aligned_bits[OF assms(1) that] .
  show "bit (PTE2PA (PA2PTE pa OR w)) n = bit pa n"
    unfolding PTE2PA_def PA2PTE_def using n w hi lo by (cases "n < 12") (auto simp: bit_simps not_less)
qed

lemma valid_PTE: "valid_pte (x OR w OR 1)" "valid_pte (x OR 1)" "\<not> valid_pte 0"
  by (simp_all add: valid_pte_def bit_eq_iff) (simp_all add: bit_simps)

lemma PTE_FLAGS_PTE:
  assumes "w < 1024"
  shows "PTE_FLAGS (PA2PTE pa OR w) = w"
proof (rule bit_word_eqI)
  fix n assume n: "n < LENGTH(64)"
  have m: "(0x3FF :: uint64) = mask 10" by (simp add: mask_eq_exp_minus_1)
  have w: "\<not> bit w k" if "10 \<le> k" for k using small_bits[of w 10 k] assms that by simp
  show "bit (PTE_FLAGS (PA2PTE pa OR w)) n = bit w n"
    unfolding PTE_FLAGS_def PA2PTE_def m using n w by (cases "n < 10") (auto simp: bit_simps not_less)
qed

text \<open>Two addresses below \<open>MAXVA\<close> with the same indices lie in the same page.\<close>

lemma PX_page_eq:
  assumes "va < MAXVA" "vb < MAXVA" "PX 2 va = PX 2 vb" "PX 1 va = PX 1 vb" "PX 0 va = PX 0 vb"
  shows "PGROUNDDOWN va = PGROUNDDOWN vb"
proof (rule bit_word_eqI)
  fix n assume n: "n < LENGTH(64)"
  have m: "(4095 :: uint64) = mask 12" by (simp add: mask_eq_exp_minus_1)
  have hi: "\<not> bit va n \<and> \<not> bit vb n" if "38 \<le> n"
    using small_bits[of va 38 n] small_bits[of vb 38 n] assms(1,2) that by simp
  have "bit va n = bit vb n" if "12 \<le> n" "n < 39"
  proof -
    have "bit (PX l va) (n - 12 - 9 * l) = bit (PX l vb) (n - 12 - 9 * l)" if "l \<le> 2" for l
      using assms(3-5) that by (cases "l = 0"; cases "l = 1") (auto simp: numeral_2_eq_2 le_Suc_eq)
    from this[of 0] this[of 1] this[of 2] show ?thesis
      using that by (cases "n < 21"; cases "n < 30") (auto simp: bit_PX)
  qed
  then show "bit (PGROUNDDOWN va) n = bit (PGROUNDDOWN vb) n"
    unfolding PGROUNDDOWN_def using hi n by (cases "n < 39") (auto simp: m bit_simps)
qed

lemma PX_page:
  assumes "page_aligned a"
  shows "PGROUNDDOWN a = a"
  using assms by (auto simp: word_unat_eq_iff unat_PGROUNDDOWN aligned_iff_unat)

section \<open>The tree of table pages\<close>

fun node :: "memory \<Rightarrow> uint64 \<Rightarrow> uint64 list \<Rightarrow> uint64 option" where
  "node m pt [] = Some pt"
| "node m pt (i # p) =
     (let v = load64 m (pte_addr pt i) in if valid_pte v then node m (PTE2PA v) p else None)"

definition vpath :: "uint64 \<Rightarrow> uint64 list" where
  "vpath va = [PX 2 va, PX 1 va]"

definition leaf :: "memory \<Rightarrow> uint64 \<Rightarrow> uint64 \<Rightarrow> uint64" where
  "leaf m pt va = (case node m pt (vpath va) of None \<Rightarrow> 0 | Some t \<Rightarrow> load64 m (pte_addr t (PX 0 va)))"

definition paths :: "uint64 list set" where
  "paths = {p. length p \<le> 2 \<and> (\<forall>i \<in> set p. i < 512)}"

definition nodes :: "memory \<Rightarrow> uint64 \<Rightarrow> uint64 set" where
  "nodes m pt = {t. \<exists>p \<in> paths. node m pt p = Some t}"

text \<open>
  The table pages of \<open>pt\<close> are distinct allocated pages: a page is reached along one path only, and
  none is in the pool \<open>F\<close> of free pages.
\<close>

definition pt_ok :: "'a kmem_state_scheme \<Rightarrow> uint64 list \<Rightarrow> uint64 \<Rightarrow> bool" where
  "pt_ok s F pt \<longleftrightarrow> free_pages s F \<and> kend s \<ge> KERNBASE \<and>
     (\<forall>t \<in> nodes (mem s) pt. is_page s t \<and> t \<notin> set F) \<and>
     (\<forall>p \<in> paths. \<forall>q \<in> paths. \<forall>t. node (mem s) pt p = Some t \<longrightarrow> node (mem s) pt q = Some t \<longrightarrow> p = q)"

lemma node_snoc:
  "node m pt (p @ [i]) = (case node m pt p of None \<Rightarrow> None
     | Some t \<Rightarrow> if valid_pte (load64 m (pte_addr t i)) then Some (PTE2PA (load64 m (pte_addr t i))) else None)"
  by (induction p arbitrary: pt) (auto simp: Let_def)

lemma paths_snoc: "p @ [i] \<in> paths \<longleftrightarrow> p \<in> paths \<and> length p < 2 \<and> i < 512"
  by (auto simp: paths_def)

lemma vpath_paths [simp]: "vpath va \<in> paths"
  by (simp add: vpath_def paths_def PX_less)

lemma take_vpath_paths [simp]: "take n (vpath va) \<in> paths"
  using PX_less[of 2 va] PX_less[of 1 va] by (auto simp: vpath_def paths_def take_Cons')

lemma nodesI: "node m pt p = Some t \<Longrightarrow> p \<in> paths \<Longrightarrow> t \<in> nodes m pt"
  by (auto simp: nodes_def)

lemma pte_offset:
  assumes "unat (x - pte_addr t i) < 8" "i < 512"
  shows "unat (x - t) = unat (x - pte_addr t i) + 8 * unat i"
proof -
  have i: "unat (8 * i) = 8 * unat i" "unat i < 512"
    using assms(2) by (simp_all add: word_less_nat_alt unat_word_ariths)
  have "x - t = (x - pte_addr t i) + 8 * i" by (simp add: pte_addr_def algebra_simps)
  moreover have "unat ((x - pte_addr t i) + 8 * i) = unat (x - pte_addr t i) + 8 * unat i"
    using assms(1) i by (subst unat_word_ariths) simp
  ultimately show ?thesis by (simp only:)
qed

lemma pte_span: "i < 512 \<Longrightarrow> span (pte_addr t i) 8 \<subseteq> span t 4096"
proof
  fix x assume i: "i < 512" and "x \<in> span (pte_addr t i) 8"
  then have x: "unat (x - pte_addr t i) < 8" by (simp add: span_def)
  have "unat i < 512" using i by (simp add: word_less_nat_alt)
  then show "x \<in> span t 4096" using pte_offset[OF x i] x by (simp add: span_def)
qed

lemma pte_disjoint:
  assumes "page_aligned t" "i < 512" "page_aligned t'" "i' < 512" "t \<noteq> t' \<or> i \<noteq> i'"
  shows "span (pte_addr t i) 8 \<inter> span (pte_addr t' i') 8 = {}"
proof (cases "t = t'")
  case False
  then show ?thesis using pte_span[OF assms(2)] pte_span[OF assms(4)] page_disjoint[OF assms(1,3)] by blast
next
  case True
  show ?thesis
  proof (rule ccontr)
    assume "\<not> ?thesis"
    then obtain x where x: "unat (x - pte_addr t i) < 8" "unat (x - pte_addr t i') < 8"
      using True by (auto simp: span_def)
    have "unat (x - t) div 8 = unat i" "unat (x - t) div 8 = unat i'"
      using pte_offset[OF x(1) assms(2)] pte_offset[OF x(2) assms(4)] x by auto
    then show False using True assms(5) by (simp add: word_unat_eq_iff)
  qed
qed

text \<open>The tree only depends on the entries of its inner tables.\<close>

lemma node_cong:
  assumes "\<And>p t i. p \<in> paths \<Longrightarrow> length p < 2 \<Longrightarrow> node m pt p = Some t \<Longrightarrow> i < 512 \<Longrightarrow>
      load64 m' (pte_addr t i) = load64 m (pte_addr t i)"
    and "q \<in> paths"
  shows "node m' pt q = node m pt q"
  using assms(2)
proof (induction q rule: rev_induct)
  case (snoc i p)
  then have p: "p \<in> paths" "length p < 2" "i < 512" by (simp_all add: paths_snoc)
  then show ?case using snoc.IH assms(1)[OF p(1,2) _ p(3)]
    by (auto simp: node_snoc split: option.splits)
qed simp

definition tree :: "memory \<Rightarrow> uint64 \<Rightarrow> bool" where
  "tree m pt \<longleftrightarrow> (\<forall>t \<in> nodes m pt. page_aligned t) \<and>
     (\<forall>p \<in> paths. \<forall>q \<in> paths. \<forall>t. node m pt p = Some t \<longrightarrow> node m pt q = Some t \<longrightarrow> p = q)"

lemma treeD:
  assumes "tree m pt"
  shows "t \<in> nodes m pt \<Longrightarrow> page_aligned t"
    "p \<in> paths \<Longrightarrow> q \<in> paths \<Longrightarrow> node m pt p = Some t \<Longrightarrow> node m pt q = Some t \<Longrightarrow> p = q"
  using assms by (auto simp: tree_def)

text \<open>Writing an entry of a last-level table changes that one translation.\<close>

lemma store_leaf:
  assumes tree: "tree m pt"
    and t: "node m pt q = Some t" "q \<in> paths" "length q = 2" and i: "i < 512"
    and m'_def: "m' = store64 m (pte_addr t i) w"
  shows "p \<in> paths \<Longrightarrow> node m' pt p = node m pt p"
    "leaf m' pt va = (if vpath va = q \<and> PX 0 va = i then w else leaf m pt va)"
proof -
  note al = treeD(1)[OF tree] and inj = treeD(2)[OF tree]
  have at: "page_aligned t" using al nodesI[OF t(1,2)] by blast
  have other: "load64 m' (pte_addr u j) = load64 m (pte_addr u j)"
    if "page_aligned u" "j < 512" "u \<noteq> t \<or> j \<noteq> i" for u j
    unfolding m'_def using pte_disjoint[OF at i that(1,2)] that(3) by (intro load64_store64_other) auto
  have n: "node m' pt p = node m pt p" if "p \<in> paths" for p
  proof (rule node_cong[OF _ that])
    fix p' u and j :: uint64 assume p': "p' \<in> paths" "length p' < 2" "node m pt p' = Some u" "j < 512"
    have "u \<noteq> t" using inj[OF p'(1) t(2) p'(3)] t(1,3) p'(2) by auto
    then show "load64 m' (pte_addr u j) = load64 m (pte_addr u j)"
      using other p'(4) al[OF nodesI[OF p'(3,1)]] by blast
  qed
  then show "p \<in> paths \<Longrightarrow> node m' pt p = node m pt p" .
  show "leaf m' pt va = (if vpath va = q \<and> PX 0 va = i then w else leaf m pt va)"
  proof (cases "node m pt (vpath va)")
    case None
    then show ?thesis using n[of "vpath va"] t(1) by (auto simp: leaf_def)
  next
    case (Some u)
    have au: "page_aligned u" using al nodesI[OF Some] by simp
    have "u = t \<longleftrightarrow> vpath va = q" using inj[OF _ t(2) Some] Some t(1) by auto
    then show ?thesis
      using Some n[of "vpath va"] other[OF au PX_less, of 0 va] by (auto simp: leaf_def m'_def)
  qed
qed

text \<open>Hanging a fresh empty table below an inner one changes no translation.\<close>

lemma store_table:
  assumes tree: "tree m pt"
    and t: "node m pt q = Some t" "q \<in> paths" "length q < 2" and i: "i < 512"
    and new: "\<not> valid_pte (load64 m (pte_addr t i))"
    and pg: "page_aligned pg" "pg < 2 ^ 56" "pg \<notin> nodes m pt"
    and m1: "\<And>x. x \<notin> span pg 4096 \<Longrightarrow> m1 x = m x" "\<And>j. j < 512 \<Longrightarrow> load64 m1 (pte_addr pg j) = 0"
    and m'_def: "m' = store64 m1 (pte_addr t i) (PA2PTE pg OR 1)"
  shows "p \<in> paths \<Longrightarrow> node m' pt p = (if p = q @ [i] then Some pg else node m pt p)"
    "leaf m' pt va = leaf m pt va"
proof -
  note al = treeD(1)[OF tree] and inj = treeD(2)[OF tree]
  have at: "page_aligned t" using al nodesI[OF t(1,2)] by blast
  have tpg: "t \<noteq> pg" using nodesI[OF t(1,2)] pg(3) by auto
  have z: "load64 m' (pte_addr pg j) = 0" if "j < 512" for j
    unfolding m'_def using pte_disjoint[OF at i pg(1) that] tpg m1(2)[OF that] by (subst load64_store64_other) auto
  have other: "load64 m' (pte_addr u j) = load64 m (pte_addr u j)"
    if "u \<in> nodes m pt" "j < 512" "u \<noteq> t \<or> j \<noteq> i" for u j
  proof -
    have u: "page_aligned u" "u \<noteq> pg" using al that(1) pg(3) by auto
    have "load64 m1 (pte_addr u j) = load64 m (pte_addr u j)"
      using pte_span[OF that(2), of u] page_disjoint[OF u(1) pg(1) u(2)] m1(1) by (intro load64_cong) auto
    then show ?thesis
      unfolding m'_def using pte_disjoint[OF at i u(1) that(2)] that(3) by (subst load64_store64_other) auto
  qed
  have ti: "load64 m' (pte_addr t i) = PA2PTE pg OR 1" by (simp add: m'_def)
  have n: "node m' pt p = (if p = q @ [i] then Some pg else node m pt p)" if "p \<in> paths" for p
    using that
  proof (induction p rule: rev_induct)
    case (snoc j p)
    then have p: "p \<in> paths" "length p < 2" "j < 512" by (simp_all add: paths_snoc)
    note IH = snoc.IH[OF p(1)]
    show ?case
    proof (cases "p = q @ [i]")
      case True
      have "node m pt (p @ [j]) = None" using t(1) new by (simp add: True node_snoc del: append_assoc)
      moreover have "node m' pt (p @ [j]) = None"
        using IH True z[OF p(3)] valid_PTE(3) node_snoc[of m' pt p j] by simp
      ultimately show ?thesis using True by simp
    next
      case False
      show ?thesis
      proof (cases "node m pt p")
        case None
        then have "p \<noteq> q" using t(1) by auto
        then show ?thesis using None IH False by (simp add: node_snoc)
      next
        case (Some u)
        have "u = t \<longleftrightarrow> p = q" using inj[OF p(1) t(2) Some] Some t(1) by auto
        then show ?thesis
          using Some IH False other[OF nodesI[OF Some p(1)] p(3)] ti valid_PTE(2)[of "PA2PTE pg"]
            PTE2PA_PA2PTE[OF pg(1,2), of 1]
          by (cases "p = q \<and> j = i") (auto simp: node_snoc)
      qed
    qed
  qed simp
  then show "p \<in> paths \<Longrightarrow> node m' pt p = (if p = q @ [i] then Some pg else node m pt p)" .
  show "leaf m' pt va = leaf m pt va"
  proof (cases "vpath va = q @ [i]")
    case True
    then have "node m pt (vpath va) = None" using t(1) new by (simp add: node_snoc)
    moreover have "node m' pt (vpath va) = Some pg" using n[OF vpath_paths] True by metis
    ultimately show ?thesis using z[OF PX_less] by (simp add: leaf_def)
  next
    case False
    show ?thesis
    proof (cases "node m pt (vpath va)")
      case (Some u)
      have "u \<noteq> t" using inj[OF vpath_paths t(2) Some] t(1,3) by (auto simp: vpath_def)
      then show ?thesis
        using Some n[of "vpath va"] False other[OF nodesI[OF Some] PX_less] by (simp add: leaf_def)
    qed (use n[of "vpath va"] False in \<open>simp add: leaf_def\<close>)
  qed
qed

section \<open>Walking with allocation\<close>

text \<open>
  \<open>vm_step pt s F s' F'\<close>: from \<open>s\<close> to \<open>s'\<close> the address space \<open>pt\<close> has taken the pages that \<open>F'\<close>
  lacks of the pool \<open>F\<close> as tables, and no memory outside its tables has changed. \<open>grows\<close> says that
  no translation has changed either.
\<close>

definition vm_step :: "uint64 \<Rightarrow> 'a kmem_state_scheme \<Rightarrow> uint64 list \<Rightarrow> 'a kmem_state_scheme \<Rightarrow> uint64 list \<Rightarrow> bool" where
  "vm_step pt s F s' F' \<longleftrightarrow> pt_ok s' F' pt \<and> kend s' = kend s \<and> kmem_state.more s' = kmem_state.more s \<and>
     (\<exists>A. F = A @ F' \<and> nodes (mem s') pt = nodes (mem s) pt \<union> set A) \<and>
     (\<forall>x. (\<forall>t \<in> nodes (mem s') pt. x \<notin> span t 4096) \<longrightarrow> mem s' x = mem s x)"

definition grows :: "uint64 \<Rightarrow> 'a kmem_state_scheme \<Rightarrow> uint64 list \<Rightarrow> 'a kmem_state_scheme \<Rightarrow> uint64 list \<Rightarrow> bool" where
  "grows pt s F s' F' \<longleftrightarrow> vm_step pt s F s' F' \<and> (\<forall>va. leaf (mem s') pt va = leaf (mem s) pt va)"

lemma vm_step_trans:
  assumes "vm_step pt s F s1 F1" "vm_step pt s1 F1 s2 F2"
  shows "vm_step pt s F s2 F2"
proof -
  obtain A B where AB: "F = A @ F1" "nodes (mem s1) pt = nodes (mem s) pt \<union> set A"
    "F1 = B @ F2" "nodes (mem s2) pt = nodes (mem s1) pt \<union> set B"
    using assms by (auto simp: vm_step_def)
  have "F = (A @ B) @ F2 \<and> nodes (mem s2) pt = nodes (mem s) pt \<union> set (A @ B)" using AB by auto
  moreover have "mem s2 x = mem s x" if "\<forall>t \<in> nodes (mem s2) pt. x \<notin> span t 4096" for x
    using that assms AB(4) by (simp add: vm_step_def)
  ultimately show ?thesis using assms unfolding vm_step_def by metis
qed

lemma vm_step_pt_ok: "vm_step pt s F s' F' \<Longrightarrow> pt_ok s' F' pt"
  by (simp add: vm_step_def)

lemma grows_refl: "pt_ok s F pt \<Longrightarrow> grows pt s F s F"
  by (auto simp: grows_def vm_step_def)

lemma grows_trans: "grows pt s F s1 F1 \<Longrightarrow> grows pt s1 F1 s2 F2 \<Longrightarrow> grows pt s F s2 F2"
  by (auto simp: grows_def intro: vm_step_trans)

lemma pt_ok_tree: "pt_ok s F pt \<Longrightarrow> tree (mem s) pt"
  by (auto simp: pt_ok_def is_page_def tree_def)

lemma free_pages_frame:
  assumes "free_pages s F" "\<And>p x. p \<in> set F \<Longrightarrow> x \<in> span p 4096 \<Longrightarrow> mem s' x = mem s x"
    "freelist s' = freelist s" "kend s' = kend s"
  shows "free_pages s' F"
proof -
  have "chain (mem s') (freelist s) F = chain (mem s) (freelist s) F"
    using assms(2) subsetD[OF span_mono[of 8 4096]] by (intro chain_cong load64_cong) auto
  then show ?thesis using assms by (simp add: free_pages_def is_page_def)
qed

lemma load64_zero_page:
  assumes "j < 512"
  shows "load64 (memset m pg 0 4096) (pte_addr pg j) = 0"
proof -
  have "memset m pg 0 4096 x = 0" if "x \<in> span pg 4096" for x
    using that by (simp add: memset_eq_store store_bytes_def span_def)
  then have "load64 (memset m pg 0 4096) (pte_addr pg j) = load64 (\<lambda>_. 0) (pte_addr pg j)"
    using pte_span[OF assms, of pg] by (intro load64_cong) auto
  also have "\<dots> = 0" by (simp add: load64_def load_bytes_def numeral_eq_Suc)
  finally show ?thesis .
qed

lemma page_below: "is_page s t \<Longrightarrow> t < 2 ^ 56"
  by (auto simp: is_page_def word_less_nat_alt)

lemma pte_nonnull:
  assumes "is_page s t" "i < 512"
  shows "pte_addr t i \<noteq> 0"
proof -
  have "unat i < 512" "0 < unat t" "unat t < 0x88000000"
    using assms by (auto simp: is_page_def word_less_nat_alt unat_gt_0)
  then have "unat (pte_addr t i) = unat t + 8 * unat i" by (simp add: pte_addr_def unat_word_ariths)
  then show ?thesis using \<open>0 < unat t\<close> by auto
qed

text \<open>One turn of the loop of \<open>walk\<close> that allocates a table.\<close>

lemma walk_new_table:
  assumes ok: "pt_ok s (pg # F) pt"
    and t: "node (mem s) pt q = Some t" "q \<in> paths" "length q < 2" and i: "i < 512"
    and new: "\<not> valid_pte (load64 (mem s) (pte_addr t i))"
    and s': "s' = (snd (kalloc s))\<lparr>mem := store64 (memset (mem (snd (kalloc s))) pg 0 4096) (pte_addr t i) (PA2PTE pg OR 1)\<rparr>"
  shows "grows pt s (pg # F) s' F" "node (mem s') pt (q @ [i]) = Some pg"
proof -
  have fp: "free_pages s (pg # F)" and pg: "is_page s pg" "pg \<notin> set F" "pg \<notin> nodes (mem s) pt"
    using ok by (auto simp: pt_ok_def free_pages_def)
  have tn: "t \<in> nodes (mem s) pt" using nodesI[OF t(1,2)] .
  let ?m1 = "memset (mem (snd (kalloc s))) pg 0 4096"
  have m1: "x \<notin> span pg 4096 \<Longrightarrow> ?m1 x = mem s x" for x
    using kalloc_Cons[OF fp] by (simp add: memset_page_outside)
  have m': "mem s' = store64 ?m1 (pte_addr t i) (PA2PTE pg OR 1)" by (simp add: s')
  have al: "page_aligned pg" using pg(1) by (simp add: is_page_def)
  note st = store_table[OF pt_ok_tree[OF ok] t i new al page_below[OF pg(1)] pg(3) m1 load64_zero_page m']
  have n: "node (mem s') pt p = (if p = q @ [i] then Some pg else node (mem s) pt p)" if "p \<in> paths" for p
    using st(1) that by simp
  have qi: "q @ [i] \<in> paths" using t i by (simp add: paths_snoc)
  show "node (mem s') pt (q @ [i]) = Some pg" using n[OF qi] by simp
  have none: "node (mem s) pt (q @ [i]) = None" using t(1) new by (simp add: node_snoc)
  have nodes': "nodes (mem s') pt = insert pg (nodes (mem s) pt)"
    using n qi none unfolding nodes_def by (auto split: if_splits) (metis option.distinct(1))
  have out: "mem s' x = mem s x" if "x \<notin> span pg 4096" "x \<notin> span t 4096" for x
    unfolding m' using that m1 pte_span[OF i, of t] by (subst store64_outside) auto
  have "free_pages (snd (kalloc s)) F" using free_pages_kalloc[OF fp] .
  moreover have "mem s' x = mem (snd (kalloc s)) x" if "p \<in> set F" "x \<in> span p 4096" for p x
  proof -
    have "is_page s p" "p \<noteq> pg" "p \<noteq> t" using that(1) fp pg ok tn by (auto simp: free_pages_def pt_ok_def)
    then have "x \<notin> span pg 4096" "x \<notin> span t 4096"
      using page_disjoint[of p pg] page_disjoint[of p t] al that(2) treeD(1)[OF pt_ok_tree[OF ok] tn] by (auto simp: is_page_def)
    then show ?thesis using out kalloc_Cons[OF fp] by (simp add: memset_page_outside)
  qed
  ultimately have f': "free_pages s' F"
    by (rule free_pages_frame) (simp_all add: s')
  have k: "kend s' = kend s" "kmem_state.more s' = kmem_state.more s" using kalloc_Cons[OF fp] by (simp_all add: s')
  have "pt_ok s' F pt"
    unfolding pt_ok_def
  proof (intro conjI ballI allI impI)
    show "free_pages s' F" by (fact f')
    show "kend s' \<ge> KERNBASE" using ok k by (simp add: pt_ok_def)
    fix u assume "u \<in> nodes (mem s') pt"
    then show "is_page s' u" "u \<notin> set F" using nodes' ok pg k by (auto simp: pt_ok_def is_page_def)
  next
    fix p p' u assume "p \<in> paths" "p' \<in> paths" "node (mem s') pt p = Some u" "node (mem s') pt p' = Some u"
    then show "p = p'" using n pg(3) nodesI treeD(2)[OF pt_ok_tree[OF ok]] by (auto split: if_splits)
  qed
  then show "grows pt s (pg # F) s' F"
    unfolding grows_def vm_step_def using k nodes' out tn st(2) by (auto intro!: exI[of _ "[pg]"])
qed

lemma walk_loop_alloc:
  assumes "pt_ok s F pt" "l \<le> 2" "node (mem s) pt (take (2 - l) (vpath va)) = Some t"
    "walk_loop l t va True s = (r, s')"
  shows "\<exists>F'. grows pt s F s' F' \<and> (r = 0 \<and> F' = [] \<and> length F < l \<or>
    length F \<le> length F' + l \<and> (\<exists>u. node (mem s') pt (vpath va) = Some u \<and> r = pte_addr u (PX 0 va) \<and> r \<noteq> 0))"
  using assms
proof (induction l arbitrary: s F t)
  case 0
  have "t \<in> nodes (mem s) pt" using nodesI[OF 0(3) take_vpath_paths] .
  then have "pte_addr t (PX 0 va) \<noteq> 0"
    using 0(1) pte_nonnull[of s t, OF _ PX_less] by (simp add: pt_ok_def)
  then show ?case using 0 grows_refl[OF 0(1)] by (auto simp: vpath_def)
next
  case (Suc l)
  let ?q = "take (2 - Suc l) (vpath va)" and ?i = "PX (Suc l) va"
  have q: "?q \<in> paths" "length ?q < 2" "take (2 - l) (vpath va) = ?q @ [?i]"
    using Suc.prems(2) take_vpath_paths by (auto simp: vpath_def le_Suc_eq numeral_2_eq_2)
  show ?case
  proof (cases "valid_pte (load64 (mem s) (pte_addr t ?i))")
    case True
    then show ?thesis
      using Suc.IH[of s F "PTE2PA (load64 (mem s) (pte_addr t ?i))"] Suc.prems q(3)
      by (auto simp: node_snoc Let_def)
  next
    case False
    from Suc.prems(1) have "free_pages s F" by (simp add: pt_ok_def)
    then show ?thesis
    proof (cases rule: kmem.alloc_cases)
      case none
      then show ?thesis using Suc.prems False grows_refl by (auto simp: Let_def)
    next
      case (some pg F1 s1)
      let ?s = "s1\<lparr>mem := store64 (memset (mem s1) pg 0 4096) (pte_addr t ?i) (PA2PTE pg OR 1)\<rparr>"
      have ok: "pt_ok s (pg # F1) pt" using Suc.prems(1) some(1) by simp
      note new = walk_new_table[OF ok Suc.prems(3) q(1,2) PX_less False, of ?s]
      have g: "grows pt s (pg # F1) ?s F1" "node (mem ?s) pt (?q @ [?i]) = Some pg"
        using new some(2) by simp_all
      have w: "walk_loop l pg va True ?s = (r, s')" using Suc.prems(4) False some by (simp add: Let_def)
      have "pt_ok ?s F1 pt" using g(1) by (simp add: grows_def vm_step_def)
      from Suc.IH[OF this _ _ w] show ?thesis
        using grows_trans[OF g(1)] some(1) g(2) q(3) Suc.prems(2) by auto
    qed
  qed
qed

lemma walk_loop_noalloc:
  assumes "l \<le> 2" "node (mem s) pt (take (2 - l) (vpath va)) = Some t"
  shows "walk_loop l t va False s =
    (case node (mem s) pt (vpath va) of None \<Rightarrow> 0 | Some u \<Rightarrow> pte_addr u (PX 0 va), s)"
  using assms
proof (induction l arbitrary: t)
  case 0
  then show ?case by (simp add: vpath_def)
next
  case (Suc l)
  let ?q = "take (2 - Suc l) (vpath va)" and ?i = "PX (Suc l) va"
  have q: "take (2 - l) (vpath va) = ?q @ [?i]"
    using Suc.prems(1) by (auto simp: vpath_def le_Suc_eq numeral_2_eq_2)
  have "node (mem s) pt (vpath va) = None" if "node (mem s) pt (?q @ [?i]) = None"
    using that Suc.prems(1) by (auto simp: vpath_def le_Suc_eq numeral_2_eq_2 Let_def split: if_splits)
  then show ?case
    using Suc.IH[of "PTE2PA (load64 (mem s) (pte_addr t ?i))"] Suc.prems q
    by (cases "valid_pte (load64 (mem s) (pte_addr t ?i))") (simp_all add: node_snoc Let_def)
qed

lemma walk_alloc:
  assumes "pt_ok s F pt" "va < MAXVA"
  obtains (nomem) s' where "walk pt va True s = Ret (0, s')" "grows pt s F s' []" "length F < 2"
  | (found) s' F' u where "walk pt va True s = Ret (pte_addr u (PX 0 va), s')" "grows pt s F s' F'"
      "node (mem s') pt (vpath va) = Some u" "pte_addr u (PX 0 va) \<noteq> 0" "length F \<le> length F' + 2"
proof -
  obtain r s' where w: "walk_loop 2 pt va True s = (r, s')" by fastforce
  then have "walk pt va True s = Ret (r, s')" using assms(2) by (simp add: walk_def)
  moreover have "\<exists>F'. grows pt s F s' F' \<and> (r = 0 \<and> F' = [] \<and> length F < 2 \<or>
      length F \<le> length F' + 2 \<and> (\<exists>u. node (mem s') pt (vpath va) = Some u \<and> r = pte_addr u (PX 0 va) \<and> r \<noteq> 0))"
    using walk_loop_alloc[OF assms(1) _ _ w] by simp
  ultimately show ?thesis using that by blast
qed

lemma walk_find:
  "va < MAXVA \<Longrightarrow> walk pt va False s =
     Ret (case node (mem s) pt (vpath va) of None \<Rightarrow> 0 | Some u \<Rightarrow> pte_addr u (PX 0 va), s)"
  using walk_loop_noalloc[of 2 s pt va pt] by (simp add: walk_def)

section \<open>Writing a translation\<close>

lemma leaf_found: "node m pt (vpath va) = Some u \<Longrightarrow> leaf m pt va = load64 m (pte_addr u (PX 0 va))"
  by (simp add: leaf_def)

lemma PX_PGROUNDDOWN: "PX l (PGROUNDDOWN va) = PX l va"
proof (rule bit_word_eqI)
  fix n assume "n < LENGTH(64)"
  have m: "(4095 :: uint64) = mask 12" by (simp add: mask_eq_exp_minus_1)
  show "bit (PX l (PGROUNDDOWN va)) n = bit (PX l va) n"
    unfolding bit_PX PGROUNDDOWN_def by (auto simp: m bit_simps dest: bit_imp_le_length)
qed

lemma leaf_PGROUNDDOWN: "leaf m pt (PGROUNDDOWN va) = leaf m pt va"
  unfolding leaf_def vpath_def PX_PGROUNDDOWN ..

lemma index_eq_iff:
  assumes "va < MAXVA" "vb < MAXVA"
  shows "vpath vb = vpath va \<and> PX 0 vb = PX 0 va \<longleftrightarrow> PGROUNDDOWN vb = PGROUNDDOWN va"
  using PX_page_eq[OF assms(2,1)] PX_PGROUNDDOWN[of _ va] PX_PGROUNDDOWN[of _ vb]
  by (auto simp: vpath_def)

lemma set_leaf:
  assumes ok: "pt_ok s F pt" and u: "node (mem s) pt (vpath va) = Some u" and va: "va < MAXVA"
    and s'_def: "s' = s\<lparr>mem := store64 (mem s) (pte_addr u (PX 0 va)) w\<rparr>"
  shows "vm_step pt s F s' F"
    "vb < MAXVA \<Longrightarrow> leaf (mem s') pt vb = (if PGROUNDDOWN vb = PGROUNDDOWN va then w else leaf (mem s) pt vb)"
proof -
  have un: "u \<in> nodes (mem s) pt" using nodesI[OF u] by simp
  have m': "mem s' = store64 (mem s) (pte_addr u (PX 0 va)) w" by (simp add: s'_def)
  have "length (vpath va) = 2" by (simp add: vpath_def)
  note st = store_leaf[OF pt_ok_tree[OF ok] u vpath_paths this PX_less m']
  show "vb < MAXVA \<Longrightarrow> leaf (mem s') pt vb = (if PGROUNDDOWN vb = PGROUNDDOWN va then w else leaf (mem s) pt vb)"
    unfolding st(2) using index_eq_iff[OF va] by simp
  have n: "nodes (mem s') pt = nodes (mem s) pt" using st(1) by (auto simp: nodes_def)
  have out: "mem s' x = mem s x" if "x \<notin> span u 4096" for x
    unfolding m' using that pte_span[OF PX_less, of u 0 va] by (intro store64_outside) auto
  have "free_pages s' F"
  proof (rule free_pages_frame)
    show "free_pages s F" using ok by (simp add: pt_ok_def)
    fix p x assume p: "p \<in> set F" "x \<in> span p 4096"
    then have "page_aligned p" "page_aligned u" "p \<noteq> u"
      using ok un by (auto simp: pt_ok_def free_pages_def is_page_def)
    then show "mem s' x = mem s x" using page_disjoint[of p u] p(2) by (intro out) auto
  qed (simp_all add: s'_def)
  moreover have "is_page s' = is_page s" by (auto simp: is_page_def s'_def)
  ultimately have "pt_ok s' F pt" using ok n st(1) by (simp add: pt_ok_def) (simp add: s'_def)
  then show "vm_step pt s F s' F" using n out un by (auto simp: vm_step_def s'_def)
qed

section \<open>Mapping\<close>

text \<open>The translation with \<open>n\<close> pages mapped from \<open>a\<close> to \<open>pa\<close>.\<close>

definition mapped :: "uint64 \<Rightarrow> nat \<Rightarrow> uint64 \<Rightarrow> uint64 \<Rightarrow> (uint64 \<Rightarrow> uint64) \<Rightarrow> uint64 \<Rightarrow> uint64" where
  "mapped a n pa perm f vb =
     (if unat a \<le> unat vb \<and> unat vb < unat a + n * 4096
      then PA2PTE (pa + (PGROUNDDOWN vb - a)) OR perm OR PTE_V else f vb)"

lemma page_iff:
  assumes "page_aligned a"
  shows "PGROUNDDOWN vb = a \<longleftrightarrow> unat a \<le> unat vb \<and> unat vb < unat a + 4096"
  using assms by (auto simp: word_unat_eq_iff unat_PGROUNDDOWN aligned_iff_unat)

lemma mapped_Suc:
  assumes "page_aligned a" "a < MAXVA"
  shows "mapped (a + 4096) n (pa + 4096) perm
    (\<lambda>vb. if PGROUNDDOWN vb = a then PA2PTE pa OR perm OR PTE_V else f vb) = mapped a (Suc n) pa perm f"
proof
  fix vb
  have "unat a < 0x4000000000" using assms(2) by (simp add: word_less_nat_alt)
  then have "unat (a + 4096) = unat a + 4096" by (simp add: unat_word_ariths)
  moreover have "pa + 4096 + (PGROUNDDOWN vb - (a + 4096)) = pa + (PGROUNDDOWN vb - a)" by simp
  ultimately show "mapped (a + 4096) n (pa + 4096) perm
    (\<lambda>vb. if PGROUNDDOWN vb = a then PA2PTE pa OR perm OR PTE_V else f vb) vb = mapped a (Suc n) pa perm f vb"
    using page_iff[OF assms(1), of vb] by (auto simp: mapped_def)
qed

lemma mappages_first:
  assumes ok: "pt_ok s F pt" and a: "page_aligned a" "a < MAXVA" "\<not> valid_pte (leaf (mem s) pt a)"
  obtains (nomem) s' where "mappages_loop pt a alast pa perm s = Ret (- 1, s')" "grows pt s F s' []" "length F < 2"
  | (one) s1 F1 where "vm_step pt s F s1 F1"
      "\<And>vb. vb < MAXVA \<Longrightarrow> leaf (mem s1) pt vb =
         (if PGROUNDDOWN vb = a then PA2PTE pa OR perm OR PTE_V else leaf (mem s) pt vb)"
      "mappages_loop pt a alast pa perm s =
         (if a = alast then Ret (0, s1) else mappages_loop pt (a + PGSIZE) alast (pa + PGSIZE) perm s1)"
      "length F \<le> length F1 + 2"
proof (cases rule: walk_alloc[OF ok a(2)])
  case (1 s')
  note nomem = this
  then show ?thesis using that(1)[of s'] by (simp add: mappages_loop.simps[of pt a])
next
  case (2 s' F' u)
  note found = this
  have ok': "pt_ok s' F' pt" using found(2) vm_step_pt_ok by (auto simp: grows_def)
  let ?s = "s'\<lparr>mem := store64 (mem s') (pte_addr u (PX 0 a)) (PA2PTE pa OR perm OR PTE_V)\<rparr>"
  note sl = set_leaf[OF ok' found(3) a(2), of ?s, OF refl]
  have "load64 (mem s') (pte_addr u (PX 0 a)) = leaf (mem s) pt a"
    using leaf_found[OF found(3)] found(2) by (simp add: grows_def)
  then have "mappages_loop pt a alast pa perm s =
      (if a = alast then Ret (0, ?s) else mappages_loop pt (a + PGSIZE) alast (pa + PGSIZE) perm ?s)"
    using found(1,4) a(3) by (simp add: mappages_loop.simps[of pt a] Let_def)
  moreover have "vm_step pt s F ?s F'" using vm_step_trans sl(1) found(2) unfolding grows_def by blast
  moreover have "leaf (mem ?s) pt vb =
      (if PGROUNDDOWN vb = a then PA2PTE pa OR perm OR PTE_V else leaf (mem s) pt vb)" if "vb < MAXVA" for vb
    using sl(2)[OF that] found(2) by (simp only: PX_page[OF a(1)]) (simp add: grows_def)
  ultimately show ?thesis using that(2) found(5) by blast
qed

lemma mapped_0 [simp]: "mapped a 0 pa perm f = f"
  by (auto simp: mapped_def fun_eq_iff)

lemma mapped_cong: "f vb = g vb \<Longrightarrow> mapped a n pa perm f vb = mapped a n pa perm g vb"
  by (simp add: mapped_def)

lemma mappages_loop_spec:
  assumes "pt_ok s F pt" "page_aligned a" "unat alast = unat a + k * 4096" "alast < MAXVA"
    "\<And>vb. vb < MAXVA \<Longrightarrow> unat a \<le> unat vb \<Longrightarrow> unat vb < unat alast + 4096 \<Longrightarrow> \<not> valid_pte (leaf (mem s) pt vb)"
  shows "\<exists>r s' F' n. mappages_loop pt a alast pa perm s = Ret (r, s') \<and> vm_step pt s F s' F' \<and>
    (\<forall>vb < MAXVA. leaf (mem s') pt vb = mapped a n pa perm (leaf (mem s) pt) vb) \<and>
    (r = 0 \<and> n = Suc k \<or> r = - 1 \<and> n \<le> k \<and> F' = [] \<and> length F < 2 * Suc k)"
  using assms
proof (induction k arbitrary: a pa s F)
  case (0 a pa s F)
  then have eq: "a = alast" by (simp add: word_unat_eq_iff)
  have nv: "\<not> valid_pte (leaf (mem s) pt a)" using 0(4) 0(5)[of a] eq by simp
  show ?case
  proof (cases rule: mappages_first[OF 0(1,2) _ nv, of alast pa perm])
    case 1
    then show ?case using 0(4) eq by simp
  next
    case (2 s')
    then show ?thesis unfolding grows_def by (intro exI[of _ "- 1"] exI[of _ s'] exI[of _ "[]"] exI[of _ 0]) simp
  next
    case (3 s1 F1)
    have "leaf (mem s1) pt vb = mapped a (Suc 0) pa perm (leaf (mem s) pt) vb" if "vb < MAXVA" for vb
      using 3(2)[OF that] page_iff[OF 0(2), of vb] by (auto simp: mapped_def)
    then show ?thesis using 3(1,3) eq by auto
  qed
next
  case (Suc k a pa s F)
  have a: "a < MAXVA" "a \<noteq> alast" "unat a + 4096 < 2 ^ 64"
    using Suc.prems(3,4) by (auto simp: word_less_nat_alt)
  have a1: "unat (a + 4096) = unat a + 4096" using a(3) by (simp add: unat_word_ariths)
  then have al: "page_aligned (a + 4096)" using Suc.prems(2) by (simp add: aligned_iff_unat)
  have nv: "\<not> valid_pte (leaf (mem s) pt a)" using Suc.prems(5)[of a] Suc.prems(3) a(1) by simp
  show ?case
  proof (cases rule: mappages_first[OF Suc.prems(1,2) a(1) nv, of alast pa perm])
    case (1 s')
    then show ?thesis unfolding grows_def by (intro exI[of _ "- 1"] exI[of _ s'] exI[of _ "[]"] exI[of _ 0]) simp
  next
    case (2 s1 F1)
    have "\<not> valid_pte (leaf (mem s1) pt vb)"
      if "vb < MAXVA" "unat (a + 4096) \<le> unat vb" "unat vb < unat alast + 4096" for vb
      using 2(2)[OF that(1)] Suc.prems(5)[OF that(1) _ that(3)] that(2) a1 page_iff[OF Suc.prems(2), of vb] by simp
    with Suc.IH[OF vm_step_pt_ok[OF 2(1)] al _ Suc.prems(4)] Suc.prems(3) a1
    obtain r s' F' n where IH: "mappages_loop pt (a + 4096) alast (pa + 4096) perm s1 = Ret (r, s')"
      "vm_step pt s1 F1 s' F'" "r = 0 \<and> n = Suc k \<or> r = - 1 \<and> n \<le> k \<and> F' = [] \<and> length F1 < 2 * Suc k"
      "\<And>vb. vb < MAXVA \<Longrightarrow> leaf (mem s') pt vb = mapped (a + 4096) n (pa + 4096) perm (leaf (mem s1) pt) vb"
      by force
    have "leaf (mem s') pt vb = mapped a (Suc n) pa perm (leaf (mem s) pt) vb" if "vb < MAXVA" for vb
      unfolding IH(4)[OF that] mapped_Suc[OF Suc.prems(2) a(1), symmetric] using 2(2)[OF that] by (rule mapped_cong)
    moreover have "r = 0 \<and> Suc n = Suc (Suc k) \<or> r = - 1 \<and> Suc n \<le> Suc k \<and> F' = [] \<and> length F < 2 * Suc (Suc k)"
      using IH(3) 2(4) by auto
    ultimately show ?thesis using 2(3) IH(1) a(2) vm_step_trans[OF 2(1) IH(2)]
      by (intro exI[of _ r] exI[of _ s'] exI[of _ F'] exI[of _ "Suc n"]) simp
  qed
qed

text \<open>
  C12. Mapping a range of unmapped addresses below \<open>MAXVA\<close> never panics. Either every page of the
  range is now translated to its physical page with the given permissions and nothing else has
  changed, or the pool, which had fewer than two pages for each page of the range, is exhausted, -1 is
  returned and a prefix of the range is mapped.
\<close>

theorem mappages_maps:
  assumes "pt_ok s F pt" "0 < sz" "unat va + unat sz \<le> 0x4000000000"
    "\<And>vb. unat (PGROUNDDOWN va) \<le> unat vb \<Longrightarrow> unat vb < unat (PGROUNDDOWN (va + sz - 1)) + 4096 \<Longrightarrow>
       \<not> valid_pte (leaf (mem s) pt vb)"
  shows "\<exists>r s' F' n. mappages pt va sz pa perm s = Ret (r, s') \<and> vm_step pt s F s' F' \<and>
    (\<forall>vb < MAXVA. leaf (mem s') pt vb = mapped (PGROUNDDOWN va) n pa perm (leaf (mem s) pt) vb) \<and>
    (r = 0 \<and> unat (PGROUNDDOWN va) + n * 4096 = unat (PGROUNDDOWN (va + sz - 1)) + 4096 \<or>
     r = - 1 \<and> F' = [] \<and> unat (PGROUNDDOWN va) + n * 4096 \<le> unat (PGROUNDDOWN (va + sz - 1)) \<and>
       length F * 4096 < 2 * (unat (PGROUNDDOWN (va + sz - 1)) + 4096 - unat (PGROUNDDOWN va)))"
proof -
  let ?a = "PGROUNDDOWN va" and ?z = "PGROUNDDOWN (va + sz - 1)"
  have sz: "0 < unat sz" using assms(2) by (simp add: word_less_nat_alt)
  then have e: "unat (va + sz - 1) = unat va + unat sz - 1"
    using assms(3) by (simp add: unat_word_ariths unat_sub_if' word_le_nat_alt)
  have lt: "unat ?z < 0x4000000000" using assms(3) sz by (simp add: unat_PGROUNDDOWN e)
  define k where "k = (unat va + unat sz - 1) div 4096 - unat va div 4096"
  have "unat va div 4096 \<le> (unat va + unat sz - 1) div 4096" using sz by (intro div_le_mono) simp
  then have k: "unat ?z = unat ?a + k * 4096"
    by (simp add: unat_PGROUNDDOWN e k_def diff_mult_distrib)
  have "page_aligned ?a" by (simp add: aligned_iff_unat unat_PGROUNDDOWN)
  from mappages_loop_spec[OF assms(1) this k, of pa perm] assms(4) lt
  obtain r s' F' n where "mappages_loop pt ?a ?z pa perm s = Ret (r, s')" "vm_step pt s F s' F'"
    "\<forall>vb < MAXVA. leaf (mem s') pt vb = mapped ?a n pa perm (leaf (mem s) pt) vb"
    "r = 0 \<and> n = Suc k \<or> r = - 1 \<and> n \<le> k \<and> F' = [] \<and> length F < 2 * Suc k"
    by (force simp: word_less_nat_alt)
  then show ?thesis using assms(2) k unfolding mappages_def
    by (intro exI[of _ r] exI[of _ s'] exI[of _ F'] exI[of _ n]) auto
qed

section \<open>Unmapping\<close>

text \<open>Memory that keeps the tables of an address space keeps its translations.\<close>

lemma tree_frame:
  assumes "\<And>t x. t \<in> nodes m pt \<Longrightarrow> x \<in> span t 4096 \<Longrightarrow> m' x = m x"
  shows "p \<in> paths \<Longrightarrow> node m' pt p = node m pt p" "leaf m' pt va = leaf m pt va" "nodes m' pt = nodes m pt"
proof -
  have l: "load64 m' (pte_addr t i) = load64 m (pte_addr t i)" if "t \<in> nodes m pt" "i < 512" for t i
    using assms[OF that(1)] pte_span[OF that(2), of t] by (intro load64_cong) auto
  have n: "node m' pt p = node m pt p" if "p \<in> paths" for p
    by (rule node_cong[OF _ that]) (blast intro: l nodesI)
  then show "p \<in> paths \<Longrightarrow> node m' pt p = node m pt p" .
  show "nodes m' pt = nodes m pt" using n by (auto simp: nodes_def)
  show "leaf m' pt va = leaf m pt va"
    using n[of "vpath va"] l[OF nodesI PX_less, of "vpath va"] by (auto simp: leaf_def split: option.split)
qed

lemma pt_ok_kfree:
  assumes ok: "pt_ok s F pt" and p: "is_page s p" "p \<notin> set F" "p \<notin> nodes (mem s) pt"
  obtains s' where "kfree p s = Ret s'" "pt_ok s' (p # F) pt" "nodes (mem s') pt = nodes (mem s) pt"
    "\<And>va. leaf (mem s') pt va = leaf (mem s) pt va" "\<And>va. node (mem s') pt (vpath va) = node (mem s) pt (vpath va)"
    "kend s' = kend s" "kmem_state.more s' = kmem_state.more s" "\<And>x. x \<notin> span p 4096 \<Longrightarrow> mem s' x = mem s x"
proof -
  have "free_pages s F" using ok by (simp add: pt_ok_def)
  from free_pages_kfree[OF this p(1,2)] obtain s' where s': "kfree p s = Ret s'" "free_pages s' (p # F)"
    by blast
  have k: "kend s' = kend s" "kmem_state.more s' = kmem_state.more s" using s'(1) by (auto simp: kfree_Ret_iff)
  have out: "mem s' x = mem s x" if "x \<notin> span p 4096" for x using kfree_mem_outside[OF s'(1) that] .
  have "mem s' x = mem s x" if "t \<in> nodes (mem s) pt" "x \<in> span t 4096" for t x
    using page_disjoint[of t p] treeD(1)[OF pt_ok_tree[OF ok] that(1)] p(1,3) that by (intro out) (auto simp: is_page_def)
  note tf = tree_frame[OF this]
  have "pt_ok s' (p # F) pt" using ok s'(2) k p(3) tf(1,3) by (auto simp: pt_ok_def is_page_def)
  then show ?thesis using that s'(1) tf k out by simp
qed

section \<open>An example address space\<close>

text \<open>A table at 0x80001000 that maps the page of address 0 by the entry \<open>w\<close>, and maps nothing else.\<close>

definition ex_tables :: memory where
  "ex_tables = store64 (store64 (\<lambda>_. 0) 0x80001000 (PA2PTE 0x80002000 OR PTE_V)) 0x80002000 (PA2PTE 0x80003000 OR PTE_V)"

definition ex_space :: "uint64 \<Rightarrow> kmem_state" where
  "ex_space w = \<lparr>mem = store64 ex_tables 0x80003000 w, freelist = 0, kend = 0x80000000\<rparr>"

lemma load64_zero: "load64 (\<lambda>_. 0) a = 0"
  by (simp add: load64_def load_bytes_def numeral_eq_Suc of_bytes_def)

lemma node_zero: "node (\<lambda>_. 0) pt p = (if p = [] then Some pt else None)"
  by (cases p) (simp_all add: load64_zero valid_PTE)

lemma leaf_zero: "leaf (\<lambda>_. 0) pt va = 0"
  by (simp add: leaf_def node_zero vpath_def)

lemma nodes_zero: "nodes (\<lambda>_. 0) pt = {pt}"
  by (auto simp: nodes_def node_zero paths_def)

lemma ex_tables_tree:
  defines "R \<equiv> 0x80001000 :: uint64"
  shows "p \<in> paths \<Longrightarrow> node ex_tables R p =
    (if p = [] then Some R else if p = [0] then Some 0x80002000 else if p = [0, 0] then Some 0x80003000 else None)"
    "leaf ex_tables R va = 0" "nodes ex_tables R = {R, 0x80002000, 0x80003000}" "tree ex_tables R"
proof -
  let ?m1 = "store64 (\<lambda>_. 0) (pte_addr R 0) (PA2PTE 0x80002000 OR PTE_V)"
  have al: "page_aligned R" "page_aligned 0x80002000" "page_aligned 0x80003000" by (simp_all add: page_aligned_def R_def)
  have ps: "[] \<in> paths" "[0] \<in> paths" "[0, 0] \<in> paths" by (simp_all add: paths_def)
  have t0: "tree (\<lambda>_. 0) R" using al by (simp add: tree_def nodes_zero node_zero)
  note st1 = store_table[OF t0 _ ps(1) _ _ _ al(2) _ _ _ _ refl, where ?m1.0 = "\<lambda>_. 0" and t = R and i = 0]
  have n1: "node ?m1 R p = (if p = [] then Some R else if p = [0] then Some 0x80002000 else None)" if "p \<in> paths" for p
    using st1(1)[of p] that by (simp add: node_zero nodes_zero load64_zero valid_PTE R_def)
  have l1: "leaf ?m1 R va = 0" for va
    using st1(2)[of va] by (simp add: node_zero nodes_zero load64_zero valid_PTE leaf_zero R_def)
  have N1: "nodes ?m1 R = {R, 0x80002000}" using n1 ps unfolding nodes_def by (auto split: if_splits)
  have t1: "tree ?m1 R" unfolding tree_def N1 using al n1 by (auto simp: R_def split: if_splits)
  have z: "load64 ?m1 (pte_addr q j) = 0" if "page_aligned q" "q \<noteq> R" "j < 512" for q j
    using pte_disjoint[OF al(1) _ that(1,3), of 0] that(2) load64_zero by (subst load64_store64_other) auto
  have e: "ex_tables = store64 ?m1 (pte_addr 0x80002000 0) (PA2PTE 0x80003000 OR PTE_V)"
    by (simp add: ex_tables_def pte_addr_def R_def)
  have n10: "node ?m1 R [0] = Some 0x80002000" using n1[OF ps(2)] by simp
  have z2: "\<not> valid_pte (load64 ?m1 (pte_addr 0x80002000 0))" using z[OF al(2), of 0] valid_PTE(3) by (simp add: R_def)
  have z3: "load64 ?m1 (pte_addr 0x80003000 j) = 0" if "j < 512" for j using z[OF al(3) _ that] by (simp add: R_def)
  have fresh: "0x80003000 \<notin> nodes ?m1 R" unfolding N1 by (simp add: R_def)
  note st2 = store_table[OF t1 n10 ps(2) _ _ z2 al(3) _ fresh _ z3 e]
  show n2: "node ex_tables R p =
    (if p = [] then Some R else if p = [0] then Some 0x80002000 else if p = [0, 0] then Some 0x80003000 else None)"
    if "p \<in> paths" for p
  proof -
    have "node ex_tables R p = (if p = [0] @ [0] then Some 0x80003000 else node ?m1 R p)" by (rule st2(1)) (simp_all add: that)
    then show ?thesis unfolding n1[OF that] by auto
  qed
  have "leaf ex_tables R va = leaf ?m1 R va" by (rule st2(2)) simp_all
  then show "leaf ex_tables R va = 0" using l1 by simp
  show N2: "nodes ex_tables R = {R, 0x80002000, 0x80003000}"
    using n2 ps unfolding nodes_def by (auto split: if_splits)
  show "tree ex_tables R" unfolding tree_def N2 using al n2 by (auto simp: R_def split: if_splits)
qed

lemma ex_space_ok:
  shows "pt_ok (ex_space w) [] 0x80001000" "nodes (mem (ex_space w)) 0x80001000 = {0x80001000, 0x80002000, 0x80003000}"
    "va < MAXVA \<Longrightarrow> leaf (mem (ex_space w)) 0x80001000 va = (if PGROUNDDOWN va = 0 then w else 0)"
proof -
  have "[0, 0] \<in> paths" by (simp add: paths_def)
  then have "node ex_tables 0x80001000 [0, 0] = Some 0x80003000" by (subst ex_tables_tree(1)) simp_all
  moreover have v0: "vpath 0 = [0, 0]" "PX 0 0 = 0" by (simp_all add: vpath_def PX_def)
  ultimately have n: "node ex_tables 0x80001000 (vpath 0) = Some 0x80003000" by (simp only:)
  let ?s = "\<lparr>mem = ex_tables, freelist = 0, kend = 0x80000000\<rparr>"
  have ok: "pt_ok ?s [] 0x80001000"
    using ex_tables_tree(3) treeD(2)[OF ex_tables_tree(4)]
    by (simp add: pt_ok_def free_pages_def is_page_def page_aligned_def)
  have s: "ex_space w = ?s\<lparr>mem := store64 (mem ?s) (pte_addr 0x80003000 (PX 0 0)) w\<rparr>"
    by (simp add: ex_space_def v0 pte_addr_def)
  have n': "node (mem ?s) 0x80001000 (vpath 0) = Some 0x80003000" using n by simp
  note sl = set_leaf[OF ok n' _ s]
  have vs: "vm_step 0x80001000 ?s [] (ex_space w) []" by (rule sl(1)) simp
  then show "pt_ok (ex_space w) [] 0x80001000" by (rule vm_step_pt_ok)
  show "nodes (mem (ex_space w)) 0x80001000 = {0x80001000, 0x80002000, 0x80003000}"
    using vs ex_tables_tree(3) by (auto simp: vm_step_def)
  have "PGROUNDDOWN 0 = 0" by (simp add: PGROUNDDOWN_def)
  then show "leaf (mem (ex_space w)) 0x80001000 va = (if PGROUNDDOWN va = 0 then w else 0)" if "va < MAXVA"
    using sl(2)[OF _ that] ex_tables_tree(2) by simp
qed

text \<open>The same address space with two pages in the pool.\<close>

lemma pool_grows:
  fixes s :: "'a kmem_state_scheme"
  assumes "pt_ok s F pt" "is_page s p" "p \<notin> set F" "p \<notin> nodes (mem s) pt"
  shows "\<exists>s' :: 'a kmem_state_scheme. pt_ok s' (p # F) pt \<and> nodes (mem s') pt = nodes (mem s) pt \<and> (\<forall>va. leaf (mem s') pt va = leaf (mem s) pt va) \<and>
     kend s' = kend s"
  by (rule pt_ok_kfree[OF assms]) blast

lemma ex_space_pool:
  "\<exists>s :: kmem_state. pt_ok s [0x80011000, 0x80010000] 0x80001000 \<and>
     (\<forall>va < MAXVA. leaf (mem s) 0x80001000 va = 0)"
proof -
  let ?pt = "0x80001000" and ?s = "ex_space 0"
  have k: "kend ?s = 0x80000000" by (simp add: ex_space_def)
  have l: "\<forall>va < MAXVA. leaf (mem ?s) ?pt va = 0" using ex_space_ok(3)[of _ 0] by simp
  have pg: "is_page ?s 0x80010000" using k by (simp add: is_page_def page_aligned_def)
  have "0x80010000 \<notin> nodes (mem ?s) ?pt" by (simp add: ex_space_ok(2))
  then obtain s1 :: kmem_state where s1: "pt_ok s1 [0x80010000] ?pt" "nodes (mem s1) ?pt = nodes (mem ?s) ?pt"
    "\<forall>va. leaf (mem s1) ?pt va = leaf (mem ?s) ?pt va" "kend s1 = kend ?s"
    using pool_grows[OF ex_space_ok(1) pg] by auto
  have "is_page s1 0x80011000" "0x80011000 \<notin> set [0x80010000 :: uint64]" "0x80011000 \<notin> nodes (mem s1) ?pt"
    using k s1(4) by (simp_all add: is_page_def page_aligned_def s1(2) ex_space_ok(2))
  then obtain s2 :: kmem_state where "pt_ok s2 [0x80011000, 0x80010000] ?pt" "\<forall>va. leaf (mem s2) ?pt va = leaf (mem s1) ?pt va"
    using pool_grows[OF s1(1)] by blast
  then show ?thesis using s1(3) l by (intro exI[of _ s2]) simp
qed

theorem mappages_maps_witness:
  "\<exists>(s :: kmem_state) s'. mappages 0x80001000 0 4096 0x80004000 18 s = Ret (0, s') \<and> leaf (mem s) 0x80001000 7 = 0 \<and>
     leaf (mem s') 0x80001000 7 = PA2PTE 0x80004000 OR 18 OR PTE_V"
proof -
  obtain s :: kmem_state where s: "pt_ok s [0x80011000, 0x80010000] 0x80001000" "\<forall>va < MAXVA. leaf (mem s) 0x80001000 va = 0"
    using ex_space_pool by blast
  have z: "PGROUNDDOWN 0 = 0" "PGROUNDDOWN (0 + 4096 - 1) = 0" "PGROUNDDOWN 7 = 0" by (simp_all add: PGROUNDDOWN_def)
  have "\<not> valid_pte (leaf (mem s) 0x80001000 vb)" if "unat vb < unat (0 :: uint64) + 4096" for vb
    using that s(2) valid_PTE(3) by (auto simp: word_less_nat_alt)
  then obtain r s' F' n where
    m: "mappages 0x80001000 0 4096 0x80004000 18 s = Ret (r, s')"
      "\<forall>vb < MAXVA. leaf (mem s') 0x80001000 vb = mapped 0 n 0x80004000 18 (leaf (mem s) 0x80001000) vb"
      "r = 0 \<and> n = 1 \<or> r = - 1 \<and> length [0x80011000, 0x80010000 :: uint64] * 4096 < 2 * 4096"
    using mappages_maps[OF s(1), where sz = 4096 and va = 0 and pa = "0x80004000" and perm = 18]
    unfolding z by fastforce
  then have "r = 0" "n = 1" by auto
  moreover have "(7 :: uint64) < MAXVA" by simp
  ultimately show ?thesis using m(1,2) s(2) by (intro exI[of _ s] exI[of _ s']) (simp add: mapped_def z)
qed

end
