(* ===== verification/Vm_User.thy ===== *)
theory Vm_User
  imports Vm_Laws
begin

text \<open>
  User address spaces over the translations of \<open>Vm_Laws\<close>: what \<open>uvmunmap\<close> gives back to the
  allocator, and \<open>copyin\<close>, \<open>copyout\<close> and \<open>copyinstr\<close> as reads and writes of the user's memory
  \<open>umem\<close>, the partial function from user addresses to bytes that a page table defines.
\<close>

section \<open>Unmapping\<close>

text \<open>A page that \<open>uvmunmap\<close> can take away at \<open>a\<close>: mapped by a leaf, and free-able if asked to.\<close>

definition removable :: "'a kmem_state_scheme \<Rightarrow> uint64 list \<Rightarrow> uint64 \<Rightarrow> bool \<Rightarrow> uint64 \<Rightarrow> bool" where
  "removable s F pt do_free a \<longleftrightarrow>
     (let v = leaf (mem s) pt a
      in valid_pte v \<and> PTE_FLAGS v \<noteq> PTE_V \<and>
         (do_free \<longrightarrow> is_page s (PTE2PA v) \<and> PTE2PA v \<notin> set F \<and> PTE2PA v \<notin> nodes (mem s) pt))"

lemma leaf_valid_found:
  assumes "valid_pte (leaf m pt a)"
  obtains u where "node m pt (vpath a) = Some u" "leaf m pt a = load64 m (pte_addr u (PX 0 a))"
  using assms valid_PTE(3) by (auto simp: leaf_def split: option.splits)

text \<open>One turn of the loop of \<open>uvmunmap\<close>.\<close>

lemma uvmunmap_first:
  assumes ok: "pt_ok s F pt" and a: "page_aligned a" "a < MAXVA" "a < stop"
    and rm: "removable s F pt do_free a"
  obtains s' where "uvmunmap_loop pt a stop do_free s = uvmunmap_loop pt (a + PGSIZE) stop do_free s'"
    "pt_ok s' ((if do_free then [PTE2PA (leaf (mem s) pt a)] else []) @ F) pt"
    "nodes (mem s') pt = nodes (mem s) pt" "kend s' = kend s" "kmem_state.more s' = kmem_state.more s"
    "\<And>vb. vb < MAXVA \<Longrightarrow> leaf (mem s') pt vb = (if PGROUNDDOWN vb = a then 0 else leaf (mem s) pt vb)"
    "\<And>x. \<forall>t \<in> nodes (mem s) pt. x \<notin> span t 4096 \<Longrightarrow>
       (do_free \<Longrightarrow> x \<notin> span (PTE2PA (leaf (mem s) pt a)) 4096) \<Longrightarrow> mem s' x = mem s x"
proof -
  let ?v = "leaf (mem s) pt a" and ?p = "PTE2PA (leaf (mem s) pt a)"
  have v: "valid_pte ?v" "PTE_FLAGS ?v \<noteq> PTE_V" using rm by (simp_all add: removable_def Let_def)
  from leaf_valid_found[OF v(1)] obtain u
    where u: "node (mem s) pt (vpath a) = Some u" "?v = load64 (mem s) (pte_addr u (PX 0 a))" .
  have "is_page s u" using nodesI[OF u(1)] ok by (simp add: pt_ok_def)
  then have nz: "pte_addr u (PX 0 a) \<noteq> 0" using pte_nonnull[OF _ PX_less] by blast
  obtain s1 where s1: "(if do_free then kfree ?p s else Ret s) = Ret s1"
    "pt_ok s1 ((if do_free then [?p] else []) @ F) pt" "nodes (mem s1) pt = nodes (mem s) pt"
    "\<And>va. leaf (mem s1) pt va = leaf (mem s) pt va" "node (mem s1) pt (vpath a) = Some u"
    "kend s1 = kend s" "kmem_state.more s1 = kmem_state.more s"
    "\<And>x. (do_free \<Longrightarrow> x \<notin> span ?p 4096) \<Longrightarrow> mem s1 x = mem s x"
  proof (cases do_free)
    case True
    then have "is_page s ?p" "?p \<notin> set F" "?p \<notin> nodes (mem s) pt" using rm by (simp_all add: removable_def Let_def)
    from pt_ok_kfree[OF ok this] obtain s' where "kfree ?p s = Ret s'" "pt_ok s' (?p # F) pt"
      "nodes (mem s') pt = nodes (mem s) pt" "\<And>va. leaf (mem s') pt va = leaf (mem s) pt va"
      "\<And>va. node (mem s') pt (vpath va) = node (mem s) pt (vpath va)"
      "kend s' = kend s" "kmem_state.more s' = kmem_state.more s" "\<And>x. x \<notin> span ?p 4096 \<Longrightarrow> mem s' x = mem s x"
      by blast
    then show ?thesis using that[of s'] True u(1) by simp
  qed (use that[of s] ok u(1) in simp)
  let ?s = "s1\<lparr>mem := store64 (mem s1) (pte_addr u (PX 0 a)) 0\<rparr>"
  note sl = set_leaf[OF s1(2) s1(5) a(2), of ?s, OF refl]
  have un: "u \<in> nodes (mem s) pt" using nodesI[OF u(1)] by simp
  have n: "nodes (mem ?s) pt = nodes (mem s1) pt" using sl(1) by (auto simp: vm_step_def)
  have eq: "uvmunmap_loop pt a stop do_free s = uvmunmap_loop pt (a + PGSIZE) stop do_free ?s"
    using a(2,3) u v nz s1(1)[unfolded u(2)]
    by (cases do_free) (simp_all add: uvmunmap_loop.simps[of pt a] walk_find Let_def)
  show ?thesis
  proof (rule that[of ?s])
    show "uvmunmap_loop pt a stop do_free s = uvmunmap_loop pt (a + PGSIZE) stop do_free ?s" by (fact eq)
    show "pt_ok ?s ((if do_free then [?p] else []) @ F) pt" using vm_step_pt_ok[OF sl(1)] .
    show "nodes (mem ?s) pt = nodes (mem s) pt" using n s1(3) by simp
    show "kend ?s = kend s" "kmem_state.more ?s = kmem_state.more s" using s1(6,7) by simp_all
    show "leaf (mem ?s) pt vb = (if PGROUNDDOWN vb = a then 0 else leaf (mem s) pt vb)" if "vb < MAXVA" for vb
      using sl(2)[OF that] s1(4) by (simp only: PX_page[OF a(1)])
    fix x assume x: "\<forall>t \<in> nodes (mem s) pt. x \<notin> span t 4096" "do_free \<Longrightarrow> x \<notin> span ?p 4096"
    then have "mem ?s x = mem s1 x" using sl(1) n s1(3) unfolding vm_step_def by metis
    then show "mem ?s x = mem s x" using s1(8) x(2) by simp
  qed
qed

text \<open>The pages that unmapping \<open>n\<close> pages from \<open>a\<close> returns, last one first.\<close>

definition user_pages :: "memory \<Rightarrow> uint64 \<Rightarrow> uint64 \<Rightarrow> nat \<Rightarrow> uint64 list" where
  "user_pages m pt a n = map (\<lambda>i. PTE2PA (leaf m pt (a + of_nat i * PGSIZE))) [0..<n]"

lemma user_pages_Suc:
  "user_pages m pt a (Suc n) = PTE2PA (leaf m pt a) # user_pages m pt (a + PGSIZE) n"
proof -
  have "[0..<Suc n] = 0 # map Suc [0..<n]" by (simp add: upt_conv_Cons map_Suc_upt del: upt_Suc)
  then show ?thesis unfolding user_pages_def by (simp add: algebra_simps del: upt_Suc)
qed

lemma page_index:
  assumes "page_aligned a" "unat a + n * 4096 \<le> 0x4000000000" "i < n"
  shows "unat (a + of_nat i * PGSIZE) = unat a + i * 4096" "page_aligned (a + of_nat i * PGSIZE)"
    "a + of_nat i * PGSIZE < MAXVA"
proof -
  have "i * 4096 + 4096 \<le> n * 4096" using assms(3) by simp
  then have b: "unat a + i * 4096 < 0x4000000000" using assms(2) by linarith
  have "unat (of_nat i * PGSIZE :: uint64) = i * 4096"
    using b by (simp add: unat_word_ariths unat_of_nat)
  then show u: "unat (a + of_nat i * PGSIZE) = unat a + i * 4096" using b by (simp add: unat_word_ariths)
  show "page_aligned (a + of_nat i * PGSIZE)" using assms(1) u by (simp add: aligned_iff_unat)
  show "a + of_nat i * PGSIZE < MAXVA" using u b by (simp add: word_less_nat_alt)
qed

lemma uvmunmap_loop_spec:
  assumes "pt_ok s F pt" "page_aligned a" "unat a + n * 4096 \<le> 0x4000000000" "unat stop = unat a + n * 4096"
    "\<And>i. i < n \<Longrightarrow> removable s F pt do_free (a + of_nat i * PGSIZE)"
    "do_free \<Longrightarrow> distinct (user_pages (mem s) pt a n)"
  shows "\<exists>s'. uvmunmap_loop pt a stop do_free s = Ret s' \<and>
    pt_ok s' ((if do_free then rev (user_pages (mem s) pt a n) else []) @ F) pt \<and>
    nodes (mem s') pt = nodes (mem s) pt \<and> kend s' = kend s \<and> kmem_state.more s' = kmem_state.more s \<and>
    (\<forall>vb < MAXVA. leaf (mem s') pt vb =
       (if unat a \<le> unat vb \<and> unat vb < unat a + n * 4096 then 0 else leaf (mem s) pt vb)) \<and>
    (\<forall>x. (\<forall>t \<in> nodes (mem s) pt. x \<notin> span t 4096) \<and>
         (do_free \<longrightarrow> (\<forall>p \<in> set (user_pages (mem s) pt a n). x \<notin> span p 4096)) \<longrightarrow> mem s' x = mem s x)"
  using assms
proof (induction n arbitrary: a s F)
  case 0
  then show ?case by (auto simp: uvmunmap_loop.simps[of pt a] word_less_nat_alt user_pages_def)
next
  case (Suc n a s F)
  let ?p = "PTE2PA (leaf (mem s) pt a)"
  note idx = page_index[OF Suc.prems(2,3)]
  have lt: "a < MAXVA" "a < stop" using Suc.prems(3,4) by (auto simp: word_less_nat_alt)
  have rm: "removable s F pt do_free a" using Suc.prems(5)[of 0] by simp
  from uvmunmap_first[OF Suc.prems(1,2) lt rm] obtain s1 where
    s1: "uvmunmap_loop pt a stop do_free s = uvmunmap_loop pt (a + PGSIZE) stop do_free s1"
    "pt_ok s1 ((if do_free then [?p] else []) @ F) pt" "nodes (mem s1) pt = nodes (mem s) pt"
    "kend s1 = kend s" "kmem_state.more s1 = kmem_state.more s"
    "\<And>vb. vb < MAXVA \<Longrightarrow> leaf (mem s1) pt vb = (if PGROUNDDOWN vb = a then 0 else leaf (mem s) pt vb)"
    "\<And>x. \<forall>t \<in> nodes (mem s) pt. x \<notin> span t 4096 \<Longrightarrow> (do_free \<Longrightarrow> x \<notin> span ?p 4096) \<Longrightarrow> mem s1 x = mem s x"
    by blast
  have a1: "unat (a + PGSIZE) = unat a + 4096" using Suc.prems(3) by (simp add: unat_word_ariths)
  have al: "page_aligned (a + PGSIZE)" using a1 Suc.prems(2) by (simp add: aligned_iff_unat)
  have nxt: "a + PGSIZE + of_nat i * PGSIZE = a + of_nat (Suc i) * PGSIZE" for i by (simp add: algebra_simps)
  have lf: "leaf (mem s1) pt (a + PGSIZE + of_nat i * PGSIZE) = leaf (mem s) pt (a + PGSIZE + of_nat i * PGSIZE)"
    if "i < n" for i
    using s1(6)[OF idx(3)[of "Suc i"]] idx(1)[of "Suc i"] that page_iff[OF Suc.prems(2), of "a + of_nat (Suc i) * PGSIZE"]
    by (simp only: nxt) simp
  then have up: "user_pages (mem s1) pt (a + PGSIZE) n = user_pages (mem s) pt (a + PGSIZE) n"
    by (simp add: user_pages_def)
  have "removable s1 ((if do_free then [?p] else []) @ F) pt do_free (a + PGSIZE + of_nat i * PGSIZE)" if i: "i < n" for i
  proof -
    have "PTE2PA (leaf (mem s) pt (a + PGSIZE + of_nat i * PGSIZE)) \<in> set (user_pages (mem s) pt (a + PGSIZE) n)"
      using i by (simp add: user_pages_def)
    then have "PTE2PA (leaf (mem s) pt (a + PGSIZE + of_nat i * PGSIZE)) \<noteq> ?p" if "do_free"
      using Suc.prems(6)[OF that] by (metis distinct.simps(2) user_pages_Suc)
    moreover have "removable s F pt do_free (a + PGSIZE + of_nat i * PGSIZE)"
      unfolding nxt using i by (intro Suc.prems(5)) simp
    ultimately show ?thesis using s1(3,4) unfolding removable_def lf[OF i] by (auto simp: Let_def is_page_def)
  qed
  with Suc.IH[OF s1(2) al, unfolded up] Suc.prems(3,4,6) a1 obtain s' where
    IH: "uvmunmap_loop pt (a + PGSIZE) stop do_free s1 = Ret s'"
    "pt_ok s' ((if do_free then rev (user_pages (mem s) pt (a + PGSIZE) n) else []) @ (if do_free then [?p] else []) @ F) pt"
    "nodes (mem s') pt = nodes (mem s1) pt" "kend s' = kend s1" "kmem_state.more s' = kmem_state.more s1"
    "\<And>vb. vb < MAXVA \<Longrightarrow> leaf (mem s') pt vb =
       (if unat (a + PGSIZE) \<le> unat vb \<and> unat vb < unat (a + PGSIZE) + n * 4096 then 0 else leaf (mem s1) pt vb)"
    "\<And>x. \<forall>t \<in> nodes (mem s1) pt. x \<notin> span t 4096 \<Longrightarrow>
       do_free \<longrightarrow> (\<forall>p \<in> set (user_pages (mem s) pt (a + PGSIZE) n). x \<notin> span p 4096) \<Longrightarrow> mem s' x = mem s1 x"
    by (auto simp: user_pages_Suc)
  show ?case
  proof (intro exI[of _ s'] conjI allI impI)
    show "uvmunmap_loop pt a stop do_free s = Ret s'" using s1(1) IH(1) by simp
    show "pt_ok s' ((if do_free then rev (user_pages (mem s) pt a (Suc n)) else []) @ F) pt"
      using IH(2) by (cases do_free) (simp_all add: user_pages_Suc)
    show "leaf (mem s') pt vb = (if unat a \<le> unat vb \<and> unat vb < unat a + Suc n * 4096 then 0 else leaf (mem s) pt vb)"
      if "vb < MAXVA" for vb
      using IH(6)[OF that] s1(6)[OF that] page_iff[OF Suc.prems(2), of vb] a1 by auto
    fix x assume "(\<forall>t \<in> nodes (mem s) pt. x \<notin> span t 4096) \<and>
      (do_free \<longrightarrow> (\<forall>p \<in> set (user_pages (mem s) pt a (Suc n)). x \<notin> span p 4096))"
    then show "mem s' x = mem s x" using IH(7)[of x] s1(3,7) by (simp add: user_pages_Suc)
  qed (use IH s1 in simp_all)
qed

lemma uvmunmap_spec:
  assumes "pt_ok s F pt" "page_aligned va" "unat va + n * 4096 \<le> 0x4000000000"
    "\<And>i. i < n \<Longrightarrow> removable s F pt do_free (va + of_nat i * PGSIZE)"
    "do_free \<Longrightarrow> distinct (user_pages (mem s) pt va n)"
  shows "\<exists>s'. uvmunmap pt va (of_nat n) do_free s = Ret s' \<and>
    pt_ok s' ((if do_free then rev (user_pages (mem s) pt va n) else []) @ F) pt \<and>
    nodes (mem s') pt = nodes (mem s) pt \<and> kend s' = kend s \<and> kmem_state.more s' = kmem_state.more s \<and>
    (\<forall>vb < MAXVA. leaf (mem s') pt vb =
       (if unat va \<le> unat vb \<and> unat vb < unat va + n * 4096 then 0 else leaf (mem s) pt vb)) \<and>
    (\<forall>x. (\<forall>t \<in> nodes (mem s) pt. x \<notin> span t 4096) \<and>
         (do_free \<longrightarrow> (\<forall>p \<in> set (user_pages (mem s) pt va n). x \<notin> span p 4096)) \<longrightarrow> mem s' x = mem s x)"
proof -
  have "unat (of_nat n * PGSIZE :: uint64) = n * 4096" using assms(3) by (simp add: unat_word_ariths unat_of_nat)
  then have "unat (va + of_nat n * PGSIZE) = unat va + n * 4096" using assms(3) by (simp add: unat_word_ariths)
  from uvmunmap_loop_spec[OF assms(1-3) this assms(4,5)] show ?thesis
    using assms(2) by (fastforce simp: uvmunmap_def page_aligned_def)
qed

text \<open>
  C13. Unmapping \<open>n\<close> pages that are mapped by leaves never panics: their translations and no others
  become invalid, and with \<open>do_free\<close> exactly the pages they were mapped to are back in the pool of
  the allocator. No memory outside the tables and the freed pages changes.
\<close>

theorem uvmunmap_unmaps:
  assumes "pt_ok s F pt" "page_aligned va" "unat va + n * 4096 \<le> 0x4000000000"
    "\<And>i. i < n \<Longrightarrow> removable s F pt do_free (va + of_nat i * PGSIZE)"
    "do_free \<Longrightarrow> distinct (user_pages (mem s) pt va n)"
  shows "\<exists>s'. uvmunmap pt va (of_nat n) do_free s = Ret s' \<and>
    pt_ok s' ((if do_free then rev (user_pages (mem s) pt va n) else []) @ F) pt \<and>
    (\<forall>vb < MAXVA. leaf (mem s') pt vb =
       (if unat va \<le> unat vb \<and> unat vb < unat va + n * 4096 then 0 else leaf (mem s) pt vb)) \<and>
    (\<forall>x. (\<forall>t \<in> nodes (mem s) pt. x \<notin> span t 4096) \<and>
         (do_free \<longrightarrow> (\<forall>p \<in> set (user_pages (mem s) pt va n). x \<notin> span p 4096)) \<longrightarrow> mem s' x = mem s x)"
  using uvmunmap_spec[OF assms] by blast

section \<open>The memory of a user\<close>

definition uaddr :: "memory \<Rightarrow> uint64 \<Rightarrow> uint64 \<Rightarrow> uint64 option" where
  "uaddr m pt va =
     (let v = leaf m pt va
      in if va < MAXVA \<and> valid_pte v \<and> v AND PTE_U \<noteq> 0 \<and> PTE2PA v \<noteq> 0
         then Some (PTE2PA v + (va - PGROUNDDOWN va)) else None)"

definition umem :: "memory \<Rightarrow> uint64 \<Rightarrow> uint64 \<Rightarrow> uchar option" where
  "umem m pt va = map_option m (uaddr m pt va)"

lemma PGROUNDDOWN_MAXVA_iff: "PGROUNDDOWN va < MAXVA \<longleftrightarrow> va < MAXVA"
  by (auto simp: word_less_nat_alt unat_PGROUNDDOWN)

lemma PGROUNDDOWN_idem [simp]: "PGROUNDDOWN (PGROUNDDOWN va) = PGROUNDDOWN va"
  by (intro PX_page) (simp add: aligned_iff_unat unat_PGROUNDDOWN)

text \<open>\<open>walkaddr\<close> on the page of an address finds the page its bytes are in.\<close>

lemma walkaddr_page:
  assumes "pt_ok s F pt"
  shows "walkaddr pt (PGROUNDDOWN va) s =
    Ret (case uaddr (mem s) pt va of None \<Rightarrow> 0 | Some pa \<Rightarrow> pa - (va - PGROUNDDOWN va))"
proof (cases "va < MAXVA")
  case True
  then have lt: "PGROUNDDOWN va < MAXVA" by (simp only: PGROUNDDOWN_MAXVA_iff)
  have lf: "leaf (mem s) pt (PGROUNDDOWN va) = leaf (mem s) pt va" by (rule leaf_PGROUNDDOWN)
  show ?thesis
  proof (cases "node (mem s) pt (vpath (PGROUNDDOWN va))")
    case None
    then have "leaf (mem s) pt va = 0" using lf by (simp add: leaf_def)
    then show ?thesis using None lt valid_PTE(3) by (auto simp: walkaddr_def walk_find uaddr_def Let_def)
  next
    case (Some u)
    have "is_page s u" using nodesI[OF Some] assms by (simp add: pt_ok_def)
    then have "pte_addr u (PX 0 (PGROUNDDOWN va)) \<noteq> 0" using pte_nonnull[OF _ PX_less] by blast
    then show ?thesis
      using Some lt True leaf_found[OF Some] lf by (auto simp: walkaddr_def walk_find uaddr_def Let_def)
  qed
next
  case False
  then have "\<not> PGROUNDDOWN va < MAXVA" by (metis PGROUNDDOWN_MAXVA_iff)
  then show ?thesis using False by (auto simp: walkaddr_def uaddr_def Let_def not_less)
qed

text \<open>The bytes a copy loop handles at a time lie in one page.\<close>

lemma in_page_same:
  assumes "i < in_page va n"
  shows "PGROUNDDOWN (va + of_nat i) = PGROUNDDOWN va" "unat (va + of_nat i) = unat va + i"
proof -
  define q r where "q = unat va div 4096" and "r = unat va mod 4096"
  have va: "unat va = q * 4096 + r" by (simp add: q_def r_def)
  have i: "r + i < 4096" using assms by (simp add: in_page_eq r_def less_diff_conv add.commute)
  have "q < 0x10000000000000" using unat_bound64[of va] by (simp add: q_def less_mult_imp_div_less)
  then have b: "unat va + i < 2 ^ 64" using i by (simp add: va)
  then show u: "unat (va + of_nat i) = unat va + i" by (simp add: unat_word_ariths unat_of_nat)
  have "(unat va + i) div 4096 = unat va div 4096" using i by (simp add: va div_eq_iff_range)
  then show "PGROUNDDOWN (va + of_nat i) = PGROUNDDOWN va"
    by (simp add: word_unat_eq_iff unat_PGROUNDDOWN u)
qed

lemma uaddr_same_page:
  assumes "uaddr m pt va = Some pa" "i < in_page va n"
  shows "uaddr m pt (va + of_nat i) = Some (pa + of_nat i)"
proof -
  note p = in_page_same[OF assms(2)]
  have l: "leaf m pt (va + of_nat i) = leaf m pt va"
    by (metis leaf_PGROUNDDOWN p(1))
  have "va + of_nat i < MAXVA" if "va < MAXVA"
    using that PGROUNDDOWN_MAXVA_iff[of va] PGROUNDDOWN_MAXVA_iff[of "va + of_nat i"] p(1) by simp
  then show ?thesis using assms(1) by (auto simp: uaddr_def Let_def l p(1) split: if_splits)
qed

lemma in_page_next:
  assumes "in_page va n < n"
  shows "PGROUNDDOWN va + PGSIZE = va + of_nat (in_page va n)"
proof -
  have "in_page va n = 4096 - unat va mod 4096" using assms by (auto simp: in_page_eq)
  then have "of_nat (in_page va n) = PGSIZE - of_nat (unat va mod 4096)"
    by (simp add: of_nat_diff less_imp_le)
  moreover have "of_nat (unat va mod 4096) = va - PGROUNDDOWN va" by (simp flip: page_offset)
  ultimately show ?thesis by simp
qed

text \<open>
  The user's bytes are nobody else's: no two user addresses share one, and none lies in a table or
  in a free page.
\<close>

definition user_ok :: "memory \<Rightarrow> uint64 list \<Rightarrow> uint64 \<Rightarrow> bool" where
  "user_ok m F pt \<longleftrightarrow>
     (\<forall>va vb pa. uaddr m pt va = Some pa \<longrightarrow>
        (uaddr m pt vb = Some pa \<longrightarrow> va = vb) \<and> (\<forall>t \<in> nodes m pt \<union> set F. pa \<notin> span t 4096))"

lemma user_okD:
  assumes "user_ok m F pt" "uaddr m pt va = Some pa"
  shows "uaddr m pt vb = Some pa \<Longrightarrow> va = vb" "t \<in> nodes m pt \<union> set F \<Longrightarrow> pa \<notin> span t 4096"
  using assms unfolding user_ok_def by blast+

lemma uaddr_frame:
  assumes "\<And>t x. t \<in> nodes m pt \<Longrightarrow> x \<in> span t 4096 \<Longrightarrow> m' x = m x"
  shows "uaddr m' pt = uaddr m pt"
  by (rule ext) (simp add: uaddr_def tree_frame(2)[OF assms])

lemma pt_ok_frame:
  assumes "pt_ok s F pt" "\<And>t x. t \<in> nodes (mem s) pt \<union> set F \<Longrightarrow> x \<in> span t 4096 \<Longrightarrow> m' x = mem s x"
  shows "pt_ok (s\<lparr>mem := m'\<rparr>) F pt"
proof -
  have f: "free_pages s F" using assms(1) by (simp add: pt_ok_def)
  have "free_pages (s\<lparr>mem := m'\<rparr>) F" by (rule free_pages_frame[OF f]) (simp_all, blast intro: assms(2))
  moreover have fr: "m' x = mem s x" if "t \<in> nodes (mem s) pt" "x \<in> span t 4096" for t x
    using assms(2) that by blast
  moreover have "nodes m' pt = nodes (mem s) pt" by (rule tree_frame(3)[OF fr])
  moreover have "node m' pt p = node (mem s) pt p" if "p \<in> paths" for p
    using tree_frame(1)[of "mem s" pt m' p] fr that by blast
  ultimately show ?thesis using assms(1) unfolding pt_ok_def is_page_def by simp
qed

lemma store_user:
  assumes ok: "pt_ok s F pt" "user_ok (mem s) F pt"
    and pa: "uaddr (mem s) pt va = Some pa" and n: "length bs \<le> in_page va k"
    and m': "m' = store_bytes (mem s) pa bs"
  shows "uaddr m' pt = uaddr (mem s) pt" "pt_ok (s\<lparr>mem := m'\<rparr>) F pt" "user_ok m' F pt"
    "umem m' pt x = (if unat (x - va) < length bs then Some (bs ! unat (x - va)) else umem (mem s) pt x)"
    "y \<notin> ran (uaddr (mem s) pt) \<Longrightarrow> m' y = mem s y"
proof -
  have u: "uaddr (mem s) pt (va + of_nat i) = Some (pa + of_nat i)" if "i < length bs" for i
    using uaddr_same_page[OF pa, of i k] that n by simp
  have m'x: "m' x = (if unat (x - pa) < length bs then bs ! unat (x - pa) else mem s x)" for x
    by (simp add: m' store_bytes_def)
  have hit: "uaddr (mem s) pt (va + (y - pa)) = Some y" if "unat (y - pa) < length bs" for y
    using u[OF that] by simp
  have fr: "m' y = mem s y" if "t \<in> nodes (mem s) pt \<union> set F" "y \<in> span t 4096" for t y
    using user_okD(2)[OF ok(2) hit that(1)] that(2) m'x[of y] by auto
  show ua: "uaddr m' pt = uaddr (mem s) pt" using fr by (intro uaddr_frame) blast
  show "pt_ok (s\<lparr>mem := m'\<rparr>) F pt" using fr by (intro pt_ok_frame[OF ok(1)])
  have "nodes m' pt = nodes (mem s) pt" using fr by (intro tree_frame(3)) blast
  then show "user_ok m' F pt" using ok(2) by (simp add: user_ok_def ua)
  show "y \<notin> ran (uaddr (mem s) pt) \<Longrightarrow> m' y = mem s y" using hit[of y] m'x[of y] by (auto simp: ran_def)
  show "umem m' pt x = (if unat (x - va) < length bs then Some (bs ! unat (x - va)) else umem (mem s) pt x)"
  proof (cases "uaddr (mem s) pt x")
    case None
    then show ?thesis using u[of "unat (x - va)"] by (auto simp: umem_def ua)
  next
    case (Some y)
    have "unat (y - pa) < length bs \<longleftrightarrow> unat (x - va) < length bs \<and> y - pa = x - va"
      using user_okD(1)[OF ok(2) hit Some] u[of "unat (x - va)"] Some by auto
    moreover have "y - pa = x - va" if "unat (x - va) < length bs" using u[OF that] Some by auto
    ultimately show ?thesis using Some m'x[of y] by (auto simp: umem_def ua)
  qed
qed

section \<open>Copying\<close>

lemma load_user:
  assumes "uaddr m pt va = Some pa" "i < in_page va k"
  shows "umem m pt (va + of_nat i) = Some (load_bytes m pa (in_page va k) ! i)"
  using uaddr_same_page[OF assms] assms(2) by (simp add: umem_def load_bytes_def)

lemma user_append:
  assumes "uaddr m pt va = Some pa" "\<And>i. i < length bs \<Longrightarrow> umem m pt (PGROUNDDOWN va + PGSIZE + of_nat i) = Some (bs ! i)"
    and "length bs \<le> k - in_page va k" and i: "i < in_page va k + length bs"
  shows "umem m pt (va + of_nat i) = Some ((load_bytes m pa (in_page va k) @ bs) ! i)"
proof (cases "i < in_page va k")
  case True
  then show ?thesis using load_user[OF assms(1) True] by (simp add: nth_append)
next
  case False
  let ?j = "i - in_page va k"
  have "in_page va k < k" using False i assms(3) by auto
  from in_page_next[OF this] False have "PGROUNDDOWN va + PGSIZE + of_nat ?j = va + of_nat i" by simp
  moreover have "umem m pt (PGROUNDDOWN va + PGSIZE + of_nat ?j) = Some (bs ! ?j)"
    using False i by (intro assms(2)) auto
  ultimately show ?thesis using False by (simp only: nth_append length_load_bytes if_False)
qed

lemma uaddr_page_start:
  "uaddr m pt va = Some pa \<Longrightarrow> pa - (va - PGROUNDDOWN va) \<noteq> 0"
  "uaddr m pt va = Some pa \<Longrightarrow> pa - (va - PGROUNDDOWN va) + (va - PGROUNDDOWN va) = pa"
  by (auto simp: uaddr_def Let_def split: if_splits)

text \<open>One turn of the copy loops, over the user's memory.\<close>

lemma copyin_step:
  assumes "pt_ok s F pt" "0 < len"
  shows "copyin pt srcva len s =
    (case uaddr (mem s) pt srcva of None \<Rightarrow> Ret (- 1, [])
     | Some pa \<Rightarrow> bindo (copyin pt (PGROUNDDOWN srcva + PGSIZE) (len - in_page srcva len) s) (\<lambda>(r, bs).
         Ret (r, load_bytes (mem s) pa (in_page srcva len) @ bs)))"
  using assms(2) walkaddr_page[OF assms(1), of srcva] uaddr_page_start[of "mem s" pt srcva]
  by (subst copyin.simps) (auto simp: Let_def split: option.split)

text \<open>
  \<open>copyin\<close> returns 0 and the \<open>len\<close> bytes of the user's memory at \<open>srcva\<close>, or -1 at the first
  address the user cannot access, having copied exactly the bytes before it.
\<close>

lemma copyin_spec:
  assumes "pt_ok s F pt"
  shows "\<exists>r bs. copyin pt srcva len s = Ret (r, bs) \<and>
    (\<forall>i < length bs. umem (mem s) pt (srcva + of_nat i) = Some (bs ! i)) \<and>
    (r = 0 \<and> length bs = len \<or>
     r = - 1 \<and> length bs < len \<and> umem (mem s) pt (srcva + of_nat (length bs)) = None)"
proof (induction len arbitrary: srcva rule: less_induct)
  case (less len)
  show ?case
  proof (cases "len = 0")
    case True
    then show ?thesis by (simp add: copyin.simps)
  next
    case False
    let ?n = "in_page srcva len"
    show ?thesis
    proof (cases "uaddr (mem s) pt srcva")
      case None
      then show ?thesis using copyin_step[OF assms, of len srcva] False by (simp add: umem_def)
    next
      case (Some pa)
      let ?va = "PGROUNDDOWN srcva + PGSIZE"
      have lt: "len - ?n < len" using False in_page_bounds(1)[of len srcva] by simp
      from less.IH[OF this, of ?va] obtain r bs where IH: "copyin pt ?va (len - ?n) s = Ret (r, bs)"
        "\<And>i. i < length bs \<Longrightarrow> umem (mem s) pt (?va + of_nat i) = Some (bs ! i)"
        "r = 0 \<and> length bs = len - ?n \<or>
         r = - 1 \<and> length bs < len - ?n \<and> umem (mem s) pt (?va + of_nat (length bs)) = None" by blast
      have nx: "?va + of_nat i = srcva + of_nat (?n + i)" if "?n < len" for i
        using in_page_next[OF that] by (simp add: algebra_simps)
      let ?bs = "load_bytes (mem s) pa ?n @ bs"
      have "length bs \<le> len - ?n" using IH(3) by auto
      then have "umem (mem s) pt (srcva + of_nat i) = Some (?bs ! i)" if "i < length ?bs" for i
        using that by (intro user_append[OF Some IH(2)]) simp_all
      moreover have "copyin pt srcva len s = Ret (r, ?bs)"
        using copyin_step[OF assms, of len srcva] False Some IH(1) by simp
      moreover have "r = 0 \<and> length ?bs = len \<or>
          r = - 1 \<and> length ?bs < len \<and> umem (mem s) pt (srcva + of_nat (length ?bs)) = None"
        using IH(3) nx[of "length bs"] in_page_bounds(2)[of srcva len] by (auto simp: less_diff_conv2 simp flip: add.assoc)
      ultimately show ?thesis by blast
    qed
  qed
qed

lemma copyout_step:
  assumes "pt_ok s F pt" "src \<noteq> []"
  shows "copyout pt dstva src s =
    (case uaddr (mem s) pt dstva of None \<Rightarrow> Ret (- 1, s)
     | Some pa \<Rightarrow> let n = in_page dstva (length src)
         in copyout pt (PGROUNDDOWN dstva + PGSIZE) (drop n src) (s\<lparr>mem := store_bytes (mem s) pa (take n src)\<rparr>))"
  using assms(2) walkaddr_page[OF assms(1), of dstva] uaddr_page_start[of "mem s" pt dstva]
  by (subst copyout.simps) (auto simp: Let_def split: option.split)

lemma mem_update: "mem (s\<lparr>mem := a\<rparr>) = a" "s\<lparr>mem := a\<rparr>\<lparr>mem := b\<rparr> = s\<lparr>mem := b\<rparr>"
  by simp_all

text \<open>Two adjacent writes are one.\<close>

lemma adjacent:
  fixes x va :: uint64
  assumes "n + k < 2 ^ 64"
  shows "unat (x - va) < n + k \<longleftrightarrow> unat (x - va) < n \<or> unat (x - (va + of_nat n)) < k"
    "\<not> unat (x - va) < n \<Longrightarrow> unat (x - (va + of_nat n)) = unat (x - va) - n"
    "unat (x - va) < n \<Longrightarrow> \<not> unat (x - (va + of_nat n)) < k"
proof -
  define d where "d = x - va"
  have n: "unat (of_nat n :: uint64) = n" using assms by (simp add: unat_of_nat)
  have e: "x - (va + of_nat n) = d - of_nat n" by (simp add: d_def)
  show sub: "unat (x - (va + of_nat n)) = unat (x - va) - n" if "\<not> unat (x - va) < n"
    unfolding e d_def[symmetric] using that n
    by (subst unat_sub) (simp_all add: d_def word_le_nat_alt)
  show "unat (x - va) < n + k \<longleftrightarrow> unat (x - va) < n \<or> unat (x - (va + of_nat n)) < k"
    using sub by (cases "unat (x - va) < n") auto
  show "\<not> unat (x - (va + of_nat n)) < k" if "unat (x - va) < n"
    unfolding e using that assms by (simp add: d_def unat_sub_if' word_le_nat_alt n)
qed

lemma copyout_spec:
  assumes "pt_ok s F pt" "user_ok (mem s) F pt" "length src < 2 ^ 64"
  shows "\<exists>r m' n. copyout pt dstva src s = Ret (r, s\<lparr>mem := m'\<rparr>) \<and>
    (\<forall>x. umem m' pt x = (if unat (x - dstva) < n then Some (src ! unat (x - dstva)) else umem (mem s) pt x)) \<and>
    (\<forall>y. y \<notin> ran (uaddr (mem s) pt) \<longrightarrow> m' y = mem s y) \<and>
    (r = 0 \<and> n = length src \<or> r = - 1 \<and> n < length src \<and> umem (mem s) pt (dstva + of_nat n) = None)"
  using assms
proof (induction src arbitrary: dstva s rule: length_induct)
  case (1 src)
  show ?case
  proof (cases "src = [] \<or> uaddr (mem s) pt dstva = None")
    case True
    then show ?thesis
      using copyout_step[OF 1(2), of src dstva]
      by (cases "src = []") (auto simp: copyout.simps umem_def intro!: exI[of _ "mem s"] exI[of _ 0])
  next
    case False
    then obtain pa where pa: "uaddr (mem s) pt dstva = Some pa" by blast
    let ?n = "in_page dstva (length src)" and ?va = "PGROUNDDOWN dstva + PGSIZE"
    let ?bs = "take ?n src" and ?src = "drop ?n src"
    let ?m = "store_bytes (mem s) pa ?bs"
    have n: "0 < ?n" "?n \<le> length src" "length ?bs = ?n" using False in_page_bounds by auto
    note st = store_user[OF 1(2,3) pa _ refl, of ?bs "length src", unfolded n(3), OF order_refl]
    have sh: "length ?src < length src" "length ?src < 2 ^ 64" using n 1(4) by auto
    have us: "user_ok (mem (s\<lparr>mem := ?m\<rparr>)) F pt" using st(3) by simp
    from 1(1)[rule_format, OF sh(1) st(2) us sh(2), of ?va, unfolded mem_update length_drop] obtain r m' k where
      IH: "copyout pt ?va ?src (s\<lparr>mem := ?m\<rparr>) = Ret (r, s\<lparr>mem := m'\<rparr>)"
      "\<And>x. umem m' pt x = (if unat (x - ?va) < k then Some (?src ! unat (x - ?va)) else umem ?m pt x)"
      "\<And>y. y \<notin> ran (uaddr ?m pt) \<Longrightarrow> m' y = ?m y"
      "r = 0 \<and> k = length src - ?n \<or> r = - 1 \<and> k < length src - ?n \<and> umem ?m pt (?va + of_nat k) = None"
      unfolding mem_update length_drop by blast
    have va: "?va = dstva + of_nat ?n" if "?n < length src" using in_page_next[OF that] .
    have nk: "?n + k < 2 ^ 64" using 1(4) IH(4) n by auto
    have "umem m' pt x = (if unat (x - dstva) < ?n + k then Some (src ! unat (x - dstva)) else umem (mem s) pt x)" for x
    proof (cases "k = 0")
      case True
      then show ?thesis using IH(2)[of x] st(4)[of x] by simp
    next
      case False
      then have "?va = dstva + of_nat ?n" using va IH(4) by auto
      note x = IH(2)[of x, unfolded this] st(4)[of x] adjacent[OF nk, of x dstva]
      show ?thesis
      proof (cases "unat (x - dstva) < ?n")
        case True
        then show ?thesis using x by simp
      next
        case False
        then show ?thesis using x n(2) by simp
      qed
    qed
    moreover have "m' y = mem s y" if "y \<notin> ran (uaddr (mem s) pt)" for y
      using IH(3)[of y] st(1,5) that by simp
    moreover have "copyout pt dstva src s = Ret (r, s\<lparr>mem := m'\<rparr>)"
      using copyout_step[OF 1(2), of src dstva] False pa IH(1) by (simp add: Let_def)
    moreover have "r = 0 \<and> ?n + k = length src \<or>
        r = - 1 \<and> ?n + k < length src \<and> umem (mem s) pt (dstva + of_nat (?n + k)) = None"
    proof (cases "r = 0")
      case False
      then have k: "r = - 1" "k < length src - ?n" "umem ?m pt (?va + of_nat k) = None" using IH(4) by auto
      then have "umem (mem s) pt (?va + of_nat k) = None" using st(1) by (simp add: umem_def)
      then show ?thesis using va k by (simp add: add.assoc)
    qed (use IH(4) n in auto)
    ultimately show ?thesis by blast
  qed
qed

text \<open>
  C9. \<open>copyout\<close> returns 0 having written \<open>src\<close> to the user's memory at \<open>dstva\<close>, or -1 at the first
  address the user has not mapped, having written exactly the bytes before it. Nothing else in the
  user's memory changes, and nothing outside it.
\<close>

theorem copyout_writes:
  assumes "pt_ok s F pt" "user_ok (mem s) F pt" "length src < 2 ^ 64"
  shows "\<exists>r m' n. copyout pt dstva src s = Ret (r, s\<lparr>mem := m'\<rparr>) \<and>
    (\<forall>x. umem m' pt x = (if unat (x - dstva) < n then Some (src ! unat (x - dstva)) else umem (mem s) pt x)) \<and>
    (\<forall>y. y \<notin> ran (uaddr (mem s) pt) \<longrightarrow> m' y = mem s y) \<and>
    (r = 0 \<and> n = length src \<or> r = - 1 \<and> n < length src \<and> umem (mem s) pt (dstva + of_nat n) = None)"
  using assms by (rule copyout_spec)

lemma user_frame:
  assumes "pt_ok s F pt" "user_ok (mem s) F pt" "\<And>y. y \<notin> ran (uaddr (mem s) pt) \<Longrightarrow> m' y = mem s y"
  shows "pt_ok (s\<lparr>mem := m'\<rparr>) F pt" "uaddr m' pt = uaddr (mem s) pt"
proof -
  have fr: "m' x = mem s x" if "t \<in> nodes (mem s) pt \<union> set F" "x \<in> span t 4096" for t x
    using user_okD(2)[OF assms(2) _ that(1)] that(2) by (intro assms(3)) (auto simp: ran_def)
  then show "uaddr m' pt = uaddr (mem s) pt" by (intro uaddr_frame) blast
  show "pt_ok (s\<lparr>mem := m'\<rparr>) F pt" using fr by (intro pt_ok_frame[OF assms(1)])
qed

text \<open>
  C22. What \<open>copyout\<close> writes \<open>copyin\<close> reads back: after a successful \<open>copyout\<close> of \<open>src\<close>, \<open>copyin\<close> of as
  many bytes at the same address succeeds and returns \<open>src\<close>.
\<close>

theorem copyout_copyin:
  assumes "pt_ok s F pt" "user_ok (mem s) F pt" "length src < 2 ^ 64" "copyout pt va src s = Ret (0, s')"
  shows "copyin pt va (length src) s' = Ret (0, src)"
proof -
  from copyout_spec[OF assms(1-3), of va] assms(4) obtain m' where s': "s' = s\<lparr>mem := m'\<rparr>"
    and w: "\<And>x. umem m' pt x = (if unat (x - va) < length src then Some (src ! unat (x - va)) else umem (mem s) pt x)"
    and fr: "\<And>y. y \<notin> ran (uaddr (mem s) pt) \<Longrightarrow> m' y = mem s y" by auto
  have ok: "pt_ok s' F pt" unfolding s' by (rule user_frame(1)[OF assms(1,2) fr])
  have rd: "umem (mem s') pt (va + of_nat i) = Some (src ! i)" if "i < length src" for i
    using w[of "va + of_nat i"] that assms(3) by (simp add: s' unat_of_nat)
  from copyin_spec[OF ok, of va "length src"] obtain r bs where bs: "copyin pt va (length src) s' = Ret (r, bs)"
    "\<And>i. i < length bs \<Longrightarrow> umem (mem s') pt (va + of_nat i) = Some (bs ! i)"
    "r = 0 \<and> length bs = length src \<or>
     r = - 1 \<and> length bs < length src \<and> umem (mem s') pt (va + of_nat (length bs)) = None" by blast
  then have "r = 0" "length bs = length src" using rd by auto
  moreover from this have "bs = src" using bs(2) rd by (intro nth_equalityI) auto
  ultimately show ?thesis using bs(1) by simp
qed

lemma copy_str_cases:
  obtains (nul) cs ys where "xs = cs @ 0 # ys" "0 \<notin> set cs" "copy_str xs = (cs @ [0], True)"
  | (none) "0 \<notin> set xs" "copy_str xs = (xs, False)"
proof (induction xs arbitrary: thesis)
  case (Cons c xs)
  show ?case
  proof (cases "c = 0")
    case True
    then show ?thesis using Cons.prems(1)[of "[]" xs] by simp
  next
    case False
    show ?thesis
    proof (rule Cons.IH)
      fix cs ys assume "xs = cs @ 0 # ys" "0 \<notin> set cs" "copy_str xs = (cs @ [0], True)"
      then show thesis using Cons.prems(1)[of "c # cs" ys] False by simp
    next
      assume "0 \<notin> set xs" "copy_str xs = (xs, False)"
      then show thesis using Cons.prems(2) False by simp
    qed
  qed
qed simp

lemma copyinstr_step:
  assumes "pt_ok s F pt" "0 < mx"
  shows "copyinstr pt srcva mx s =
    (case uaddr (mem s) pt srcva of None \<Rightarrow> Ret (- 1, [])
     | Some pa \<Rightarrow> let n = in_page srcva mx; (bs, got_null) = copy_str (load_bytes (mem s) pa n)
         in if got_null then Ret (0, bs)
            else bindo (copyinstr pt (PGROUNDDOWN srcva + PGSIZE) (mx - n) s) (\<lambda>(r, cs). Ret (r, bs @ cs)))"
  using assms(2) walkaddr_page[OF assms(1), of srcva] uaddr_page_start[of "mem s" pt srcva]
  by (subst copyinstr.simps) (auto simp: Let_def split: option.split)

text \<open>
  C20. \<open>copyinstr\<close> returns 0 and the user's string at \<open>srcva\<close> with its terminator, if the terminator
  is among the first \<open>max\<close> bytes and all bytes up to it are accessible. Otherwise it returns -1,
  having copied bytes without a terminator, as many as \<open>max\<close> or up to an inaccessible address.
\<close>

theorem copyinstr_reads:
  assumes "pt_ok s F pt"
  shows "\<exists>r bs. copyinstr pt srcva mx s = Ret (r, bs) \<and> length bs \<le> mx \<and>
    (\<forall>i < length bs. umem (mem s) pt (srcva + of_nat i) = Some (bs ! i)) \<and>
    (r = 0 \<and> (\<exists>cs. bs = cs @ [0] \<and> 0 \<notin> set cs) \<or>
     r = - 1 \<and> 0 \<notin> set bs \<and> (length bs = mx \<or> umem (mem s) pt (srcva + of_nat (length bs)) = None))"
proof (induction mx arbitrary: srcva rule: less_induct)
  case (less mx)
  show ?case
  proof (cases "mx = 0 \<or> uaddr (mem s) pt srcva = None")
    case True
    then show ?thesis
      using copyinstr_step[OF assms, of mx srcva]
      by (cases "mx = 0") (auto simp: copyinstr.simps[of pt srcva 0] umem_def)
  next
    case False
    then obtain pa where pa: "uaddr (mem s) pt srcva = Some pa" by blast
    let ?n = "in_page srcva mx" and ?va = "PGROUNDDOWN srcva + PGSIZE"
    let ?bs = "load_bytes (mem s) pa (in_page srcva mx)"
    note ld = load_user[OF pa, of _ mx]
    show ?thesis
    proof (cases rule: copy_str_cases[of ?bs])
      case (nul cs ys)
      have l: "length cs < ?n" using arg_cong[OF nul(1), of length] by simp
      have "umem (mem s) pt (srcva + of_nat i) = Some ((cs @ [0]) ! i)" if "i < length (cs @ [0])" for i
        using ld[of i] that l unfolding nul(1) by (auto simp: nth_append)
      moreover have "copyinstr pt srcva mx s = Ret (0, cs @ [0])"
        using copyinstr_step[OF assms, of mx srcva] False pa nul(3) by (simp add: Let_def)
      moreover have "length (cs @ [0]) \<le> mx" using l in_page_bounds(2)[of srcva mx] by simp
      ultimately show ?thesis using nul(2) by blast
    next
      case none
      have lt: "mx - ?n < mx" using False in_page_bounds(1)[of mx srcva] by simp
      from less.IH[OF this, of ?va] obtain r bs where IH: "copyinstr pt ?va (mx - ?n) s = Ret (r, bs)"
        "length bs \<le> mx - ?n" "\<And>i. i < length bs \<Longrightarrow> umem (mem s) pt (?va + of_nat i) = Some (bs ! i)"
        "r = 0 \<and> (\<exists>cs. bs = cs @ [0] \<and> 0 \<notin> set cs) \<or> r = - 1 \<and> 0 \<notin> set bs \<and>
         (length bs = mx - ?n \<or> umem (mem s) pt (?va + of_nat (length bs)) = None)" by blast
      have nx: "?va + of_nat i = srcva + of_nat (?n + i)" if "?n < mx" for i
        using in_page_next[OF that] by (simp add: algebra_simps)
      have "umem (mem s) pt (srcva + of_nat i) = Some ((?bs @ bs) ! i)" if "i < length (?bs @ bs)" for i
        using that IH(2) by (intro user_append[OF pa IH(3)]) simp_all
      moreover have "copyinstr pt srcva mx s = Ret (r, ?bs @ bs)"
        using copyinstr_step[OF assms, of mx srcva] False pa none(2) IH(1) by (simp add: Let_def)
      moreover have "length (?bs @ bs) \<le> mx" using IH(2) in_page_bounds(2)[of srcva mx] by simp
      moreover have "r = 0 \<and> (\<exists>cs. ?bs @ bs = cs @ [0] \<and> 0 \<notin> set cs) \<or> r = - 1 \<and> 0 \<notin> set (?bs @ bs) \<and>
         (length (?bs @ bs) = mx \<or> umem (mem s) pt (srcva + of_nat (length (?bs @ bs))) = None)"
      proof (cases "r = 0")
        case True
        with IH(4) obtain cs where "bs = cs @ [0]" "0 \<notin> set cs" by auto
        then have "?bs @ bs = (?bs @ cs) @ [0] \<and> 0 \<notin> set (?bs @ cs)" using none(1) by simp
        then show ?thesis using True by blast
      next
        case False
        then have r: "r = - 1" "0 \<notin> set (?bs @ bs)" using IH(4) none(1) by auto
        have "length (?bs @ bs) = mx \<or> umem (mem s) pt (srcva + of_nat (length (?bs @ bs))) = None"
        proof (cases "?n < mx")
          case True
          then show ?thesis using nx[OF True, of "length bs"] IH(2,4) False by (auto simp flip: add.assoc)
        qed (use in_page_bounds(2)[of srcva mx] IH(2) in auto)
        then show ?thesis using r by blast
      qed
      ultimately show ?thesis by blast
    qed
  qed
qed

lemma page_not_in:
  assumes "page_aligned p" "page_aligned q" "p \<noteq> q" "x \<in> span p 4096"
  shows "x \<notin> span q 4096"
  using page_disjoint[OF assms(1-3)] assms(4) by auto

section \<open>An example user\<close>

text \<open>One readable and writable user page at address 0, in the physical page 0x80004000.\<close>

definition ex_user :: kmem_state where
  "ex_user = ex_space (PA2PTE 0x80004000 OR 0x17)"

lemma ex_user_entry:
  defines "w \<equiv> PA2PTE 0x80004000 OR 0x17"
  shows "PTE2PA w = 0x80004000" "valid_pte w" "w AND PTE_U \<noteq> 0" "PTE_FLAGS w \<noteq> PTE_V"
  by (simp_all add: w_def PTE2PA_def PA2PTE_def valid_pte_def PTE_FLAGS_def drop_bit_eq_div push_bit_eq_mult)

lemma ex_user_ok:
  shows "pt_ok ex_user [] 0x80001000" "nodes (mem ex_user) 0x80001000 = {0x80001000, 0x80002000, 0x80003000}"
    "uaddr (mem ex_user) 0x80001000 va = (if unat va < 4096 then Some (0x80004000 + va) else None)"
    "user_ok (mem ex_user) [] 0x80001000"
proof -
  show "pt_ok ex_user [] 0x80001000" and
    nodes: "nodes (mem ex_user) 0x80001000 = {0x80001000, 0x80002000, 0x80003000}"
    unfolding ex_user_def by (fact ex_space_ok)+
  have pg: "PGROUNDDOWN va = 0 \<longleftrightarrow> unat va < 4096" for va using page_iff[of 0 va] by (simp add: page_aligned_def)
  show ua: "uaddr (mem ex_user) 0x80001000 va = (if unat va < 4096 then Some (0x80004000 + va) else None)" for va
    using ex_space_ok(3)[of va "PA2PTE 0x80004000 OR 0x17"] ex_user_entry valid_PTE(3) pg[of va]
    by (auto simp: uaddr_def ex_user_def Let_def word_less_nat_alt)
  have "0x80004000 + va \<notin> span t 4096" if va: "unat va < 4096" and t: "t \<in> {0x80001000, 0x80002000, 0x80003000}" for va t :: uint64
  proof -
    have x: "0x80004000 + va \<in> span 0x80004000 4096" using va by (simp add: span_def)
    show ?thesis using t by (intro page_not_in[OF _ _ _ x]) (auto simp: page_aligned_def)
  qed
  then show "user_ok (mem ex_user) [] 0x80001000"
    by (auto simp: user_ok_def ua nodes split: if_splits)
qed

theorem uvmunmap_unmaps_witness:
  "removable ex_user [] 0x80001000 True 0 \<and>
   (\<exists>s'. uvmunmap 0x80001000 0 1 True ex_user = Ret s' \<and> pt_ok s' [0x80004000] 0x80001000)"
proof -
  have l: "leaf (mem ex_user) 0x80001000 0 = PA2PTE 0x80004000 OR 0x17"
    using ex_space_ok(3)[of 0] by (simp add: ex_user_def PGROUNDDOWN_def)
  have r: "removable ex_user [] 0x80001000 True 0"
    unfolding removable_def l Let_def ex_user_entry ex_user_ok(2)
    using ex_user_entry by (simp add: is_page_def page_aligned_def ex_user_def ex_space_def)
  have u: "user_pages (mem ex_user) 0x80001000 0 1 = [0x80004000]"
    using ex_user_entry(1) l by (simp add: user_pages_def)
  show ?thesis
    using uvmunmap_unmaps[OF ex_user_ok(1), where va = 0 and n = 1 and do_free = True, unfolded u] r
    by (auto simp: page_aligned_def)
qed

theorem copyout_writes_witness:
  "user_ok (mem ex_user) [] 0x80001000 \<and>
   (\<exists>r m' n. copyout 0x80001000 100 [7, 8] ex_user = Ret (r, ex_user\<lparr>mem := m'\<rparr>) \<and> r = 0 \<and>
      umem m' 0x80001000 101 = Some 8)"
proof -
  from copyout_writes[OF ex_user_ok(1,4), of "[7, 8]" 100] obtain r m' n where
    w: "copyout 0x80001000 100 [7, 8] ex_user = Ret (r, ex_user\<lparr>mem := m'\<rparr>)"
    "umem m' 0x80001000 101 = (if unat (101 - 100 :: uint64) < n then Some ([7, 8] ! unat (101 - 100 :: uint64)) else umem (mem ex_user) 0x80001000 101)"
    "r = 0 \<and> n = 2 \<or> r = - 1 \<and> n < 2 \<and> umem (mem ex_user) 0x80001000 (100 + of_nat n) = None"
    by fastforce
  have "umem (mem ex_user) 0x80001000 100 \<noteq> None" "umem (mem ex_user) 0x80001000 101 \<noteq> None"
    by (simp_all add: umem_def ex_user_ok(3))
  then have "r = 0 \<and> n = 2" using w(3) by (auto simp: numeral_2_eq_2 less_Suc_eq)
  then show ?thesis using w(1,2) ex_user_ok(4) by auto
qed

theorem copyout_copyin_witness:
  "\<exists>s'. copyout 0x80001000 100 [7, 8] ex_user = Ret (0, s') \<and> copyin 0x80001000 100 2 s' = Ret (0, [7, 8])"
proof -
  have len: "length [7, 8 :: uchar] < 2 ^ 64" by simp
  from copyout_spec[OF ex_user_ok(1,4) len, of 100] obtain r m' n where
    w: "copyout 0x80001000 100 [7, 8] ex_user = Ret (r, ex_user\<lparr>mem := m'\<rparr>)"
    "r = 0 \<and> n = length [7, 8 :: uchar] \<or>
     r = - 1 \<and> n < length [7, 8 :: uchar] \<and> umem (mem ex_user) 0x80001000 (100 + of_nat n) = None"
    by blast
  have "umem (mem ex_user) 0x80001000 100 \<noteq> None" "umem (mem ex_user) 0x80001000 101 \<noteq> None"
    by (simp_all add: umem_def ex_user_ok(3))
  then have c: "copyout 0x80001000 100 [7, 8] ex_user = Ret (0, ex_user\<lparr>mem := m'\<rparr>)"
    using w by (auto simp: less_Suc_eq)
  then show ?thesis using copyout_copyin[OF ex_user_ok(1,4) len c] by (auto simp: numeral_2_eq_2)
qed

theorem copyinstr_reads_witness:
  "\<exists>s'. copyout 0x80001000 100 [104, 105, 0] ex_user = Ret (0, s') \<and> copyinstr 0x80001000 100 128 s' = Ret (0, [104, 105, 0])"
proof -
  let ?w = "[104, 105, 0 :: uchar]" and ?pt = "0x80001000 :: uint64"
  have len: "length ?w < 2 ^ 64" by simp
  from copyout_spec[OF ex_user_ok(1,4) len, of 100] obtain r m' n where
    w: "copyout ?pt 100 ?w ex_user = Ret (r, ex_user\<lparr>mem := m'\<rparr>)"
    "\<forall>x. umem m' ?pt x = (if unat (x - 100) < n then Some (?w ! unat (x - 100)) else umem (mem ex_user) ?pt x)"
    "\<forall>y. y \<notin> ran (uaddr (mem ex_user) ?pt) \<longrightarrow> m' y = mem ex_user y"
    "r = 0 \<and> n = length ?w \<or> r = - 1 \<and> n < length ?w \<and> umem (mem ex_user) ?pt (100 + of_nat n) = None"
    by blast
  have "umem (mem ex_user) ?pt 100 \<noteq> None" "umem (mem ex_user) ?pt 101 \<noteq> None" "umem (mem ex_user) ?pt 102 \<noteq> None"
    by (simp_all add: umem_def ex_user_ok(3))
  then have rn: "r = 0" "n = 3" using w(4) by (auto simp: less_Suc_eq)
  have um: "umem m' ?pt (100 + of_nat i) = Some (?w ! i)" if "i < 3" for i
    using w(2) rn(2) that by (simp add: unat_of_nat)
  let ?s = "ex_user\<lparr>mem := m'\<rparr>"
  have ok: "pt_ok ?s [] ?pt" by (rule user_frame(1)[OF ex_user_ok(1,4)]) (use w(3) in blast)
  from copyinstr_reads[OF ok, of 100 128] obtain q bs where
    c: "copyinstr ?pt 100 128 ?s = Ret (q, bs)" "\<And>i. i < length bs \<Longrightarrow> umem m' ?pt (100 + of_nat i) = Some (bs ! i)"
      "q = 0 \<and> (\<exists>cs. bs = cs @ [0] \<and> 0 \<notin> set cs) \<or>
       q = - 1 \<and> 0 \<notin> set bs \<and> (length bs = 128 \<or> umem m' ?pt (100 + of_nat (length bs)) = None)" by auto
  have b: "bs ! i = ?w ! i" if "i < length bs" "i < 3" for i using c(2)[OF that(1)] um[OF that(2)] by simp
  have l3: "\<not> length bs < 3 \<or> q = 0" using c(3) um[of "length bs"] by auto
  have "q = 0"
  proof (rule ccontr)
    assume "q \<noteq> 0"
    then have "0 \<notin> set bs" "2 < length bs" using c(3) l3 by auto
    then show False using b[of 2] nth_mem[of 2 bs] by simp
  qed
  then obtain cs where cs: "bs = cs @ [0]" "0 \<notin> set cs" using c(3) by auto
  have "length cs \<noteq> 0" "length cs \<noteq> 1" using b[of "length cs"] cs(1) by auto
  then have "\<not> length cs < 2" by linarith
  moreover have "\<not> 2 < length cs"
  proof
    assume l: "2 < length cs"
    then have "cs ! 2 = 0" using b[of 2] cs(1) by (simp add: nth_append)
    then show False using nth_mem[OF l] cs(2) by simp
  qed
  ultimately have "length bs = 3" using cs(1) by simp
  then have "bs = ?w" using b by (intro nth_equalityI) auto
  then show ?thesis using w(1) rn(1) c(1) \<open>q = 0\<close> by auto
qed

end
