(* ===== verification/Vm_Fork.thy ===== *)
theory Vm_Fork
  imports Vm_User
begin

text \<open>
  \<open>uvmcopy\<close>, the copy of a parent's memory that \<open>fork\<close> gives its child. The invariant \<open>copying\<close> of
  its loop says which pages have been taken, what the child's table maps and what the new pages
  hold; on success the child has the parent's memory at the parent's addresses, in pages of its
  own, and on failure every page is back in the pool or a table of the child.
\<close>

section \<open>Taking a page and filling it\<close>

lemma pt_ok_change:
  assumes "pt_ok s G pt" "free_pages s' F" "\<And>t. t \<in> nodes (mem s) pt \<Longrightarrow> t \<notin> set F" "kend s' = kend s"
    and fr: "\<And>t x. t \<in> nodes (mem s) pt \<Longrightarrow> x \<in> span t 4096 \<Longrightarrow> mem s' x = mem s x"
  shows "pt_ok s' F pt"
proof -
  have "nodes (mem s') pt = nodes (mem s) pt" by (rule tree_frame(3)[OF fr])
  moreover have "node (mem s') pt p = node (mem s) pt p" if "p \<in> paths" for p
    using tree_frame(1)[of "mem s" pt "mem s'" p] fr that by blast
  ultimately show ?thesis using assms(1-4) unfolding pt_ok_def is_page_def by simp
qed

lemma copy_page:
  assumes fp: "free_pages s (pg # F)" and src: "is_page s src" "src \<noteq> pg"
    and s1: "s1 = (snd (kalloc s))\<lparr>mem := memmove (mem (snd (kalloc s))) pg src 4096\<rparr>"
  shows "free_pages s1 F" "kend s1 = kend s" "kmem_state.more s1 = kmem_state.more s"
    "\<And>x. x \<notin> span pg 4096 \<Longrightarrow> mem s1 x = mem s x"
    "\<And>x. x \<in> span pg 4096 \<Longrightarrow> mem s1 x = mem s (src + (x - pg))"
proof -
  have pg: "is_page s pg" "pg \<notin> set F" using fp by (auto simp: free_pages_def)
  have ap: "page_aligned pg" "page_aligned src" using pg src by (simp_all add: is_page_def)
  have b: "unat pg < 0x88000000" "unat src < 0x88000000" using pg src by (auto simp: is_page_def word_less_nat_alt)
  let ?k = "snd (kalloc s)"
  have k: "mem ?k x = mem s x" if "x \<notin> span pg 4096" for x using kalloc_Cons[OF fp] that by (simp add: memset_page_outside)
  have mv: "mem s1 = store_bytes (mem ?k) pg (load_bytes (mem ?k) src 4096)"
    using b by (simp add: s1 memmove_eq_store)
  show out: "mem s1 x = mem s x" if "x \<notin> span pg 4096" for x
    unfolding mv using that k by (simp add: store_bytes_outside)
  show "mem s1 x = mem s (src + (x - pg))" if "x \<in> span pg 4096" for x
  proof -
    have u: "unat (x - pg) < 4096" using that by (simp add: span_def)
    then have "src + (x - pg) \<in> span src 4096" by (simp add: span_def)
    then have "src + (x - pg) \<notin> span pg 4096" using page_not_in[OF ap(2,1) src(2)] by simp
    then show ?thesis using u k by (simp add: mv store_bytes_def load_bytes_def)
  qed
  show "free_pages s1 F"
  proof (rule free_pages_frame[OF free_pages_kalloc[OF fp]])
    fix p x assume p: "p \<in> set F" "x \<in> span p 4096"
    then have "page_aligned p" "p \<noteq> pg" using fp by (auto simp: free_pages_def is_page_def)
    then have "x \<notin> span pg 4096" using page_not_in[OF _ ap(1)] p(2) by blast
    then show "mem s1 x = mem ?k x" using out k by simp
  qed (simp_all add: s1)
  show "kend s1 = kend s" "kmem_state.more s1 = kmem_state.more s" using kalloc_Cons[OF fp] by (simp_all add: s1)
qed

section \<open>The invariant of the copying loop\<close>

abbreviation (input) nth_page :: "nat \<Rightarrow> uint64" where
  "nth_page j \<equiv> of_nat j * PGSIZE"

text \<open>The parent's first \<open>n\<close> pages can be copied: they are mapped, and the child has nothing there.\<close>

definition forkable :: "'a kmem_state_scheme \<Rightarrow> uint64 list \<Rightarrow> uint64 \<Rightarrow> uint64 \<Rightarrow> nat \<Rightarrow> bool" where
  "forkable s F old new n \<longleftrightarrow> pt_ok s F old \<and> pt_ok s F new \<and> nodes (mem s) old \<inter> nodes (mem s) new = {} \<and>
     n * 4096 \<le> 0x4000000000 \<and>
     (\<forall>j < n. removable s F old True (nth_page j) \<and>
        PTE2PA (leaf (mem s) old (nth_page j)) \<notin> nodes (mem s) new \<and> \<not> valid_pte (leaf (mem s) new (nth_page j)))"

definition copying :: "uint64 \<Rightarrow> uint64 \<Rightarrow> 'a kmem_state_scheme \<Rightarrow> uint64 list \<Rightarrow> uint64 list \<Rightarrow>
    'a kmem_state_scheme \<Rightarrow> uint64 list \<Rightarrow> bool" where
  "copying old new s0 F0 Q s F \<longleftrightarrow>
     pt_ok s F new \<and> kend s = kend s0 \<and> kmem_state.more s = kmem_state.more s0 \<and>
     distinct Q \<and> set Q \<inter> set F = {} \<and> set Q \<inter> nodes (mem s) new = {} \<and>
     nodes (mem s0) new \<subseteq> nodes (mem s) new \<and>
     set F0 = set F \<union> set Q \<union> (nodes (mem s) new - nodes (mem s0) new) \<and>
     (\<forall>vb < MAXVA. leaf (mem s) new vb =
        (if unat vb < length Q * 4096
         then PA2PTE (Q ! (unat vb div 4096)) OR PTE_FLAGS (leaf (mem s0) old vb) OR PTE_V else leaf (mem s0) new vb)) \<and>
     (\<forall>j < length Q. \<forall>x \<in> span (Q ! j) 4096.
        mem s x = mem s0 (PTE2PA (leaf (mem s0) old (nth_page j)) + (x - Q ! j))) \<and>
     (\<forall>x. (\<forall>t \<in> nodes (mem s0) new \<union> set F0. x \<notin> span t 4096) \<longrightarrow> mem s x = mem s0 x)"

lemma copying_start: "pt_ok s F new \<Longrightarrow> copying old new s F [] s F"
  by (auto simp: copying_def)

lemma copying_pages:
  assumes "forkable s0 F0 old new n" "copying old new s0 F0 Q s F"
  shows "t \<in> nodes (mem s0) new \<union> set F0 \<Longrightarrow> is_page s0 t" "t \<in> nodes (mem s) new \<Longrightarrow> t \<in> nodes (mem s0) new \<union> set F0"
  using assms by (auto simp: copying_def forkable_def pt_ok_def free_pages_def)

lemma copying_leaf:
  assumes "copying old new s0 F0 Q s F" "vb < MAXVA"
  shows "leaf (mem s) new vb = (if unat vb < length Q * 4096
    then PA2PTE (Q ! (unat vb div 4096)) OR PTE_FLAGS (leaf (mem s0) old vb) OR PTE_V else leaf (mem s0) new vb)"
  using assms unfolding copying_def by blast

text \<open>The parent is not touched: nothing changes but tables of the child and pages of the pool.\<close>

lemma parent_kept:
  assumes fk: "forkable s0 F0 old new n" and fp: "free_pages s F" "set F \<subseteq> set F0" "kend s = kend s0"
    and fr0: "\<And>x. \<forall>t \<in> nodes (mem s0) new \<union> set F0. x \<notin> span t 4096 \<Longrightarrow> mem s x = mem s0 x"
  shows "leaf (mem s) old va = leaf (mem s0) old va" "pt_ok s F old" "nodes (mem s) old = nodes (mem s0) old"
    "\<And>j x. j < n \<Longrightarrow> x \<in> span (PTE2PA (leaf (mem s0) old (nth_page j))) 4096 \<Longrightarrow> mem s x = mem s0 x"
proof -
  have pg: "is_page s0 t" if "t \<in> nodes (mem s0) new \<union> set F0" for t
    using fk that by (auto simp: forkable_def pt_ok_def free_pages_def)
  have out: "mem s x = mem s0 x" if p: "is_page s0 p" "p \<notin> nodes (mem s0) new \<union> set F0" "x \<in> span p 4096" for p x
  proof (rule fr0, rule ballI)
    fix t assume t: "t \<in> nodes (mem s0) new \<union> set F0"
    then have "p \<noteq> t" using p(2) by auto
    then show "x \<notin> span t 4096" using pg[OF t] p(1) by (intro page_not_in[OF _ _ _ p(3)]) (simp_all add: is_page_def)
  qed
  have old: "is_page s0 t" "t \<notin> nodes (mem s0) new \<union> set F0" if "t \<in> nodes (mem s0) old" for t
    using fk that by (auto simp: forkable_def pt_ok_def)
  have fr: "mem s x = mem s0 x" if "t \<in> nodes (mem s0) old" "x \<in> span t 4096" for t x
    using out old[OF that(1)] that(2) by blast
  show "leaf (mem s) old va = leaf (mem s0) old va" "nodes (mem s) old = nodes (mem s0) old"
    using tree_frame(2,3)[of "mem s0" old "mem s"] fr by blast+
  show "mem s x = mem s0 x" if "j < n" "x \<in> span (PTE2PA (leaf (mem s0) old (nth_page j))) 4096" for j x
    using fk that(1) by (intro out[OF _ _ that(2)]) (auto simp: forkable_def removable_def Let_def)
  show "pt_ok s F old"
  proof (rule pt_ok_change[OF _ fp(1) _ fp(3) fr])
    show "pt_ok s0 F0 old" using fk by (simp add: forkable_def)
    show "t \<notin> set F" if "t \<in> nodes (mem s0) old" for t using old[OF that] fp(2) by auto
  qed
qed

lemma copying_frame:
  assumes "copying old new s0 F0 Q s F"
  shows "free_pages s F" "set F \<subseteq> set F0" "kend s = kend s0"
    "\<forall>t \<in> nodes (mem s0) new \<union> set F0. x \<notin> span t 4096 \<Longrightarrow> mem s x = mem s0 x"
  using assms by (auto simp: copying_def pt_ok_def)

lemma copying_parent:
  assumes fk: "forkable s0 F0 old new n" and cp: "copying old new s0 F0 Q s F"
  shows "leaf (mem s) old va = leaf (mem s0) old va" "pt_ok s F old" "nodes (mem s) old = nodes (mem s0) old"
    "\<And>j x. j < n \<Longrightarrow> x \<in> span (PTE2PA (leaf (mem s0) old (nth_page j))) 4096 \<Longrightarrow> mem s x = mem s0 x"
  using parent_kept[OF fk copying_frame(1-3)[OF cp]] copying_frame(4)[OF cp] by blast+

text \<open>One more page.\<close>

lemma copying_source:
  assumes "forkable s0 F0 old new n" "j < n"
  shows "is_page s0 (PTE2PA (leaf (mem s0) old (nth_page j)))" "PTE2PA (leaf (mem s0) old (nth_page j)) \<notin> set F0"
    "valid_pte (leaf (mem s0) old (nth_page j))" "\<not> valid_pte (leaf (mem s0) new (nth_page j))"
    "PTE_FLAGS (leaf (mem s0) old (nth_page j)) \<noteq> PTE_V"
    "unat (nth_page j :: uint64) = j * 4096" "nth_page j < (MAXVA :: uint64)" "page_aligned (nth_page j)"
proof -
  have "n * 4096 \<le> 0x4000000000" using assms(1) by (simp add: forkable_def)
  then show "unat (nth_page j :: uint64) = j * 4096" "nth_page j < (MAXVA :: uint64)" "page_aligned (nth_page j)"
    using page_index[of 0 n j] assms(2) by (simp_all add: page_aligned_def)
qed (use assms in \<open>auto simp: forkable_def removable_def Let_def\<close>)

lemma copying_child:
  assumes fk: "forkable s0 F0 old new n" and cp: "copying old new s0 F0 Q s (pg # F)" and k: "length Q < n"
    and s1: "s1 = (snd (kalloc s))\<lparr>mem := memmove (mem (snd (kalloc s))) pg (PTE2PA (leaf (mem s) old (nth_page (length Q)))) 4096\<rparr>"
  shows "pt_ok s1 F new" "\<And>va. leaf (mem s1) new va = leaf (mem s) new va" "nodes (mem s1) new = nodes (mem s) new"
    "kend s1 = kend s" "kmem_state.more s1 = kmem_state.more s" "is_page s pg" "pg \<notin> set F" "pg \<notin> nodes (mem s) new"
    "\<And>x. x \<notin> span pg 4096 \<Longrightarrow> mem s1 x = mem s x"
    "\<And>x. x \<in> span pg 4096 \<Longrightarrow> mem s1 x = mem s0 (PTE2PA (leaf (mem s0) old (nth_page (length Q))) + (x - pg))"
proof -
  let ?src = "PTE2PA (leaf (mem s0) old (nth_page (length Q)))"
  have ok: "pt_ok s (pg # F) new" using cp by (simp add: copying_def)
  then have fp: "free_pages s (pg # F)" by (simp add: pt_ok_def)
  show pg: "is_page s pg" "pg \<notin> set F" "pg \<notin> nodes (mem s) new" using ok by (auto simp: pt_ok_def free_pages_def)
  have src: "is_page s ?src" "?src \<noteq> pg"
    using copying_source(1,2)[OF fk k] cp by (auto simp: copying_def is_page_def)
  have s1': "s1 = (snd (kalloc s))\<lparr>mem := memmove (mem (snd (kalloc s))) pg ?src 4096\<rparr>"
    using s1 copying_parent(1)[OF fk cp] by simp
  note c = copy_page[OF fp src s1']
  show "kend s1 = kend s" "kmem_state.more s1 = kmem_state.more s" by (fact c)+
  show "\<And>x. x \<notin> span pg 4096 \<Longrightarrow> mem s1 x = mem s x" by (fact c(4))
  have fr: "mem s1 x = mem s x" if "t \<in> nodes (mem s) new" "x \<in> span t 4096" for t x
    using pg(1,3) ok that page_not_in[of t pg x] by (intro c(4)) (auto simp: pt_ok_def is_page_def)
  show "pt_ok s1 F new" by (rule pt_ok_change[OF ok c(1) _ c(2) fr]) (use ok in \<open>auto simp: pt_ok_def\<close>)
  show "leaf (mem s1) new va = leaf (mem s) new va" for va using tree_frame(2)[of "mem s" new "mem s1"] fr by blast
  show "nodes (mem s1) new = nodes (mem s) new" using tree_frame(3)[of "mem s" new "mem s1"] fr by blast
  fix x assume x: "x \<in> span pg 4096"
  then have "?src + (x - pg) \<in> span ?src 4096" by (simp add: span_def)
  from copying_parent(4)[OF fk cp k this] show "mem s1 x = mem s0 (?src + (x - pg))" using c(5)[OF x] by simp
qed

text \<open>What the child's tables have taken since does not disturb the pages copied so far.\<close>

lemma copying_memory:
  assumes fk: "forkable s0 F0 old new n" and cp: "copying old new s0 F0 Q s (pg # F)" and k: "length Q < n"
    and s1: "s1 = (snd (kalloc s))\<lparr>mem := memmove (mem (snd (kalloc s))) pg (PTE2PA (leaf (mem s) old (nth_page (length Q)))) 4096\<rparr>"
    and vs: "vm_step new s1 F s2 F2"
  obtains A where "F = A @ F2" "nodes (mem s2) new = nodes (mem s) new \<union> set A"
    "set (Q @ [pg]) \<inter> nodes (mem s2) new = {}"
    "set F0 = set F2 \<union> set (Q @ [pg]) \<union> (nodes (mem s2) new - nodes (mem s0) new)"
    "\<And>j x. j < length (Q @ [pg]) \<Longrightarrow> x \<in> span ((Q @ [pg]) ! j) 4096 \<Longrightarrow>
       mem s2 x = mem s0 (PTE2PA (leaf (mem s0) old (nth_page j)) + (x - (Q @ [pg]) ! j))"
    "\<And>x. \<forall>t \<in> nodes (mem s0) new \<union> set F0. x \<notin> span t 4096 \<Longrightarrow> mem s2 x = mem s0 x"
proof -
  note c = copying_child[OF fk cp k s1]
  obtain A where A: "F = A @ F2" "nodes (mem s2) new = nodes (mem s) new \<union> set A"
    using vs c(3) by (auto simp: vm_step_def)
  have ok: "pt_ok s (pg # F) new" using cp by (simp add: copying_def)
  have Q: "set (Q @ [pg]) \<inter> nodes (mem s2) new = {}" using cp A c(7,8) by (auto simp: copying_def)
  have F0: "set F0 = set F2 \<union> set (Q @ [pg]) \<union> (nodes (mem s2) new - nodes (mem s0) new)"
    using cp A ok unfolding copying_def pt_ok_def by auto
  have sub: "nodes (mem s2) new \<subseteq> nodes (mem s0) new \<union> set F0" using F0 by auto
  have al: "page_aligned t" if "t \<in> nodes (mem s0) new \<union> set F0" for t
    using copying_pages(1)[OF fk cp that] by (simp add: is_page_def)
  have fr2: "mem s2 x = mem s1 x" if "\<forall>t \<in> nodes (mem s2) new. x \<notin> span t 4096" for x
    using vs that by (auto simp: vm_step_def)
  have keep: "mem s2 x = mem s1 x" if "p \<in> set (Q @ [pg])" "x \<in> span p 4096" for p x
    using that Q sub F0 page_not_in[OF al al _ that(2)] by (intro fr2) blast
  show thesis
  proof (rule that[OF A Q F0])
    fix j x assume j: "j < length (Q @ [pg])" "x \<in> span ((Q @ [pg]) ! j) 4096"
    then have m: "mem s2 x = mem s1 x" using keep nth_mem by blast
    show "mem s2 x = mem s0 (PTE2PA (leaf (mem s0) old (nth_page j)) + (x - (Q @ [pg]) ! j))"
    proof (cases "j < length Q")
      case True
      then have q: "Q ! j \<in> set Q" "x \<in> span (Q ! j) 4096" using j(2) by (simp_all add: nth_append)
      have "Q ! j \<noteq> pg" using q(1) cp by (auto simp: copying_def)
      then have "x \<notin> span pg 4096" using q F0 by (intro page_not_in[OF al al]) auto
      then show ?thesis using m c(9) cp True q(2) by (simp add: copying_def nth_append)
    next
      case False
      then have "j = length Q" using j(1) by simp
      then show ?thesis using m c(10) j(2) by simp
    qed
  next
    fix x assume x: "\<forall>t \<in> nodes (mem s0) new \<union> set F0. x \<notin> span t 4096"
    then have "\<forall>t \<in> nodes (mem s2) new. x \<notin> span t 4096" "x \<notin> span pg 4096" using sub F0 by auto
    then have "mem s2 x = mem s x" using fr2 c(9) by simp
    then show "mem s2 x = mem s0 x" using cp x by (simp add: copying_def)
  qed
qed

lemma copying_step:
  assumes fk: "forkable s0 F0 old new n" and cp: "copying old new s0 F0 Q s (pg # F)" and k: "length Q < n"
    and s1: "s1 = (snd (kalloc s))\<lparr>mem := memmove (mem (snd (kalloc s))) pg (PTE2PA (leaf (mem s) old (nth_page (length Q)))) 4096\<rparr>"
    and vs: "vm_step new s1 F s2 F2"
    and lf: "\<And>vb. vb < MAXVA \<Longrightarrow> leaf (mem s2) new vb =
      (if PGROUNDDOWN vb = nth_page (length Q)
       then PA2PTE pg OR PTE_FLAGS (leaf (mem s) old (nth_page (length Q))) OR PTE_V else leaf (mem s1) new vb)"
  shows "copying old new s0 F0 (Q @ [pg]) s2 F2"
proof -
  note c = copying_child[OF fk cp k s1] and src = copying_source[OF fk k]
  from copying_memory[OF fk cp k s1 vs] obtain A where A: "F = A @ F2" "nodes (mem s2) new = nodes (mem s) new \<union> set A"
    "set (Q @ [pg]) \<inter> nodes (mem s2) new = {}"
    "set F0 = set F2 \<union> set (Q @ [pg]) \<union> (nodes (mem s2) new - nodes (mem s0) new)"
    "\<And>j x. j < length (Q @ [pg]) \<Longrightarrow> x \<in> span ((Q @ [pg]) ! j) 4096 \<Longrightarrow>
       mem s2 x = mem s0 (PTE2PA (leaf (mem s0) old (nth_page j)) + (x - (Q @ [pg]) ! j))"
    "\<And>x. \<forall>t \<in> nodes (mem s0) new \<union> set F0. x \<notin> span t 4096 \<Longrightarrow> mem s2 x = mem s0 x" by blast
  have "leaf (mem s2) new vb = (if unat vb < length (Q @ [pg]) * 4096
      then PA2PTE ((Q @ [pg]) ! (unat vb div 4096)) OR PTE_FLAGS (leaf (mem s0) old vb) OR PTE_V else leaf (mem s0) new vb)"
    if vb: "vb < MAXVA" for vb
  proof (cases "PGROUNDDOWN vb = nth_page (length Q)")
    case True
    then have r: "length Q * 4096 \<le> unat vb" "unat vb < length Q * 4096 + 4096"
      using page_iff[OF src(8), of vb] src(6) by auto
    then have "unat vb div 4096 = length Q" by (simp add: div_eq_iff_range)
    moreover have "leaf (mem s) old (nth_page (length Q)) = leaf (mem s0) old vb"
      using leaf_PGROUNDDOWN[of "mem s0" old vb] True copying_parent(1)[OF fk cp] by simp
    ultimately show ?thesis using lf[OF vb] True r by simp
  next
    case False
    then have "\<not> (length Q * 4096 \<le> unat vb \<and> unat vb < length Q * 4096 + 4096)"
      using page_iff[OF src(8), of vb] src(6) by auto
    moreover have "unat vb div 4096 < length Q" if "unat vb < length Q * 4096"
      using that by (simp add: less_mult_imp_div_less)
    moreover have "leaf (mem s2) new vb = leaf (mem s) new vb" using lf[OF vb] False c(2) by simp
    ultimately show ?thesis
      using copying_leaf[OF cp vb] by (cases "unat vb < length Q * 4096") (simp_all add: nth_append)
  qed
  moreover have "distinct (Q @ [pg])" "set (Q @ [pg]) \<inter> set F2 = {}" using cp A(1) c(7) by (auto simp: copying_def)
  moreover have "pt_ok s2 F2 new" "kend s2 = kend s0" "kmem_state.more s2 = kmem_state.more s0"
    using vs c(4,5) cp by (simp_all add: vm_step_def copying_def)
  moreover have "nodes (mem s0) new \<subseteq> nodes (mem s2) new" using cp A(2) by (auto simp: copying_def)
  ultimately show ?thesis unfolding copying_def using A(3-6) by blast
qed

section \<open>Failing half way\<close>

lemma copying_undo:
  assumes fk: "forkable s0 F0 old new n" and cp: "copying old new s0 F0 Q s (pg # F)" and k: "length Q < n"
    and s1: "s1 = (snd (kalloc s))\<lparr>mem := memmove (mem (snd (kalloc s))) pg (PTE2PA (leaf (mem s) old (nth_page (length Q)))) 4096\<rparr>"
    and g: "grows new s1 F s2 []"
  shows "\<exists>s3. kfree pg s2 = Ret s3 \<and> copying old new s0 F0 Q s3 [pg]"
proof -
  have vs: "vm_step new s1 F s2 []" and lf: "\<And>va. leaf (mem s2) new va = leaf (mem s1) new va"
    using g by (auto simp: grows_def)
  note c = copying_child[OF fk cp k s1]
  from copying_memory[OF fk cp k s1 vs] obtain A where A: "F = A @ []" "nodes (mem s2) new = nodes (mem s) new \<union> set A"
    "set (Q @ [pg]) \<inter> nodes (mem s2) new = {}"
    "set F0 = set [] \<union> set (Q @ [pg]) \<union> (nodes (mem s2) new - nodes (mem s0) new)"
    "\<And>j x. j < length (Q @ [pg]) \<Longrightarrow> x \<in> span ((Q @ [pg]) ! j) 4096 \<Longrightarrow>
       mem s2 x = mem s0 (PTE2PA (leaf (mem s0) old (nth_page j)) + (x - (Q @ [pg]) ! j))"
    "\<And>x. \<forall>t \<in> nodes (mem s0) new \<union> set F0. x \<notin> span t 4096 \<Longrightarrow> mem s2 x = mem s0 x" by blast
  have k2: "kend s2 = kend s0" "kmem_state.more s2 = kmem_state.more s0"
    using vs c(4,5) cp by (simp_all add: vm_step_def copying_def)
  have ip: "is_page s2 pg" "pg \<notin> set []" "pg \<notin> nodes (mem s2) new"
    using c(6) k2(1) cp A(3) by (simp_all add: is_page_def copying_def)
  obtain s3 where s3: "kfree pg s2 = Ret s3" "pt_ok s3 [pg] new"
    "nodes (mem s3) new = nodes (mem s2) new" "\<And>va. leaf (mem s3) new va = leaf (mem s2) new va"
    "\<And>va. node (mem s3) new (vpath va) = node (mem s2) new (vpath va)"
    "kend s3 = kend s2" "kmem_state.more s3 = kmem_state.more s2" "\<And>x. x \<notin> span pg 4096 \<Longrightarrow> mem s3 x = mem s2 x"
    by (rule pt_ok_kfree[OF vm_step_pt_ok[OF vs] ip]) (erule that; simp)
  have dj: "distinct Q" "pg \<notin> set Q" "nodes (mem s0) new \<subseteq> nodes (mem s3) new"
    using cp A(2) s3(3) by (auto simp: copying_def)
  have al: "page_aligned t" if "t \<in> set (Q @ [pg])" for t
    using copying_pages(1)[OF fk cp, of t] that A(4) by (auto simp: is_page_def)
  have "mem s3 x = mem s0 (PTE2PA (leaf (mem s0) old (nth_page j)) + (x - Q ! j))"
    if j: "j < length Q" "x \<in> span (Q ! j) 4096" for j x
  proof -
    have "Q ! j \<noteq> pg" using j(1) dj(2) by auto
    then have "x \<notin> span pg 4096" using j by (intro page_not_in[OF al al _ j(2)]) auto
    then show ?thesis using s3(8) A(5)[of j x] j by (simp add: nth_append)
  qed
  moreover have "mem s3 x = mem s0 x" if x: "\<forall>t \<in> nodes (mem s0) new \<union> set F0. x \<notin> span t 4096" for x
    using s3(8) A(6)[OF x] x A(4) by simp
  moreover have "set F0 = set [pg] \<union> set Q \<union> (nodes (mem s3) new - nodes (mem s0) new)" using A(4) s3(3) by auto
  moreover have "set Q \<inter> set [pg] = {}" "set Q \<inter> nodes (mem s3) new = {}" using dj(2) A(3) s3(3) by auto
  moreover have "leaf (mem s3) new vb = leaf (mem s) new vb" for vb using s3(4) lf c(2) by simp
  ultimately have "copying old new s0 F0 Q s3 [pg]"
    unfolding copying_def using s3(2,6,7) k2 dj copying_leaf[OF cp] by simp
  then show ?thesis using s3(1) by blast
qed

lemma FLAGS_small: "PTE_FLAGS v OR PTE_V < 1024"
proof -
  have m: "(0x3FF :: uint64) = mask 10" by (simp add: mask_eq_exp_minus_1)
  have "take_bit 10 (PTE_FLAGS v OR PTE_V) = PTE_FLAGS v OR PTE_V"
    unfolding PTE_FLAGS_def m by (rule bit_word_eqI) (auto simp: bit_simps)
  then show ?thesis using take_bit_self_iff[of 10 "PTE_FLAGS v OR PTE_V"] by simp
qed

lemma valid_iff_bit: "valid_pte v \<longleftrightarrow> bit v 0"
  unfolding valid_pte_def using and_exp_eq_0_iff_not_bit[of v 0] by simp

lemma user_iff_bit: "(v :: uint64) AND PTE_U \<noteq> 0 \<longleftrightarrow> bit v 4"
  using and_exp_eq_0_iff_not_bit[of v 4] by simp

lemma child_entry:
  assumes "is_page s q" "valid_pte v"
  shows "PTE2PA (PA2PTE q OR PTE_FLAGS v OR PTE_V) = q" "PTE_FLAGS (PA2PTE q OR PTE_FLAGS v OR PTE_V) = PTE_FLAGS v"
    "(PA2PTE q OR PTE_FLAGS v OR PTE_V) AND PTE_U \<noteq> 0 \<longleftrightarrow> v AND PTE_U \<noteq> 0"
proof -
  have q: "page_aligned q" "q < 2 ^ 56" using assms(1) page_below by (auto simp: is_page_def)
  have m: "(0x3FF :: uint64) = mask 10" by (simp add: mask_eq_exp_minus_1)
  show "PTE2PA (PA2PTE q OR PTE_FLAGS v OR PTE_V) = q" using PTE2PA_PA2PTE[OF q FLAGS_small] by (simp add: or.assoc)
  have "PTE_FLAGS v OR PTE_V = PTE_FLAGS v"
    using assms(2) unfolding valid_iff_bit PTE_FLAGS_def m by (intro bit_word_eqI) (auto simp: bit_simps)
  then show "PTE_FLAGS (PA2PTE q OR PTE_FLAGS v OR PTE_V) = PTE_FLAGS v"
    using PTE_FLAGS_PTE[OF FLAGS_small, of q v] by (simp add: or.assoc)
  show "(PA2PTE q OR PTE_FLAGS v OR PTE_V) AND PTE_U \<noteq> 0 \<longleftrightarrow> v AND PTE_U \<noteq> 0"
    unfolding user_iff_bit PTE_FLAGS_def PA2PTE_def m by (simp add: bit_simps)
qed

lemma copying_entries:
  assumes fk: "forkable s0 F0 old new n" and cp: "copying old new s0 F0 Q s F" and n: "length Q \<le> n" and j: "j < length Q"
  shows "PTE2PA (leaf (mem s) new (nth_page j)) = Q ! j" "removable s F new True (nth_page j)"
proof -
  let ?v = "leaf (mem s0) old (nth_page j)"
  have jn: "j < n" using n j by simp
  note src = copying_source[OF fk jn]
  have l: "leaf (mem s) new (nth_page j) = PA2PTE (Q ! j) OR PTE_FLAGS ?v OR PTE_V"
    using copying_leaf[OF cp src(7)] src(6) j by simp
  have q: "Q ! j \<in> set Q" using j by simp
  then have pg: "is_page s0 (Q ! j)" using copying_pages(1)[OF fk cp] cp by (auto simp: copying_def)
  note e = child_entry[OF pg src(3)]
  show p: "PTE2PA (leaf (mem s) new (nth_page j)) = Q ! j" using l e(1) by simp
  have "is_page s (Q ! j)" using pg cp by (simp add: copying_def is_page_def)
  moreover have "Q ! j \<notin> set F" "Q ! j \<notin> nodes (mem s) new" using q cp by (auto simp: copying_def)
  moreover have "valid_pte (leaf (mem s) new (nth_page j))" unfolding l by (rule valid_PTE)
  ultimately show "removable s F new True (nth_page j)"
    unfolding removable_def Let_def p using src(5) by (simp add: l e(2))
qed

text \<open>The state after a failed copy: the child's pages are back in the pool.\<close>

definition uncopied :: "uint64 \<Rightarrow> nat \<Rightarrow> 'a kmem_state_scheme \<Rightarrow> uint64 list \<Rightarrow> 'a kmem_state_scheme \<Rightarrow> uint64 list \<Rightarrow> bool" where
  "uncopied new n s0 F0 s F \<longleftrightarrow>
     pt_ok s F new \<and> kend s = kend s0 \<and> kmem_state.more s = kmem_state.more s0 \<and>
     set F0 = set F \<union> (nodes (mem s) new - nodes (mem s0) new) \<and>
     (\<forall>vb < MAXVA. leaf (mem s) new vb = leaf (mem s0) new vb \<or> unat vb < n * 4096 \<and> leaf (mem s) new vb = 0) \<and>
     (\<forall>x. (\<forall>t \<in> nodes (mem s0) new \<union> set F0. x \<notin> span t 4096) \<longrightarrow> mem s x = mem s0 x)"

lemma copying_cleanup:
  assumes fk: "forkable s0 F0 old new n" and cp: "copying old new s0 F0 Q s F" and n: "length Q \<le> n"
  shows "\<exists>s'. uvmunmap new 0 (nth_page (length Q) div PGSIZE) True s = Ret s' \<and> uncopied new n s0 F0 s' (rev Q @ F)"
proof -
  have b: "length Q * 4096 \<le> 0x4000000000" "n * 4096 \<le> 0x4000000000"
    using fk n by (auto simp: forkable_def)
  then have "unat (nth_page (length Q) div PGSIZE :: uint64) = length Q"
    by (simp add: unat_div unat_word_ariths unat_of_nat)
  then have d: "nth_page (length Q) div PGSIZE = (of_nat (length Q) :: uint64)"
    by (metis of_nat_unat ucast_id)
  have up: "user_pages (mem s) new 0 (length Q) = Q"
    using copying_entries(1)[OF fk cp n] by (intro nth_equalityI) (simp_all add: user_pages_def)
  have ok: "pt_ok s F new" "page_aligned 0" "distinct Q" using cp by (simp_all add: copying_def page_aligned_def)
  from uvmunmap_spec[OF ok(1,2), of "length Q" True, unfolded up] copying_entries(2)[OF fk cp n] ok(3) b(1)
  obtain s' where s': "uvmunmap new 0 (of_nat (length Q)) True s = Ret s'" "pt_ok s' (rev Q @ F) new"
    "nodes (mem s') new = nodes (mem s) new" "kend s' = kend s" "kmem_state.more s' = kmem_state.more s"
    "\<And>vb. vb < MAXVA \<Longrightarrow> leaf (mem s') new vb = (if unat vb < length Q * 4096 then 0 else leaf (mem s) new vb)"
    "\<And>x. \<forall>t \<in> nodes (mem s) new. x \<notin> span t 4096 \<Longrightarrow> \<forall>p \<in> set Q. x \<notin> span p 4096 \<Longrightarrow> mem s' x = mem s x"
    by auto
  have F0: "set F0 = set F \<union> set Q \<union> (nodes (mem s) new - nodes (mem s0) new)" using cp by (simp add: copying_def)
  have "uncopied new n s0 F0 s' (rev Q @ F)"
    unfolding uncopied_def
  proof (intro conjI allI impI)
    show "kend s' = kend s0" "kmem_state.more s' = kmem_state.more s0" using s'(4,5) cp by (simp_all add: copying_def)
    show "set F0 = set (rev Q @ F) \<union> (nodes (mem s') new - nodes (mem s0) new)" using F0 s'(3) by auto
    show "leaf (mem s') new vb = leaf (mem s0) new vb \<or> unat vb < n * 4096 \<and> leaf (mem s') new vb = 0" if "vb < MAXVA" for vb
      using s'(6)[OF that] copying_leaf[OF cp that] n by (auto intro: less_le_trans)
    show "mem s' x = mem s0 x" if "\<forall>t \<in> nodes (mem s0) new \<union> set F0. x \<notin> span t 4096" for x
      using that F0 s'(7)[of x] cp copying_pages(2)[OF fk cp] unfolding copying_def by auto
  qed (fact s'(2))
  then show ?thesis using s'(1) d by simp
qed

section \<open>The loop\<close>

lemma mappages_one_page:
  "page_aligned a \<Longrightarrow> a < MAXVA \<Longrightarrow> mappages pt a PGSIZE pa perm s = mappages_loop pt a a pa perm s"
proof -
  assume a: "page_aligned a" "a < MAXVA"
  then have u: "unat a < 0x4000000000" by (simp add: word_less_nat_alt)
  then have "unat (a + PGSIZE - 1) = unat a + 4095" by (simp add: unat_word_ariths unat_sub_if' word_le_nat_alt)
  then have "PGROUNDDOWN (a + PGSIZE - 1) = a" using page_iff[OF a(1), of "a + PGSIZE - 1"] by simp
  then show ?thesis using PX_page[OF a(1)] by (simp add: mappages_def)
qed

lemma uvmcopy_loop_spec:
  assumes fk: "forkable s0 F0 old new n" and sz: "\<And>j. j * 4096 < unat sz \<longleftrightarrow> j < n"
    and cp: "copying old new s0 F0 Q s F" and n: "length Q \<le> n" and few: "length F0 \<le> length F + 3 * length Q"
  shows "\<exists>r s' F'. uvmcopy_loop old new (nth_page (length Q)) sz s = Ret (r, s') \<and>
    (r = 0 \<and> (\<exists>Q'. length Q' = n \<and> copying old new s0 F0 Q' s' F') \<or>
     r = - 1 \<and> length F0 < 3 * n \<and> uncopied new n s0 F0 s' F')"
  using cp n few
proof (induction "n - length Q" arbitrary: Q s F)
  case 0
  have "n * 4096 \<le> 0x4000000000" using fk by (simp add: forkable_def)
  then have "unat (nth_page n :: uint64) = n * 4096" by (simp add: unat_word_ariths unat_of_nat)
  then have "\<not> nth_page n < sz" using sz[of n] by (simp add: word_less_nat_alt)
  then show ?case using 0 by (subst uvmcopy_loop.simps) auto
next
  case (Suc d)
  let ?a = "nth_page (length Q) :: uint64"
  have k: "length Q < n" using Suc.hyps(2) by simp
  note src = copying_source[OF fk k] and par = copying_parent[OF fk Suc.prems(1)]
  have lt: "?a < sz" using sz[of "length Q"] k src(6) by (simp add: word_less_nat_alt)
  let ?v = "leaf (mem s) old ?a"
  have v: "valid_pte ?v" using src(3) par(1) by simp
  from leaf_valid_found[OF this] obtain u where u: "node (mem s) old (vpath ?a) = Some u" "?v = load64 (mem s) (pte_addr u (PX 0 ?a))" .
  have "is_page s u" using nodesI[OF u(1)] par(2) by (simp add: pt_ok_def)
  then have nz: "pte_addr u (PX 0 ?a) \<noteq> 0" using pte_nonnull[OF _ PX_less] by blast
  let ?fail = "\<lambda>s. bindo (uvmunmap new 0 (?a div PGSIZE) True s) (\<lambda>s. Ret (- 1, s))"
  have unfold: "uvmcopy_loop old new ?a sz s = (let (pg, s) = kalloc s in
      if pg = 0 then ?fail s
      else bindo (mappages new ?a PGSIZE pg (PTE_FLAGS ?v) (s\<lparr>mem := memmove (mem s) pg (PTE2PA ?v) 4096\<rparr>)) (\<lambda>(r, s).
        if r \<noteq> 0 then bindo (kfree pg s) ?fail else uvmcopy_loop old new (?a + PGSIZE) sz s))"
    unfolding u(2) using lt src(7) u(1) v[unfolded u(2)] nz
    by (subst uvmcopy_loop.simps) (simp add: walk_find Let_def)
  have failed: "\<exists>r s' F'. ?fail t = Ret (r, s') \<and>
    (r = 0 \<and> (\<exists>Q'. length Q' = n \<and> copying old new s0 F0 Q' s' F') \<or>
     r = - 1 \<and> length F0 < 3 * n \<and> uncopied new n s0 F0 s' F')"
    if "copying old new s0 F0 Q t G" "length F0 < 3 * n" for t G
    using copying_cleanup[OF fk that(1) Suc.prems(2)] that(2) by auto
  have "free_pages s F" using Suc.prems(1) by (simp add: copying_def pt_ok_def)
  then show ?case
  proof (cases rule: kmem.alloc_cases)
    case none
    then show ?thesis using unfold failed[OF Suc.prems(1)] Suc.prems(3) k by simp
  next
    case (some pg F1 s')
    let ?s1 = "s'\<lparr>mem := memmove (mem s') pg (PTE2PA ?v) 4096\<rparr>"
    have cp: "copying old new s0 F0 Q s (pg # F1)" using Suc.prems(1) some(1) by simp
    have s1: "?s1 = (snd (kalloc s))\<lparr>mem := memmove (mem (snd (kalloc s))) pg (PTE2PA ?v) 4096\<rparr>" using some(2) by simp
    note c = copying_child[OF fk cp k s1]
    have nv: "\<not> valid_pte (leaf (mem ?s1) new ?a)" using c(2) copying_leaf[OF cp src(7)] src(4,6) by simp
    show ?thesis
    proof (cases rule: mappages_first[OF c(1) src(8,7) nv, of ?a pg "PTE_FLAGS ?v"])
      case (1 s2)
      from copying_undo[OF fk cp k s1 1(2)] obtain s3 where s3: "kfree pg s2 = Ret s3" "copying old new s0 F0 Q s3 [pg]" by blast
      have "uvmcopy_loop old new ?a sz s = ?fail s3"
        using unfold some(2,4) 1(1) s3(1) by (simp add: mappages_one_page[OF src(8,7)])
      then show ?thesis using failed[OF s3(2)] 1(3) Suc.prems(3) some(1) k by simp
    next
      case (2 s2 F2)
      have cp2: "copying old new s0 F0 (Q @ [pg]) s2 F2" by (rule copying_step[OF fk cp k s1 2(1,2)])
      have "uvmcopy_loop old new ?a sz s = uvmcopy_loop old new (nth_page (length (Q @ [pg]))) sz s2"
        using unfold some(2,4) 2(3) by (simp add: mappages_one_page[OF src(8,7)] algebra_simps)
      then show ?thesis using Suc.hyps(1)[OF _ cp2] Suc.hyps(2) k 2(4) Suc.prems(3) some(1) by simp
    qed
  qed
qed

lemma page_of:
  assumes "unat va < n * 4096" "n * 4096 \<le> 0x4000000000"
  obtains j where "j < n" "PGROUNDDOWN va = nth_page j" "unat va div 4096 = j" "va < MAXVA"
proof (rule that[of "unat va div 4096"])
  show j: "unat va div 4096 < n" using assms(1) by (simp add: less_mult_imp_div_less)
  show "PGROUNDDOWN va = nth_page (unat va div 4096)"
    using page_index(1)[of 0 n "unat va div 4096"] assms j
    by (simp add: word_unat_eq_iff unat_PGROUNDDOWN page_aligned_def)
  show "va < MAXVA" using assms by (simp add: word_less_nat_alt)
qed simp

lemma parent_umem:
  assumes fk: "forkable s0 F0 old new n" and va: "unat va < n * 4096"
    and l: "leaf m old va = leaf (mem s0) old va"
    and k: "\<And>j x. j < n \<Longrightarrow> x \<in> span (PTE2PA (leaf (mem s0) old (nth_page j))) 4096 \<Longrightarrow> m x = mem s0 x"
  shows "umem m old va = umem (mem s0) old va"
proof -
  have "n * 4096 \<le> 0x4000000000" using fk by (simp add: forkable_def)
  from page_of[OF va this] obtain j where j: "j < n" "PGROUNDDOWN va = nth_page j" "unat va div 4096 = j" .
  have "leaf (mem s0) old (nth_page j) = leaf (mem s0) old va" using leaf_PGROUNDDOWN[of "mem s0" old va] j(2) by simp
  moreover have "x + (va - PGROUNDDOWN va) \<in> span x 4096" for x by (simp add: span_def page_offset)
  ultimately show ?thesis using k[OF j(1)] l by (simp add: umem_def uaddr_def Let_def)
qed

lemma child_umem:
  assumes fk: "forkable s0 F0 old new n" and cp: "copying old new s0 F0 Q s F" and n: "length Q = n" and va: "unat va < n * 4096"
  shows "umem (mem s) new va = umem (mem s0) old va" "PTE_FLAGS (leaf (mem s) new va) = PTE_FLAGS (leaf (mem s0) old va)"
    "PTE2PA (leaf (mem s) new va) \<in> set F0" "PTE2PA (leaf (mem s) new va) \<notin> set F"
proof -
  have "n * 4096 \<le> 0x4000000000" using fk by (simp add: forkable_def)
  from page_of[OF va this] obtain j where j: "j < n" "PGROUNDDOWN va = nth_page j" "unat va div 4096 = j" "va < MAXVA" .
  let ?v = "leaf (mem s0) old va"
  have v: "leaf (mem s0) old (nth_page j) = ?v" using leaf_PGROUNDDOWN[of "mem s0" old va] j(2) by simp
  note src = copying_source[OF fk j(1), unfolded v]
  have q: "Q ! j \<in> set Q" using j(1) n by simp
  then have qF: "Q ! j \<in> set F0" "Q ! j \<notin> set F" using cp by (auto simp: copying_def)
  then have pg: "is_page s0 (Q ! j)" using copying_pages(1)[OF fk cp] by simp
  note e = child_entry[OF pg src(3)]
  have l: "leaf (mem s) new va = PA2PTE (Q ! j) OR PTE_FLAGS ?v OR PTE_V"
    using copying_leaf[OF cp j(4)] va n j(3) by simp
  show "PTE_FLAGS (leaf (mem s) new va) = PTE_FLAGS ?v" "PTE2PA (leaf (mem s) new va) \<in> set F0"
    "PTE2PA (leaf (mem s) new va) \<notin> set F" unfolding l e using qF by simp_all
  let ?o = "va - PGROUNDDOWN va"
  have "Q ! j + ?o \<in> span (Q ! j) 4096" by (simp add: span_def page_offset)
  then have m: "mem s (Q ! j + ?o) = mem s0 (PTE2PA ?v + ?o)" using cp j(1) n v unfolding copying_def by fastforce
  have nz: "Q ! j \<noteq> 0" "PTE2PA ?v \<noteq> 0" using pg src(1) by (simp_all add: is_page_def)
  show "umem (mem s) new va = umem (mem s0) old va"
    using m nz src(3) e(1,3) valid_PTE(1) by (simp add: umem_def uaddr_def Let_def l)
qed

text \<open>
  C4. \<open>uvmcopy\<close> of a parent's first \<open>sz\<close> bytes returns without a panic and leaves the parent's memory
  there as it was. If it returns 0 the child sees at every address below \<open>sz\<close> what the parent sees,
  with the same permissions, in pages that were free. It returns -1 only if the pool had fewer than three
  pages for each page to copy (the copy and at most two new tables); then the child has no page there
  and every page of the pool is free again or is now a table of the child, for \<open>freewalk\<close> to return.
\<close>

theorem uvmcopy_copies:
  assumes fk: "forkable s F old new n" and n: "n = (unat sz + 4095) div 4096"
  shows "\<exists>r s' F'. uvmcopy old new sz s = Ret (r, s') \<and> pt_ok s' F' old \<and> pt_ok s' F' new \<and>
    (\<forall>va. unat va < n * 4096 \<longrightarrow> umem (mem s') old va = umem (mem s) old va) \<and>
    (r = 0 \<and> (\<forall>va. unat va < n * 4096 \<longrightarrow> umem (mem s') new va = umem (mem s) old va \<and>
        PTE_FLAGS (leaf (mem s') new va) = PTE_FLAGS (leaf (mem s) old va) \<and>
        (\<exists>p \<in> set F. PTE2PA (leaf (mem s') new va) = p \<and> p \<notin> set F')) \<or>
     r = - 1 \<and> length F < 3 * n \<and> set F = set F' \<union> (nodes (mem s') new - nodes (mem s) new) \<and>
       (\<forall>va. unat va < n * 4096 \<longrightarrow> \<not> valid_pte (leaf (mem s') new va)))"
proof -
  have sz: "j * 4096 < unat sz \<longleftrightarrow> j < n" for j
    unfolding n Suc_le_eq[symmetric] by (simp add: less_eq_div_iff_mult_less_eq)
  have "pt_ok s F new" using fk by (simp add: forkable_def)
  from uvmcopy_loop_spec[OF fk sz copying_start[OF this]] obtain r s' F' where
    l: "uvmcopy_loop old new 0 sz s = Ret (r, s')"
    "r = 0 \<and> (\<exists>Q'. length Q' = n \<and> copying old new s F Q' s' F') \<or> r = - 1 \<and> length F < 3 * n \<and> uncopied new n s F s' F'" by auto
  have eq: "uvmcopy old new sz s = Ret (r, s')" using l(1) by (simp add: uvmcopy_def)
  have fr: "free_pages s' F'" "set F' \<subseteq> set F" "kend s' = kend s" "pt_ok s' F' new"
    "\<forall>t \<in> nodes (mem s) new \<union> set F. x \<notin> span t 4096 \<Longrightarrow> mem s' x = mem s x" for x
    using l(2) by (auto simp: copying_def uncopied_def pt_ok_def)
  note par = parent_kept[OF fk fr(1-3,5)]
  have pu: "umem (mem s') old va = umem (mem s) old va" if "unat va < n * 4096" for va
    using parent_umem[OF fk that par(1,4)] by simp
  from l(2) consider (ok) Q where "r = 0" "length Q = n" "copying old new s F Q s' F'" | (no) "r = - 1" "uncopied new n s F s' F'" "length F < 3 * n"
    by blast
  then show ?thesis
  proof cases
    case ok
    then show ?thesis using eq par(2) fr(4) pu child_umem[OF fk ok(3,2)] by (auto intro!: exI[of _ s'] exI[of _ F'])
  next
    case no
    have "\<not> valid_pte (leaf (mem s') new va)" if va: "unat va < n * 4096" for va
    proof -
      have "n * 4096 \<le> 0x4000000000" using fk by (simp add: forkable_def)
      from page_of[OF va this] obtain j where j: "j < n" "PGROUNDDOWN va = nth_page j" "va < MAXVA" .
      then have "\<not> valid_pte (leaf (mem s) new va)"
        using copying_source(4)[OF fk j(1)] leaf_PGROUNDDOWN[of "mem s" new va] by simp
      then show ?thesis using no(2) j(3) valid_PTE(3) unfolding uncopied_def by metis
    qed
    then show ?thesis using no eq par(2) fr(4) pu by (auto simp: uncopied_def intro!: exI[of _ s'] exI[of _ F'])
  qed
qed

lemma empty_root:
  assumes "\<And>j. j < 512 \<Longrightarrow> \<not> valid_pte (load64 m (pte_addr pt j))"
  shows "p \<in> paths \<Longrightarrow> node m pt p = (if p = [] then Some pt else None)" "leaf m pt va = 0" "nodes m pt = {pt}"
proof -
  have n: "node m pt p = (if p = [] then Some pt else None)" if "p \<in> paths" for p
    using that assms by (cases p) (auto simp: paths_def)
  then show "p \<in> paths \<Longrightarrow> node m pt p = (if p = [] then Some pt else None)" .
  show "leaf m pt va = 0" using n[OF vpath_paths, of va] by (simp add: leaf_def vpath_def)
  show "nodes m pt = {pt}" using n by (auto simp: nodes_def paths_def split: if_splits)
qed

lemma ex_user_empty:
  assumes "page_aligned q" "q \<notin> {0x80001000, 0x80002000, 0x80003000}" "j < 512"
  shows "load64 (mem ex_user) (pte_addr q j) = 0"
proof -
  have "span (pte_addr p 0) 8 \<inter> span (pte_addr q j) 8 = {}" if "p \<in> {0x80001000, 0x80002000, 0x80003000}" for p
    using that assms by (intro pte_disjoint) (auto simp: page_aligned_def)
  then show ?thesis
    by (simp add: ex_user_def ex_space_def ex_tables_def load64_store64_other load64_zero pte_addr_def)
qed

lemma ex_forkable: "forkable ex_user [] 0x80001000 0x80008000 1"
proof -
  have "\<not> valid_pte (load64 (mem ex_user) (pte_addr 0x80008000 j))" if "j < 512" for j
    using ex_user_empty[OF _ _ that] valid_PTE(3) by (simp add: page_aligned_def)
  note e = empty_root[OF this]
  have k: "kend ex_user = 0x80000000" by (simp add: ex_user_def ex_space_def)
  have ok: "pt_ok ex_user [] 0x80008000"
    using ex_user_ok(1) e(1,3) k by (auto simp: pt_ok_def is_page_def page_aligned_def split: if_splits)
  have l: "leaf (mem ex_user) 0x80001000 0 = PA2PTE 0x80004000 OR 0x17"
    using ex_space_ok(3)[of 0] by (simp add: ex_user_def PGROUNDDOWN_def)
  have r: "removable ex_user [] 0x80001000 True 0"
    unfolding removable_def l Let_def ex_user_entry ex_user_ok(2)
    using ex_user_entry by (simp add: is_page_def page_aligned_def k)
  show ?thesis
    unfolding forkable_def using ok ex_user_ok(1,2) r e(2,3) l ex_user_entry(1) valid_PTE(3) by auto
qed

lemma forkable_kfree:
  assumes fk: "forkable s F old new n" and p: "is_page s p" "p \<notin> set F" "p \<notin> nodes (mem s) old \<union> nodes (mem s) new"
    "\<And>j. j < n \<Longrightarrow> PTE2PA (leaf (mem s) old (nth_page j)) \<noteq> p"
  shows "\<exists>s'. kfree p s = Ret s' \<and> forkable s' (p # F) old new n \<and> kend s' = kend s \<and>
     (\<forall>va. leaf (mem s') old va = leaf (mem s) old va) \<and>
     nodes (mem s') old \<union> nodes (mem s') new = nodes (mem s) old \<union> nodes (mem s) new"
proof -
  have ok: "pt_ok s F old" "pt_ok s F new" using fk by (simp_all add: forkable_def)
  have pn: "p \<notin> nodes (mem s) old" "p \<notin> nodes (mem s) new" using p(3) by auto
  obtain s' where o: "kfree p s = Ret s'" "pt_ok s' (p # F) old" "nodes (mem s') old = nodes (mem s) old"
    "\<And>va. leaf (mem s') old va = leaf (mem s) old va" "kend s' = kend s"
    using pt_ok_kfree[OF ok(1) p(1,2) pn(1)] by metis
  obtain s'' where "kfree p s = Ret s''" "pt_ok s'' (p # F) new" "nodes (mem s'') new = nodes (mem s) new"
    "\<And>va. leaf (mem s'') new va = leaf (mem s) new va"
    using pt_ok_kfree[OF ok(2) p(1,2) pn(2)] by metis
  then have w: "pt_ok s' (p # F) new" "nodes (mem s') new = nodes (mem s) new" "\<And>va. leaf (mem s') new va = leaf (mem s) new va"
    using o(1) by auto
  have "forkable s' (p # F) old new n"
    using fk o w p(4) unfolding forkable_def removable_def Let_def is_page_def by auto
  then show ?thesis using o w by auto
qed

lemma ex_fork_pool:
  "\<exists>s :: kmem_state. forkable s [0x80012000, 0x80011000, 0x80010000] 0x80001000 0x80008000 1 \<and>
     (\<forall>va. leaf (mem s) 0x80001000 va = leaf (mem ex_user) 0x80001000 va)"
proof -
  let ?o = "0x80001000" and ?n = "0x80008000"
  have k: "kend ex_user = 0x80000000" by (simp add: ex_user_def ex_space_def)
  have l0: "PTE2PA (leaf (mem ex_user) ?o 0) = 0x80004000"
    using ex_space_ok(3)[of 0] ex_user_entry(1) by (simp add: ex_user_def PGROUNDDOWN_def)
  have "\<not> valid_pte (load64 (mem ex_user) (pte_addr ?n j))" if "j < 512" for j
    using ex_user_empty[OF _ _ that] valid_PTE(3) by (simp add: page_aligned_def)
  note e = empty_root(3)[OF this]
  have nd: "nodes (mem ex_user) ?o \<union> nodes (mem ex_user) ?n = {0x80001000, 0x80002000, 0x80003000, 0x80008000}"
    by (auto simp: ex_user_ok(2) e)
  have pg: "is_page s x" if "kend s = 0x80000000" "x \<in> {0x80010000, 0x80011000, 0x80012000}" for s :: kmem_state and x
    using that by (auto simp: is_page_def page_aligned_def)
  obtain s1 :: kmem_state where s1: "forkable s1 [0x80010000] ?o ?n 1" "kend s1 = 0x80000000"
    "\<forall>va. leaf (mem s1) ?o va = leaf (mem ex_user) ?o va"
    "nodes (mem s1) ?o \<union> nodes (mem s1) ?n = {0x80001000, 0x80002000, 0x80003000, 0x80008000}"
    using forkable_kfree[OF ex_forkable pg[OF k], of "0x80010000"] l0 k nd by auto
  obtain s2 :: kmem_state where s2: "forkable s2 [0x80011000, 0x80010000] ?o ?n 1" "kend s2 = 0x80000000"
    "\<forall>va. leaf (mem s2) ?o va = leaf (mem ex_user) ?o va"
    "nodes (mem s2) ?o \<union> nodes (mem s2) ?n = {0x80001000, 0x80002000, 0x80003000, 0x80008000}"
    using forkable_kfree[OF s1(1) pg[OF s1(2)], of "0x80011000"] l0 s1(2-4) by auto
  obtain s3 :: kmem_state where "forkable s3 [0x80012000, 0x80011000, 0x80010000] ?o ?n 1"
    "\<forall>va. leaf (mem s3) ?o va = leaf (mem ex_user) ?o va"
    using forkable_kfree[OF s2(1) pg[OF s2(2)], of "0x80012000"] l0 s2(2-4) by auto
  then show ?thesis by blast
qed

theorem uvmcopy_copies_witness:
  "\<exists>(s :: kmem_state) s' v. forkable s [0x80012000, 0x80011000, 0x80010000] 0x80001000 0x80008000 1 \<and>
     uvmcopy 0x80001000 0x80008000 4096 s = Ret (0, s') \<and>
     umem (mem s) 0x80001000 7 = Some v \<and> umem (mem s') 0x80008000 7 = Some v \<and> umem (mem s') 0x80001000 7 = Some v \<and>
     PTE2PA (leaf (mem s') 0x80008000 7) \<in> {0x80012000, 0x80011000, 0x80010000}"
proof -
  let ?F = "[0x80012000, 0x80011000, 0x80010000 :: uint64]"
  obtain s :: kmem_state where s: "forkable s ?F 0x80001000 0x80008000 1" "\<forall>va. leaf (mem s) 0x80001000 va = leaf (mem ex_user) 0x80001000 va"
    using ex_fork_pool by blast
  have n: "(1 :: nat) = (unat (4096 :: uint64) + 4095) div 4096" by simp
  have l7: "unat (7 :: uint64) < 1 * 4096" by simp
  have "uaddr (mem s) 0x80001000 7 = uaddr (mem ex_user) 0x80001000 7" by (simp add: uaddr_def s(2))
  then obtain v where v: "umem (mem s) 0x80001000 7 = Some v" by (simp add: umem_def ex_user_ok(3))
  from uvmcopy_copies[OF s(1) n] obtain r s' F' where
    c: "uvmcopy 0x80001000 0x80008000 4096 s = Ret (r, s')" "umem (mem s') 0x80001000 7 = umem (mem s) 0x80001000 7"
      "r = 0 \<and> umem (mem s') 0x80008000 7 = umem (mem s) 0x80001000 7 \<and>
        (\<exists>p \<in> set ?F. PTE2PA (leaf (mem s') 0x80008000 7) = p) \<or> r = - 1 \<and> length ?F < 3 * 1"
    using l7 by blast
  then have "r = 0" by auto
  then show ?thesis using s(1) c v by (intro exI[of _ s] exI[of _ s'] exI[of _ v]) auto
qed

end
