(* ===== verification/Copy.thy ===== *)
theory Copy
  imports Vm
begin

text \<open>
  Copying between the kernel and the caller of a system call, \<open>either_copyout\<close> and \<open>either_copyin\<close> of
  \<^verbatim>\<open>kernel/proc.c\<close>. A buffer of the caller is a \<open>place\<close>: an address of the current process, a physical
  address, or a position in a variable on the kernel stack, whose bytes are passed in; a copy to it hands
  back the variable with its new bytes.
\<close>

datatype place = User uint64 | Kern uint64 | Local nat "uchar list"

fun advance :: "nat \<Rightarrow> place \<Rightarrow> place" where
  "advance m (User a) = User (a + of_nat m)"
| "advance m (Kern a) = Kern (a + of_nat m)"
| "advance m (Local i v) = Local (i + m) v"

text \<open>The bytes of the variable.\<close>

fun var_bytes :: "place \<Rightarrow> uchar list" where
  "var_bytes (Local i v) = v"
| "var_bytes _ = []"

definition either_copyout :: "place \<Rightarrow> uchar list \<Rightarrow> 'a proc_state_scheme \<Rightarrow>
    (int \<times> place \<times> 'a proc_state_scheme) outcome" where
  "either_copyout dst src s =
     (case dst of
        User va \<Rightarrow> (case myproc s of None \<Rightarrow> Undef | Some p \<Rightarrow>
          bindo (copyout (p_pagetable (procs s ! p)) va src s) (\<lambda>(r, s). Ret (r, dst, s)))
      | Kern pa \<Rightarrow> Ret (0, dst, s\<lparr>mem := store_bytes (mem s) pa src\<rparr>)
      | Local i v \<Rightarrow> if i + length src \<le> length v then Ret (0, Local i (overwrite v i src), s) else Undef)"

definition either_copyin :: "place \<Rightarrow> nat \<Rightarrow> 'a proc_state_scheme \<Rightarrow> (int \<times> uchar list) outcome" where
  "either_copyin src len s =
     (case src of
        User va \<Rightarrow> (case myproc s of None \<Rightarrow> Undef | Some p \<Rightarrow> copyin (p_pagetable (procs s ! p)) va len s)
      | Kern pa \<Rightarrow> Ret (0, load_bytes (mem s) pa len)
      | Local i v \<Rightarrow> if i + len \<le> length v then Ret (0, take len (drop i v)) else Undef)"

end
