(* ===== verification/Ring.thy ===== *)
theory Ring
  imports Xv6_Prelude
begin

text \<open>
  Circular buffers as the pipe, the console and the uart use them: an array and two free-running
  counters of a machine word type, \<open>buf[w++ % N]\<close> to put and \<open>buf[r++ % N]\<close> to get. The counters
  wrap around; the contents are right because the size of the array divides the range of the
  counters. The locale \<open>byte_fifo\<close> is what their users rely on.
\<close>

section \<open>Contents\<close>

definition ring_items :: "'a list \<Rightarrow> 'w::len word \<Rightarrow> 'w word \<Rightarrow> 'a list" where
  "ring_items buf r w = map (\<lambda>k. buf ! (unat (r + of_nat k) mod length buf)) [0..<unat (w - r)]"

definition ring_put :: "'a \<Rightarrow> 'a list \<Rightarrow> 'w::len word \<Rightarrow> 'a list" where
  "ring_put x buf w = buf[unat w mod length buf := x]"

definition ring_get :: "'a list \<Rightarrow> 'w::len word \<Rightarrow> 'a" where
  "ring_get buf r = buf ! (unat r mod length buf)"

lemma length_ring_put [simp]: "length (ring_put x buf w) = length buf"
  by (simp add: ring_put_def)

lemma length_ring_items [simp]: "length (ring_items buf r w) = unat (w - r)"
  by (simp add: ring_items_def)

lemma ring_items_same [simp]: "ring_items buf r r = []"
  by (simp add: ring_items_def)

lemma ring_index:
  fixes r :: "'w::len word"
  assumes "length buf dvd 2 ^ LENGTH('w)"
  shows "unat (r + of_nat k) mod length buf = (unat r + k) mod length buf"
proof -
  have "unat (r + of_nat k) = (unat r + k) mod 2 ^ LENGTH('w)"
    by (simp add: unat_word_ariths unat_of_nat mod_add_right_eq)
  then show ?thesis using assms by (simp add: mod_mod_cancel)
qed

lemma ring_items_get:
  fixes r w :: "'w::len word"
  assumes "r \<noteq> w"
  shows "ring_items buf r w = ring_get buf r # ring_items buf (r + 1) w"
proof -
  have "w - r \<noteq> 0" using assms by simp
  then have "0 < unat (w - r)" by (metis neq0_conv unat_eq_zero)
  then obtain n where n: "unat (w - r) = Suc n" by (metis gr0_implies_Suc)
  have e: "w - (r + 1) = (w - r) - 1" by simp
  have "unat (w - (r + 1)) = n" unfolding e using n \<open>w - r \<noteq> 0\<close> by (subst unat_minus_one) simp_all
  moreover have "[0..<Suc n] = 0 # map Suc [0..<n]" by (simp add: upt_conv_Cons map_Suc_upt del: upt_Suc)
  ultimately show ?thesis
    unfolding ring_items_def n by (simp add: ring_get_def algebra_simps del: upt_Suc)
qed

lemma unat_step:
  fixes r w :: "'w::len word"
  assumes "unat (w - r) < 2 ^ LENGTH('w) - 1"
  shows "unat (w + 1 - r) = Suc (unat (w - r))"
proof -
  have e: "w + 1 - r = (w - r) + 1" by simp
  have "unat ((w - r) + 1) = unat (w - r) + 1"
    using assms by (subst unat_word_ariths) (cases "LENGTH('w) = 1"; simp)
  then show ?thesis unfolding e by simp
qed

lemma ring_items_put:
  fixes r w :: "'w::len word"
  assumes d: "length buf dvd 2 ^ LENGTH('w)" and room: "unat (w - r) < length buf" and small: "length buf < 2 ^ LENGTH('w)"
  shows "ring_items (ring_put x buf w) r (w + 1) = ring_items buf r w @ [x]"
proof -
  let ?n = "unat (w - r)" and ?N = "length buf"
  have N: "0 < ?N" using room by linarith
  have n1: "unat (w + 1 - r) = Suc ?n" using room small by (intro unat_step) linarith
  have w: "unat w mod ?N = (unat r + ?n) mod ?N"
    using ring_index[OF d, of r ?n] by simp
  have ne: "(unat r + k) mod ?N \<noteq> unat w mod ?N" if "k < ?n" for k
  proof
    assume "(unat r + k) mod ?N = unat w mod ?N"
    then have "(unat r + k) mod ?N = (unat r + ?n) mod ?N" using w by simp
    then have "?N dvd (unat r + ?n) - (unat r + k)" using that by (intro mod_eq_dvd_iff_nat[THEN iffD1]) auto
    then have "?N dvd ?n - k" by simp
    then show False using that room by (auto dest: dvd_imp_le)
  qed
  have "map (\<lambda>k. ring_put x buf w ! (unat (r + of_nat k) mod ?N)) [0..<?n] = ring_items buf r w"
    unfolding ring_items_def by (rule map_cong) (auto simp: ring_put_def ring_index[OF d] ne[THEN not_sym])
  moreover have "ring_put x buf w ! (unat (r + of_nat ?n) mod ?N) = x"
    using N by (simp add: ring_put_def)
  ultimately show ?thesis using n1 by (simp add: ring_items_def)
qed

text \<open>Putting does not disturb the oldest items.\<close>

lemma ring_items_prefix:
  fixes r w e :: "'w::len word"
  assumes "unat (e - r) = unat (w - r) + unat (e - w)"
  shows "ring_items buf r e = ring_items buf r w @ ring_items buf w e"
proof (rule nth_equalityI)
  fix i assume i: "i < length (ring_items buf r e)"
  show "ring_items buf r e ! i = (ring_items buf r w @ ring_items buf w e) ! i"
  proof (cases "i < unat (w - r)")
    case False
    then have "w + of_nat (i - unat (w - r)) = r + of_nat i" by (simp add: of_nat_diff)
    then show ?thesis using False i assms by (auto simp: ring_items_def nth_append add.commute)
  qed (use i in \<open>auto simp: ring_items_def nth_append\<close>)
qed (use assms in simp)

text \<open>Taking back the newest item.\<close>

lemma unat_back:
  fixes r w :: "'w::len word"
  assumes "r \<noteq> w"
  shows "Suc (unat (w - 1 - r)) = unat (w - r)"
proof -
  have ne: "w - r \<noteq> 0" using assms by simp
  have e: "w - 1 - r = (w - r) - 1" by simp
  have "0 < unat (w - r)" using ne by (metis neq0_conv unat_eq_zero)
  then show ?thesis unfolding e using ne by (subst unat_minus_one) simp_all
qed

lemma ring_items_back:
  fixes r w :: "'w::len word"
  assumes "r \<noteq> w"
  shows "ring_items buf r w = ring_items buf r (w - 1) @ [ring_get buf (w - 1)]"
proof -
  have "unat (w - r) = unat (w - 1 - r) + unat (w - (w - 1))" using unat_back[OF assms] by simp
  from ring_items_prefix[OF this, of buf] show ?thesis by (simp add: ring_items_def ring_get_def)
qed

section \<open>The interface\<close>

fun run_gets :: "('s \<Rightarrow> 'a \<times> 's) \<Rightarrow> nat \<Rightarrow> 's \<Rightarrow> 'a list \<times> 's" where
  "run_gets get 0 s = ([], s)"
| "run_gets get (Suc n) s = (let (x, s) = get s; (xs, s) = run_gets get n s in (x # xs, s))"

locale byte_fifo =
  fixes items :: "'s \<Rightarrow> 'a list" and cap :: nat
    and put :: "'a \<Rightarrow> 's \<Rightarrow> 's" and get :: "'s \<Rightarrow> 'a \<times> 's" and inv :: "'s \<Rightarrow> bool"
  assumes inv_cap: "inv s \<Longrightarrow> length (items s) \<le> cap"
    and put_law: "inv s \<Longrightarrow> length (items s) < cap \<Longrightarrow> inv (put x s) \<and> items (put x s) = items s @ [x]"
    and get_law: "inv s \<Longrightarrow> items s \<noteq> [] \<Longrightarrow> inv (snd (get s)) \<and> items s = fst (get s) # items (snd (get s))"
begin

text \<open>A run of puts and gets: what has come out followed by what is in is what was in and has been put.\<close>

lemma puts:
  "inv s \<Longrightarrow> length (items s) + length xs \<le> cap \<Longrightarrow>
   inv (fold put xs s) \<and> items (fold put xs s) = items s @ xs"
proof (induction xs arbitrary: s)
  case (Cons x xs)
  then show ?case using put_law[of s x] by simp
qed simp

lemma gets_law:
  "inv s \<Longrightarrow> n \<le> length (items s) \<Longrightarrow>
   inv (snd (run_gets get n s)) \<and> items s = fst (run_gets get n s) @ items (snd (run_gets get n s)) \<and> length (fst (run_gets get n s)) = n"
proof (induction n arbitrary: s)
  case (Suc n)
  then have "items s \<noteq> []" by auto
  from get_law[OF Suc.prems(1) this] Suc.prems(2) Suc.IH[of "snd (get s)"] show ?case
    by (auto simp: split_beta)
qed simp

end

end
