(* ===== verification/Printf.thy ===== *)
theory Printf
  imports Xv6_Prelude
begin

text \<open>
  Formatted output: \<^verbatim>\<open>kernel/printf.c\<close> and \<^verbatim>\<open>user/printf.c\<close>. Formatting is a function from the format
  string and the arguments to the characters that are passed, in this order, to \<open>consputc\<close> or to
  \<open>putc\<close>. An argument is a register value, or a pointer to a string (None for the null pointer);
  reading an argument that was not passed, or negating the smallest \<open>int\<close>, is undefined.
\<close>

section \<open>Definitions\<close>

definition str :: "string \<Rightarrow> uchar list" where
  "str s = map of_char s"

datatype arg = Num uint64 | Str "uchar list option"

definition digit :: "string \<Rightarrow> nat \<Rightarrow> uchar" where
  "digit digits n = of_char (digits ! n)"

abbreviation (input) lower_digits :: string where "lower_digits \<equiv> ''0123456789abcdef''"
abbreviation (input) upper_digits :: string where "upper_digits \<equiv> ''0123456789ABCDEF''"

text \<open>The digits of the \<open>do\<close> loop of \<open>printint\<close>, least significant first.\<close>

function digits_of :: "nat \<Rightarrow> nat \<Rightarrow> nat list" where
  "digits_of base x = (if base < 2 then [] else x mod base # (if x div base = 0 then [] else digits_of base (x div base)))"
  by pat_completeness auto
termination
  by (relation "measure snd") (auto simp: div_eq_0_iff intro: div_less_dividend)

declare digits_of.simps [simp del]

abbreviation (input) INT_MIN :: int where "INT_MIN \<equiv> - 0x80000000"

definition print_num :: "string \<Rightarrow> int \<Rightarrow> nat \<Rightarrow> bool \<Rightarrow> uchar list outcome" where
  "print_num digits xx base sign =
     (let neg = (sign \<and> xx < 0);
          x = (if neg then nat (- xx) else unat (word_of_int xx :: uint));
          buf = map (digit digits) (digits_of base x) @ (if neg then [0x2d] else [])
      in if neg \<and> xx = INT_MIN then Undef
         else if length buf > 16 then Undef
         else Ret (rev buf))"

definition kprintint :: "int \<Rightarrow> nat \<Rightarrow> bool \<Rightarrow> uchar list outcome" where
  "kprintint xx base sign = print_num lower_digits xx base sign"

definition uprintint :: "int \<Rightarrow> nat \<Rightarrow> bool \<Rightarrow> uchar list outcome" where
  "uprintint xx base sign = print_num upper_digits xx base sign"

text \<open>The 16 turns of the loop of \<open>printptr\<close>.\<close>

primrec hex_digits :: "string \<Rightarrow> nat \<Rightarrow> uint64 \<Rightarrow> uchar list" where
  "hex_digits digits 0 x = []"
| "hex_digits digits (Suc n) x = digit digits (unat (drop_bit 60 x)) # hex_digits digits n (push_bit 4 x)"

definition kprintptr :: "uint64 \<Rightarrow> uchar list" where
  "kprintptr x = str ''0x'' @ hex_digits lower_digits 16 x"

definition uprintptr :: "uint64 \<Rightarrow> uchar list" where
  "uprintptr x = str ''0x'' @ hex_digits upper_digits 16 x"

text \<open>\<open>va_arg\<close> at the types used.\<close>

definition arg_int :: "arg list \<Rightarrow> (int \<times> arg list) outcome" where
  "arg_int as = (case as of Num w # as \<Rightarrow> Ret (sint (ucast w :: uint), as) | _ \<Rightarrow> Undef)"

definition arg_u64 :: "arg list \<Rightarrow> (uint64 \<times> arg list) outcome" where
  "arg_u64 as = (case as of Num w # as \<Rightarrow> Ret (w, as) | _ \<Rightarrow> Undef)"

text \<open>The characters of a string up to its terminator.\<close>

fun str_chars :: "uchar list \<Rightarrow> uchar list outcome" where
  "str_chars [] = Undef"
| "str_chars (c # s) = (if c = 0 then Ret [] else bindo (str_chars s) (\<lambda>r. Ret (c # r)))"

definition arg_str :: "arg list \<Rightarrow> (uchar list \<times> arg list) outcome" where
  "arg_str as = (case as of
      Str (Some s) # as \<Rightarrow> bindo (str_chars s) (\<lambda>r. Ret (r, as))
    | Str None # as \<Rightarrow> Ret (str ''(null)'', as)
    | _ \<Rightarrow> Undef)"

text \<open>The conversion after a percent sign in the kernel's \<open>printf\<close>.\<close>

definition kconv :: "uchar \<Rightarrow> arg list \<Rightarrow> (uchar list \<times> arg list) outcome" where
  "kconv c as =
     (if c = of_char (CHR ''d'') then bindo (arg_int as) (\<lambda>(i, as). bindo (kprintint i 10 True) (\<lambda>r. Ret (r, as)))
      else if c = of_char (CHR ''x'') then bindo (arg_int as) (\<lambda>(i, as). bindo (kprintint i 16 True) (\<lambda>r. Ret (r, as)))
      else if c = of_char (CHR ''p'') then bindo (arg_u64 as) (\<lambda>(w, as). Ret (kprintptr w, as))
      else if c = of_char (CHR ''s'') then arg_str as
      else if c = 0x25 then Ret ([0x25], as)
      else Ret ([0x25, c], as))"

fun kprintf :: "uchar list \<Rightarrow> arg list \<Rightarrow> uchar list outcome" where
  "kprintf [] as = Undef"
| "kprintf (c # fmt) as =
     (if c = 0 then Ret []
      else if c \<noteq> 0x25 then bindo (kprintf fmt as) (\<lambda>r. Ret (c # r))
      else case fmt of
             [] \<Rightarrow> Undef
           | d # fmt \<Rightarrow>
               if d = 0 then Ret []
               else bindo (kconv d as) (\<lambda>(o1, as). bindo (kprintf fmt as) (\<lambda>r. Ret (o1 @ r))))"

definition uconv :: "uchar \<Rightarrow> arg list \<Rightarrow> (uchar list \<times> arg list) outcome" where
  "uconv c as =
     (if c = of_char (CHR ''d'') then bindo (arg_int as) (\<lambda>(i, as). bindo (uprintint i 10 True) (\<lambda>r. Ret (r, as)))
      else if c = of_char (CHR ''l'')
      then bindo (arg_u64 as) (\<lambda>(w, as). bindo (uprintint (sint (ucast w :: uint)) 10 False) (\<lambda>r. Ret (r, as)))
      else if c = of_char (CHR ''x'') then bindo (arg_int as) (\<lambda>(i, as). bindo (uprintint i 16 False) (\<lambda>r. Ret (r, as)))
      else if c = of_char (CHR ''p'') then bindo (arg_u64 as) (\<lambda>(w, as). Ret (uprintptr w, as))
      else if c = of_char (CHR ''s'') then arg_str as
      else if c = of_char (CHR ''c'') then bindo (arg_u64 as) (\<lambda>(w, as). Ret ([ucast w], as))
      else if c = 0x25 then Ret ([c], as)
      else Ret ([0x25, c], as))"

text \<open>\<open>vprintf\<close> in its two states: after a percent sign or not.\<close>

fun vprintf :: "bool \<Rightarrow> uchar list \<Rightarrow> arg list \<Rightarrow> uchar list outcome" where
  "vprintf percent [] as = Undef"
| "vprintf percent (c # fmt) as =
     (if c = 0 then Ret []
      else if \<not> percent
      then if c = 0x25 then vprintf True fmt as
           else bindo (vprintf False fmt as) (\<lambda>r. Ret (c # r))
      else bindo (uconv c as) (\<lambda>(o1, as). bindo (vprintf False fmt as) (\<lambda>r. Ret (o1 @ r))))"

definition uprintf :: "uchar list \<Rightarrow> arg list \<Rightarrow> uchar list outcome" where
  "uprintf fmt as = vprintf False fmt as"

section \<open>What is printed\<close>

text \<open>The number a string of digits stands for, most significant first, and the value of a digit.\<close>

definition digit_val :: "string \<Rightarrow> uchar \<Rightarrow> nat" where
  "digit_val digits c = length (takeWhile (\<lambda>d. of_char d \<noteq> c) digits)"

definition digits_val :: "nat \<Rightarrow> nat list \<Rightarrow> nat" where
  "digits_val base ds = foldl (\<lambda>v d. v * base + d) 0 ds"

definition num_val :: "string \<Rightarrow> nat \<Rightarrow> uchar list \<Rightarrow> int" where
  "num_val digits base cs =
     (case cs of c # cs' \<Rightarrow>
        if c = 0x2d then - int (digits_val base (map (digit_val digits) cs'))
        else int (digits_val base (map (digit_val digits) cs))
      | [] \<Rightarrow> 0)"

lemma digits_val_snoc: "digits_val base (ds @ [d]) = digits_val base ds * base + d"
  by (simp add: digits_val_def)

lemma digits_of_correct:
  assumes "2 \<le> base"
  shows "digits_val base (rev (digits_of base x)) = x" "\<forall>d \<in> set (digits_of base x). d < base" "digits_of base x \<noteq> []"
proof (induction x rule: less_induct)
  case (less x)
  have d: "digits_of base x = x mod base # (if x div base = 0 then [] else digits_of base (x div base))"
    using assms by (subst digits_of.simps) simp
  have lt: "x div base < x" if "x div base \<noteq> 0" using that assms by (cases "x = 0") auto
  {
    case 1
    show ?case
    proof (cases "x div base = 0")
      case True
      then show ?thesis using assms d by (simp add: digits_val_def div_eq_0_iff)
    next
      case False
      then show ?thesis using d less(1)[OF lt[OF False]] by (simp add: digits_val_snoc)
    qed
  next
    case 2
    show ?case using d less(2) lt assms by auto
  next
    case 3
    show ?case using d by simp
  }
qed

lemma digit_val_digit:
  assumes "digits = lower_digits \<or> digits = upper_digits" "n < 16"
  shows "digit_val digits (digit digits n) = n" "digit digits n \<noteq> 0x2d"
proof -
  have "n \<in> set [0..<16]" using assms(2) by simp
  then have "\<forall>n \<in> set [0..<16]. digit_val digits (digit digits n) = n \<and> digit digits n \<noteq> 0x2d \<Longrightarrow>
    digit_val digits (digit digits n) = n \<and> digit digits n \<noteq> 0x2d" by blast
  moreover have "\<forall>n \<in> set [0..<16]. digit_val lower_digits (digit lower_digits n) = n \<and> digit lower_digits n \<noteq> 0x2d"
    by code_simp
  moreover have "\<forall>n \<in> set [0..<16]. digit_val upper_digits (digit upper_digits n) = n \<and> digit upper_digits n \<noteq> 0x2d"
    by code_simp
  ultimately show "digit_val digits (digit digits n) = n" "digit digits n \<noteq> 0x2d" using assms(1) by auto
qed

lemma digits_of_length:
  assumes "2 \<le> base" "x < base ^ n" "0 < n"
  shows "length (digits_of base x) \<le> n"
  using assms(2,3)
proof (induction n arbitrary: x)
  case (Suc n)
  have d: "digits_of base x = x mod base # (if x div base = 0 then [] else digits_of base (x div base))"
    using assms(1) by (subst digits_of.simps) simp
  show ?case
  proof (cases "n = 0 \<or> x div base = 0")
    case True
    then have "x div base = 0" using Suc.prems by auto
    then show ?thesis using d by simp
  next
    case False
    have "x div base < base ^ n" using Suc.prems(1) assms(1) by (simp add: less_mult_imp_div_less mult.commute)
    then show ?thesis using d Suc.IH[of "x div base"] False by simp
  qed
qed simp

lemma num_val_digits:
  assumes dg: "digits = lower_digits \<or> digits = upper_digits" and b: "2 \<le> base" "base \<le> 16"
  shows "num_val digits base (map (digit digits) (rev (digits_of base x))) = int x"
    "num_val digits base (0x2d # map (digit digits) (rev (digits_of base x))) = - int x"
proof -
  let ?ds = "rev (digits_of base x)"
  have "\<forall>d \<in> set ?ds. d < 16" using digits_of_correct(2)[OF b(1)] b(2) by fastforce
  then have m: "map (digit_val digits) (map (digit digits) ?ds) = ?ds"
    and nd: "\<forall>d \<in> set ?ds. digit digits d \<noteq> 0x2d" using digit_val_digit[OF dg] by (auto intro: map_idI)
  have v: "digits_val base (map (digit_val digits) (map (digit digits) ?ds)) = x"
    unfolding m using digits_of_correct(1)[OF b(1)] .
  obtain d ds where ds: "?ds = d # ds" using digits_of_correct(3)[OF b(1), of x] by (cases ?ds) auto
  have "digit digits d \<noteq> 0x2d" using nd ds by simp
  then show "num_val digits base (map (digit digits) ?ds) = int x" using v unfolding ds num_val_def by simp
  show "num_val digits base (0x2d # map (digit digits) ?ds) = - int x" using v by (simp add: num_val_def)
qed

lemma print_num_prints:
  assumes dg: "digits = lower_digits \<or> digits = upper_digits" and b: "base = 10 \<or> base = 16"
    and x: "INT_MIN \<le> xx" "xx \<le> 0x7fffffff" "sign \<Longrightarrow> xx \<noteq> INT_MIN"
  shows "\<exists>out. print_num digits xx base sign = Ret out \<and>
    num_val digits base out = (if sign then xx else uint (word_of_int xx :: uint))"
proof -
  have b2: "2 \<le> base" "base \<le> 16" using b by auto
  let ?neg = "sign \<and> xx < 0"
  define v where "v = (if ?neg then nat (- xx) else unat (word_of_int xx :: uint))"
  have "v < 2 ^ 32"
    using x(1) unsigned_less[where 'b = 32 and 'a = nat, of "word_of_int xx"] by (auto simp: v_def)
  then have "v < base ^ 10" using b by auto
  then have len: "length (digits_of base v) \<le> 10" using digits_of_length[OF b2(1)] by simp
  let ?out = "(if ?neg then [0x2d] else []) @ map (digit digits) (rev (digits_of base v))"
  have "print_num digits xx base sign = Ret ?out"
    using len x(3) by (auto simp: print_num_def Let_def v_def[symmetric] rev_map)
  moreover have "num_val digits base ?out = (if ?neg then - int v else int v)"
    using num_val_digits[OF dg b2] by simp
  moreover have "(if ?neg then - int v else int v) = (if sign then xx else uint (word_of_int xx :: uint))"
  proof (cases "sign \<and> 0 \<le> xx")
    case True
    then have "uint (word_of_int xx :: uint) = xx" using x(2) by (simp add: uint_word_of_int)
    then show ?thesis using True by (simp add: v_def)
  qed (auto simp: v_def)
  ultimately show ?thesis by auto
qed

text \<open>
  C28. Number printing of the kernel and of user programs is right: for base 10 and 16 the characters
  printed are a numeral for the value, signed if asked so (unsigned otherwise). The one value it
  cannot print signed is the smallest \<open>int\<close>, which it negates.
\<close>

theorem printint_prints:
  assumes "base = 10 \<or> base = 16" "INT_MIN \<le> xx" "xx \<le> 0x7fffffff" "sign \<Longrightarrow> xx \<noteq> INT_MIN"
  shows "\<exists>k u. kprintint xx base sign = Ret k \<and> uprintint xx base sign = Ret u \<and>
    num_val lower_digits base k = (if sign then xx else uint (word_of_int xx :: uint)) \<and>
    num_val upper_digits base u = (if sign then xx else uint (word_of_int xx :: uint))"
  using print_num_prints[OF disjI1[OF refl] assms] print_num_prints[OF disjI2[OF refl] assms]
  unfolding kprintint_def uprintint_def by blast

theorem printint_prints_witness:
  "kprintint (- 42) 10 True = Ret (str ''-42'') \<and> num_val lower_digits 10 (str ''-42'') = - 42"
proof -
  have "\<exists>k u. kprintint (- 42) 10 True = Ret k \<and> uprintint (- 42) 10 True = Ret u \<and>
    num_val lower_digits 10 k = (if True then - 42 else uint (word_of_int (- 42) :: uint)) \<and>
    num_val upper_digits 10 u = (if True then - 42 else uint (word_of_int (- 42) :: uint))"
    by (rule printint_prints) simp_all
  moreover have "kprintint (- 42) 10 True = Ret (str ''-42'')" by code_simp
  ultimately show ?thesis by auto
qed

text \<open>Ordinary characters of a format are printed as they are; a conversion stands for what it prints.\<close>

lemma vprintf_plain:
  assumes "0 \<notin> set pre" "0x25 \<notin> set pre"
  shows "vprintf False (pre @ fmt) as = bindo (vprintf False fmt as) (\<lambda>r. Ret (pre @ r))"
  using assms by (induction pre) (auto simp: bindo_assoc)

lemma vprintf_conv:
  assumes "c \<noteq> 0" "uconv c as = Ret (out, as')"
  shows "vprintf False (0x25 # c # fmt) as = bindo (vprintf False fmt as') (\<lambda>r. Ret (out @ r))"
  using assms by simp

text \<open>
  C32. The conversion \<open>%l\<close> of the user-level \<open>printf\<close>, meant for 64-bit integers, prints the unsigned decimal numeral of
  the argument modulo 2 to the power 32, at its place between the text before it and what the rest of the format prints.
\<close>

theorem uprintf_long_truncates:
  assumes "0 \<notin> set pre" "0x25 \<notin> set pre"
  shows "\<exists>out. uprintf (pre @ str ''%l'' @ fmt) (Num w # as) = bindo (uprintf fmt as) (\<lambda>r. Ret (pre @ out @ r)) \<and>
    num_val upper_digits 10 out = uint w mod 2 ^ 32"
proof -
  let ?x = "sint (ucast w :: uint)"
  have "INT_MIN \<le> ?x" "?x \<le> 0x7fffffff" using sint_range_size[of "ucast w :: uint"] by (simp_all add: word_size)
  from print_num_prints[OF disjI2[OF refl] disjI1[OF refl] this, of False] obtain out where
    o: "uprintint ?x 10 False = Ret out" "num_val upper_digits 10 out = uint (ucast w :: uint)" by (auto simp: uprintint_def)
  have "uconv (of_char (CHR ''l'')) (Num w # as) = Ret (out, as)" using o(1) by (simp add: uconv_def arg_u64_def)
  from vprintf_conv[OF _ this, of fmt]
  have "uprintf (pre @ str ''%l'' @ fmt) (Num w # as) = bindo (uprintf fmt as) (\<lambda>r. Ret (pre @ out @ r))"
    using vprintf_plain[OF assms, of "str ''%l'' @ fmt" "Num w # as"] by (simp add: uprintf_def str_def bindo_assoc)
  moreover have "uint (ucast w :: uint) = uint w mod 2 ^ 32" by (simp add: unsigned_ucast_eq take_bit_eq_mod)
  ultimately show ?thesis using o(2) by auto
qed

theorem uprintf_long_truncates_witness:
  "uprintf (str ''n=%l'' @ [0]) [Num 0x100000007] = Ret (str ''n=7'') \<and> uint (0x100000007 :: uint64) mod 2 ^ 32 = 7"
proof -
  have "\<exists>out. uprintf (str ''n='' @ str ''%l'' @ [0]) [Num 0x100000007] = bindo (uprintf [0] []) (\<lambda>r. Ret (str ''n='' @ out @ r)) \<and>
    num_val upper_digits 10 out = uint (0x100000007 :: uint64) mod 2 ^ 32"
    by (rule uprintf_long_truncates) (simp_all add: str_def)
  moreover have "uprintf (str ''n=%l'' @ [0]) [Num 0x100000007] = Ret (str ''n=7'')" by code_simp
  ultimately show ?thesis by simp
qed

end
