(* ===== verification/Console.thy ===== *)
theory Console
  imports Fslog_Txn Copy Ring Printf
begin

text \<open>
  The serial line and the console: \<^verbatim>\<open>kernel/uart.c\<close>, \<^verbatim>\<open>kernel/console.c\<close> and the output side of
  \<^verbatim>\<open>kernel/printf.c\<close>. The uart chip is outside the program: its answers to reads of the line status
  register (is the transmitter idle?) are the list \<open>u_idle\<close>, taken one per read, the characters it
  has received are \<open>u_in\<close>, the bytes written to the transmit holding register are collected in
  \<open>u_out\<close> and the other register writes in \<open>u_regs\<close>.

  An operation that sleeps after having done part of its work is resumable: it returns \<open>Blocked k\<close>,
  where \<open>k\<close> says how far it got, and continues from \<open>k\<close> when it is woken.
\<close>

section \<open>State\<close>

datatype ('k, 'r) run = Done 'r | Blocked 'k

abbreviation (input) UART_TX_BUF_SIZE :: nat where "UART_TX_BUF_SIZE \<equiv> 32"
abbreviation (input) INPUT_BUF_SIZE :: nat where "INPUT_BUF_SIZE \<equiv> 128"

record dev_state = log_state +
  u_buf :: "uchar list"
  u_w :: uint64
  u_r :: uint64
  u_idle :: "bool list"
  u_in :: "uchar list"
  u_out :: "uchar list"
  u_regs :: "(nat \<times> uchar) list"
  panicked :: bool
  cons_buf :: "uchar list"
  cons_r :: uint
  cons_w :: uint
  cons_e :: uint

lemma dev_wakeup [simp]:
  "u_buf (wakeup ch s) = u_buf s" "u_w (wakeup ch s) = u_w s" "u_r (wakeup ch s) = u_r s"
  "u_idle (wakeup ch s) = u_idle s" "u_in (wakeup ch s) = u_in s" "u_out (wakeup ch s) = u_out s"
  "u_regs (wakeup ch s) = u_regs s" "panicked (wakeup ch s) = panicked s" "cons_buf (wakeup ch s) = cons_buf s"
  "cons_r (wakeup ch s) = cons_r s" "cons_w (wakeup ch s) = cons_w s" "cons_e (wakeup ch s) = cons_e s"
  by (simp_all add: wakeup_def)

section \<open>The uart\<close>

definition WriteReg :: "nat \<Rightarrow> uchar \<Rightarrow> 'a dev_state_scheme \<Rightarrow> 'a dev_state_scheme" where
  "WriteReg reg v s = s\<lparr>u_regs := u_regs s @ [(reg, v)]\<rparr>"

definition uartinit :: "'a dev_state_scheme \<Rightarrow> 'a dev_state_scheme" where
  "uartinit s =
     fold (\<lambda>(reg, v). WriteReg reg v) [(1, 0), (3, 0x80), (0, 3), (1, 0), (3, 3), (2, 1 OR 6), (1, 2 OR 1)] s"

function uartstart :: "'a dev_state_scheme \<Rightarrow> 'a dev_state_scheme" where
  "uartstart s =
     (if u_w s = u_r s then s
      else case u_idle s of
             [] \<Rightarrow> s
           | idle # rest \<Rightarrow>
               if \<not> idle then s\<lparr>u_idle := rest\<rparr>
               else let c = ring_get (u_buf s) (u_r s);
                        s = wakeup ChUart (s\<lparr>u_idle := rest, u_r := u_r s + 1\<rparr>)
                    in uartstart (s\<lparr>u_out := u_out s @ [c]\<rparr>))"
  by pat_completeness auto
termination
  by (relation "measure (\<lambda>s. length (u_idle s))") auto

declare uartstart.simps [simp del]

text \<open>With a full buffer \<open>uartputc\<close> sleeps before it has done anything.\<close>

definition uartputc :: "uchar \<Rightarrow> 'a dev_state_scheme \<Rightarrow> 'a dev_state_scheme outcome" where
  "uartputc c s =
     (if panicked s then Loops
      else if u_w s = u_r s + of_nat UART_TX_BUF_SIZE then Sleeps
      else Ret (uartstart (s\<lparr>u_buf := ring_put c (u_buf s) (u_w s), u_w := u_w s + 1\<rparr>)))"

text \<open>\<open>uartputc_sync\<close> spins until the transmitter is idle, forever if it never is.\<close>

definition uartputc_sync :: "uchar \<Rightarrow> 'a dev_state_scheme \<Rightarrow> 'a dev_state_scheme outcome" where
  "uartputc_sync c s =
     (if panicked s then Loops
      else case dropWhile Not (u_idle s) of
             [] \<Rightarrow> Loops
           | _ # rest \<Rightarrow> Ret (s\<lparr>u_idle := rest, u_out := u_out s @ [c]\<rparr>))"

definition uartgetc :: "'a dev_state_scheme \<Rightarrow> int \<times> 'a dev_state_scheme" where
  "uartgetc s = (case u_in s of [] \<Rightarrow> (- 1, s) | c # cs \<Rightarrow> (uint c, s\<lparr>u_in := cs\<rparr>))"

section \<open>Console output\<close>

abbreviation (input) BACKSPACE :: int where "BACKSPACE \<equiv> 0x100"

definition consputc :: "int \<Rightarrow> 'a dev_state_scheme \<Rightarrow> 'a dev_state_scheme outcome" where
  "consputc c s =
     (if c = BACKSPACE
      then bindo (uartputc_sync 8 s) (\<lambda>s. bindo (uartputc_sync 0x20 s) (uartputc_sync 8))
      else uartputc_sync (word_of_int c) s)"

definition cons_print :: "uchar list \<Rightarrow> 'a dev_state_scheme \<Rightarrow> 'a dev_state_scheme outcome" where
  "cons_print cs s = foldo (\<lambda>c. consputc (uint c)) cs s"

definition printf :: "uchar list \<Rightarrow> arg list \<Rightarrow> 'a dev_state_scheme \<Rightarrow> 'a dev_state_scheme outcome" where
  "printf fmt as s = bindo (kprintf fmt as) (\<lambda>cs. cons_print cs s)"

text \<open>\<open>panic\<close> prints its message, sets \<open>panicked\<close> and never returns; the state it leaves to the other CPUs.\<close>

definition kpanic :: "uchar list \<Rightarrow> 'a dev_state_scheme \<Rightarrow> 'a dev_state_scheme outcome" where
  "kpanic msg s =
     bindo (printf (str ''panic: '' @ [0]) [] s) (\<lambda>s.
     bindo (printf msg [] s) (\<lambda>s.
     bindo (printf [0x0a, 0] [] s) (\<lambda>s. Ret (s\<lparr>panicked := True\<rparr>))))"

fun state_name :: "procstate \<Rightarrow> string" where
  "state_name UNUSED = ''unused''"
| "state_name USED = ''used''"
| "state_name SLEEPING = ''sleep ''"
| "state_name RUNNABLE = ''runble''"
| "state_name RUNNING = ''run   ''"
| "state_name ZOMBIE = ''zombie''"

definition procdump :: "'a dev_state_scheme \<Rightarrow> 'a dev_state_scheme outcome" where
  "procdump s =
     bindo (printf [0x0a, 0] [] s) (foldo (\<lambda>p s.
       if p_state p = UNUSED then Ret s
       else bindo (printf (str ''%d %s %s'' @ [0])
                     [Num (word_of_int (p_pid p)), Str (Some (str (state_name (p_state p)) @ [0])), Str (Some (p_name p))] s)
              (printf [0x0a, 0] [])) (procs s))"

section \<open>Console input\<close>

text \<open>The loop of \<open>consolewrite\<close> from byte \<open>i\<close> on.\<close>

function consolewrite_loop :: "place \<Rightarrow> nat \<Rightarrow> nat \<Rightarrow> 'a dev_state_scheme \<Rightarrow> ((nat, int) run \<times> 'a dev_state_scheme) outcome" where
  "consolewrite_loop src n i s =
     (if i \<ge> n then Ret (Done (int i), s)
      else bindo (either_copyin (advance i src) 1 s) (\<lambda>(r, cs).
        if r = - 1 then Ret (Done (int i), s)
        else case uartputc (hd cs) s of
               Sleeps \<Rightarrow> Ret (Blocked i, s)
             | x \<Rightarrow> bindo x (consolewrite_loop src n (i + 1))))"
  by pat_completeness auto
termination
  by (relation "measure (\<lambda>(src, n, i, s). n - i)") auto

declare consolewrite_loop.simps [simp del]

definition consolewrite :: "place \<Rightarrow> int \<Rightarrow> 'a dev_state_scheme \<Rightarrow> ((nat, int) run \<times> 'a dev_state_scheme) outcome" where
  "consolewrite src n s = consolewrite_loop src (nat n) 0 s"

text \<open>
  The loop of \<open>consoleread\<close> with \<open>n\<close> of \<open>target\<close> bytes still to come. It returns the count and the
  destination as \<^const>\<open>either_copyout\<close> leaves it, or blocks with \<open>n\<close> bytes to come.
\<close>

fun consoleread_loop :: "nat \<Rightarrow> place \<Rightarrow> nat \<Rightarrow> 'a dev_state_scheme \<Rightarrow>
    ((nat, int) run \<times> place \<times> 'a dev_state_scheme) outcome" where
  "consoleread_loop target dst 0 s = Ret (Done (int target), dst, s)"
| "consoleread_loop target dst (Suc n) s =
     (if cons_r s = cons_w s
      then case myproc s of
             None \<Rightarrow> Undef
           | Some p \<Rightarrow> if killed p s \<noteq> 0 then Ret (Done (- 1), dst, s) else Ret (Blocked (Suc n), dst, s)
      else let c = ring_get (cons_buf s) (cons_r s);
               s = s\<lparr>cons_r := cons_r s + 1\<rparr>
           in if c = 4
              then Ret (Done (int (target - Suc n)), dst, if Suc n < target then s\<lparr>cons_r := cons_r s - 1\<rparr> else s)
              else bindo (either_copyout dst [c] s) (\<lambda>(r, dst, s).
                if r = - 1 then Ret (Done (int (target - Suc n)), dst, s)
                else let dst = advance 1 dst
                     in if c = 0x0a then Ret (Done (int (target - n)), dst, s) else consoleread_loop target dst n s))"

definition consoleread :: "place \<Rightarrow> int \<Rightarrow> 'a dev_state_scheme \<Rightarrow> ((nat, int) run \<times> place \<times> 'a dev_state_scheme) outcome" where
  "consoleread dst n s =
     (if n \<le> 0 then Ret (Done 0, dst, s) else consoleread_loop (nat n) dst (nat n) s)"

text \<open>The loop of control-U, which erases back to the last newline or committed byte.\<close>

definition at_line_start :: "'a dev_state_scheme \<Rightarrow> bool" where
  "at_line_start s \<longleftrightarrow> cons_e s = cons_w s \<or> ring_get (cons_buf s) (cons_e s - 1) = 0x0a"

primrec kill_line :: "nat \<Rightarrow> 'a dev_state_scheme \<Rightarrow> 'a dev_state_scheme outcome" where
  "kill_line 0 s = Ret s"
| "kill_line (Suc k) s =
     (if at_line_start s then Ret s
      else bindo (consputc BACKSPACE (s\<lparr>cons_e := cons_e s - 1\<rparr>)) (kill_line k))"

definition consoleintr :: "int \<Rightarrow> 'a dev_state_scheme \<Rightarrow> 'a dev_state_scheme outcome" where
  "consoleintr c s =
     (if c = 0x10 then procdump s
      else if c = 0x15 then kill_line (unat (cons_e s - cons_w s)) s
      else if c = 8 \<or> c = 0x7f
      then if cons_e s \<noteq> cons_w s then consputc BACKSPACE (s\<lparr>cons_e := cons_e s - 1\<rparr>) else Ret s
      else if c \<noteq> 0 \<and> unat (cons_e s - cons_r s) < INPUT_BUF_SIZE
      then let c = (if c = 0x0d then 0x0a else c)
           in bindo (consputc c s) (\<lambda>s.
                let s = s\<lparr>cons_buf := ring_put (word_of_int c) (cons_buf s) (cons_e s), cons_e := cons_e s + 1\<rparr>
                in if c = 0x0a \<or> c = 4 \<or> unat (cons_e s - cons_r s) = INPUT_BUF_SIZE
                   then Ret (wakeup ChCons (s\<lparr>cons_w := cons_e s\<rparr>))
                   else Ret s)
      else Ret s)"

fun uartintr_loop :: "uchar list \<Rightarrow> 'a dev_state_scheme \<Rightarrow> 'a dev_state_scheme outcome" where
  "uartintr_loop [] s = Ret s"
| "uartintr_loop (_ # rest) s =
     (let (c, s) = uartgetc s
      in if c = - 1 then Ret s else bindo (consoleintr c s) (uartintr_loop rest))"

definition uartintr :: "'a dev_state_scheme \<Rightarrow> 'a dev_state_scheme outcome" where
  "uartintr s = bindo (uartintr_loop (u_in s) s) (\<lambda>s. Ret (uartstart s))"

end
