(* ===== verification/Fs.thy ===== *)
theory Fs
  imports Console
begin

text \<open>
  The file system of \<^verbatim>\<open>kernel/fs.c\<close>: blocks, inodes, directories and path names, on top of the log.
  The state adds the superblock in memory and the inode table to the state of the log. An in-memory
  inode is named by its index in \<open>itable.inode\<close>; on disk it is 64 bytes of an inode block, read and
  written field by field. The blocks are those of \<open>ROOTDEV\<close> or of the device number an inode carries.

  A buffer that \<open>readi\<close> fills or \<open>writei\<close> empties is a \<open>place\<close>; \<open>readi\<close> returns it as the copies have left it, which
  is how a caller sees the bytes of its variable.
\<close>

section \<open>Data\<close>

abbreviation (input) FSMAGIC :: uint where "FSMAGIC \<equiv> 0x10203040"
abbreviation (input) ROOTINO :: uint where "ROOTINO \<equiv> 1"
abbreviation (input) NDIRECT :: nat where "NDIRECT \<equiv> 12"
abbreviation (input) NINDIRECT :: nat where "NINDIRECT \<equiv> 256"
abbreviation (input) MAXFILE :: nat where "MAXFILE \<equiv> 268"
abbreviation (input) IPB :: nat where "IPB \<equiv> 16"
abbreviation (input) BPB :: nat where "BPB \<equiv> 8192"
abbreviation (input) DIRSIZ :: nat where "DIRSIZ \<equiv> 14"
abbreviation (input) T_DIR :: ushort where "T_DIR \<equiv> 1"
abbreviation (input) T_FILE :: ushort where "T_FILE \<equiv> 2"
abbreviation (input) T_DEVICE :: ushort where "T_DEVICE \<equiv> 3"

record dinode =
  di_type :: ushort
  di_major :: ushort
  di_minor :: ushort
  di_nlink :: ushort
  di_size :: uint
  di_addrs :: "uint list"

record inode =
  i_dev :: uint
  i_inum :: uint
  i_ref :: int
  i_lock :: sleeplock
  i_valid :: bool
  i_type :: ushort
  i_major :: ushort
  i_minor :: ushort
  i_nlink :: ushort
  i_size :: uint
  i_addrs :: "uint list"

record stat =
  st_dev :: int
  st_ino :: uint
  st_type :: ushort
  st_nlink :: ushort
  st_size :: uint64

record fs_state = dev_state +
  fsb :: superblock
  itable :: "inode list"

definition inode_at :: "nat \<Rightarrow> 'a fs_state_scheme \<Rightarrow> inode" where
  "inode_at ip s = itable s ! ip"

definition upd_inode :: "nat \<Rightarrow> (inode \<Rightarrow> inode) \<Rightarrow> 'a fs_state_scheme \<Rightarrow> 'a fs_state_scheme" where
  "upd_inode ip f s = s\<lparr>itable := (itable s)[ip := f (itable s ! ip)]\<rparr>"

definition IBLOCK :: "uint \<Rightarrow> superblock \<Rightarrow> uint" where
  "IBLOCK i sb = i div of_nat IPB + sb_inodestart sb"

definition BBLOCK :: "uint \<Rightarrow> superblock \<Rightarrow> uint" where
  "BBLOCK b sb = b div of_nat BPB + sb_bmapstart sb"

section \<open>The superblock\<close>

definition readsb :: "uint \<Rightarrow> 'a fs_state_scheme \<Rightarrow> 'a fs_state_scheme outcome" where
  "readsb dev s =
     bindo (bread dev 1 s) (\<lambda>(bp, s).
       let d = bdata bp s
       in brelse bp (s\<lparr>fsb := \<lparr>sb_magic = get32 d 0, sb_size = get32 d 4, sb_nblocks = get32 d 8,
            sb_ninodes = get32 d 12, sb_nlog = get32 d 16, sb_logstart = get32 d 20,
            sb_inodestart = get32 d 24, sb_bmapstart = get32 d 28\<rparr>\<rparr>))"

definition fsinit :: "uint \<Rightarrow> 'a fs_state_scheme \<Rightarrow> 'a fs_state_scheme outcome" where
  "fsinit dev s =
     bindo (readsb dev s) (\<lambda>s.
       if sb_magic (fsb s) \<noteq> FSMAGIC then Panic ''invalid file system''
       else initlog (sint dev) (fsb s) s)"

section \<open>Blocks\<close>

definition bzero :: "uint \<Rightarrow> uint \<Rightarrow> 'a fs_state_scheme \<Rightarrow> 'a fs_state_scheme outcome" where
  "bzero dev bno s =
     bindo (bread dev bno s) (\<lambda>(bp, s).
     bindo (log_write bp (set_bdata bp (replicate BSIZE 0) s)) (brelse bp))"

text \<open>The bit of the bitmap block \<open>d\<close> for its \<open>bi\<close>-th block, and its update.\<close>

definition bit_free :: "block \<Rightarrow> nat \<Rightarrow> bool" where
  "bit_free d bi \<longleftrightarrow> d ! (bi div 8) AND push_bit (bi mod 8) 1 = 0"

definition mark_used :: "block \<Rightarrow> nat \<Rightarrow> block" where
  "mark_used d bi = d[bi div 8 := d ! (bi div 8) OR push_bit (bi mod 8) 1]"

definition mark_free :: "block \<Rightarrow> nat \<Rightarrow> block" where
  "mark_free d bi = d[bi div 8 := d ! (bi div 8) AND NOT (push_bit (bi mod 8) 1)]"

text \<open>The outer loop of \<open>balloc\<close> over the first blocks \<open>bs\<close> of the bitmap's blocks.\<close>

fun balloc_loop :: "nat list \<Rightarrow> uint \<Rightarrow> 'a fs_state_scheme \<Rightarrow> (uint \<times> 'a fs_state_scheme) outcome" where
  "balloc_loop [] dev s =
     bindo (printf (str ''balloc: out of blocks'' @ [0x0a, 0]) [] s) (\<lambda>s. Ret (0, s))"
| "balloc_loop (b # bs) dev s =
     bindo (bread dev (BBLOCK (of_nat b) (fsb s)) s) (\<lambda>(bp, s).
       case find (bit_free (bdata bp s)) [0..<min BPB (unat (sb_size (fsb s)) - b)] of
         Some bi \<Rightarrow>
           bindo (log_write bp (set_bdata bp (mark_used (bdata bp s) bi) s)) (\<lambda>s.
           bindo (brelse bp s) (\<lambda>s.
           bindo (bzero dev (of_nat (b + bi)) s) (\<lambda>s.
           Ret (of_nat (b + bi), s))))
       | None \<Rightarrow> bindo (brelse bp s) (balloc_loop bs dev))"

definition balloc :: "uint \<Rightarrow> 'a fs_state_scheme \<Rightarrow> (uint \<times> 'a fs_state_scheme) outcome" where
  "balloc dev s = balloc_loop (map (\<lambda>k. k * BPB) [0..<(unat (sb_size (fsb s)) + BPB - 1) div BPB]) dev s"

definition bfree :: "uint \<Rightarrow> uint \<Rightarrow> 'a fs_state_scheme \<Rightarrow> 'a fs_state_scheme outcome" where
  "bfree dev b s =
     bindo (bread dev (BBLOCK b (fsb s)) s) (\<lambda>(bp, s).
       let bi = unat b mod BPB
       in if bit_free (bdata bp s) bi then Panic ''freeing free block''
          else bindo (log_write bp (set_bdata bp (mark_free (bdata bp s) bi) s)) (brelse bp))"

section \<open>Inodes\<close>

text \<open>A \<open>struct dinode\<close> at byte \<open>i\<close> of a block.\<close>

definition get_dinode :: "block \<Rightarrow> nat \<Rightarrow> dinode" where
  "get_dinode d i =
     \<lparr>di_type = get16 d i, di_major = get16 d (i + 2), di_minor = get16 d (i + 4), di_nlink = get16 d (i + 6),
      di_size = get32 d (i + 8), di_addrs = map (\<lambda>k. get32 d (i + 12 + 4 * k)) [0..<NDIRECT + 1]\<rparr>"

definition put_dinode :: "block \<Rightarrow> nat \<Rightarrow> dinode \<Rightarrow> block" where
  "put_dinode d i x =
     (let d = put16 d i (di_type x);
          d = put16 d (i + 2) (di_major x);
          d = put16 d (i + 4) (di_minor x);
          d = put16 d (i + 6) (di_nlink x);
          d = put32 d (i + 8) (di_size x)
      in fold (\<lambda>k d. put32 d (i + 12 + 4 * k) (di_addrs x ! k)) [0..<NDIRECT + 1] d)"

definition dinode_off :: "uint \<Rightarrow> nat" where
  "dinode_off inum = 64 * (unat inum mod IPB)"

definition iinit :: "'a fs_state_scheme \<Rightarrow> 'a fs_state_scheme" where
  "iinit s = s\<lparr>itable := map (\<lambda>ip. ip\<lparr>i_lock := initsleeplock\<rparr>) (itable s)\<rparr>"

text \<open>The slot \<open>iget\<close> takes: the entry of the inode if it is in use, else the first unused one.\<close>

definition iget :: "uint \<Rightarrow> uint \<Rightarrow> 'a fs_state_scheme \<Rightarrow> (nat \<times> 'a fs_state_scheme) outcome" where
  "iget dev inum s =
     (case find (\<lambda>i. i_ref (itable s ! i) > 0 \<and> i_dev (itable s ! i) = dev \<and> i_inum (itable s ! i) = inum)
             [0..<length (itable s)] of
        Some ip \<Rightarrow> Ret (ip, upd_inode ip (\<lambda>x. x\<lparr>i_ref := i_ref x + 1\<rparr>) s)
      | None \<Rightarrow>
          case find (\<lambda>i. i_ref (itable s ! i) = 0) [0..<length (itable s)] of
            None \<Rightarrow> Panic ''iget: no inodes''
          | Some ip \<Rightarrow>
              Ret (ip, upd_inode ip (\<lambda>x. x\<lparr>i_dev := dev, i_inum := inum, i_ref := 1, i_valid := False\<rparr>) s))"

fun ialloc_loop :: "nat list \<Rightarrow> uint \<Rightarrow> ushort \<Rightarrow> 'a fs_state_scheme \<Rightarrow> (nat option \<times> 'a fs_state_scheme) outcome" where
  "ialloc_loop [] dev type s =
     bindo (printf (str ''ialloc: no inodes'' @ [0x0a, 0]) [] s) (\<lambda>s. Ret (None, s))"
| "ialloc_loop (n # ns) dev type s =
     bindo (bread dev (IBLOCK (of_nat n) (fsb s)) s) (\<lambda>(bp, s).
       let o' = dinode_off (of_nat n)
       in if di_type (get_dinode (bdata bp s) o') = 0
          then bindo (log_write bp (set_bdata bp (put16 (overwrite (bdata bp s) o' (replicate 64 0)) o' type) s)) (\<lambda>s.
               bindo (brelse bp s) (\<lambda>s.
               bindo (iget dev (of_nat n) s) (\<lambda>(ip, s). Ret (Some ip, s))))
          else bindo (brelse bp s) (ialloc_loop ns dev type))"

definition ialloc :: "uint \<Rightarrow> ushort \<Rightarrow> 'a fs_state_scheme \<Rightarrow> (nat option \<times> 'a fs_state_scheme) outcome" where
  "ialloc dev type s = ialloc_loop [1..<unat (sb_ninodes (fsb s))] dev type s"

definition iupdate :: "nat \<Rightarrow> 'a fs_state_scheme \<Rightarrow> 'a fs_state_scheme outcome" where
  "iupdate ip s =
     (let x = itable s ! ip
      in bindo (bread (i_dev x) (IBLOCK (i_inum x) (fsb s)) s) (\<lambda>(bp, s).
         bindo (log_write bp (set_bdata bp (put_dinode (bdata bp s) (dinode_off (i_inum x))
                  \<lparr>di_type = i_type x, di_major = i_major x, di_minor = i_minor x, di_nlink = i_nlink x,
                   di_size = i_size x, di_addrs = i_addrs x\<rparr>) s)) (brelse bp)))"

definition idup :: "nat \<Rightarrow> 'a fs_state_scheme \<Rightarrow> 'a fs_state_scheme" where
  "idup ip s = upd_inode ip (\<lambda>x. x\<lparr>i_ref := i_ref x + 1\<rparr>) s"

definition ilock :: "nat option \<Rightarrow> 'a fs_state_scheme \<Rightarrow> 'a fs_state_scheme outcome" where
  "ilock ipo s =
     (case ipo of None \<Rightarrow> Panic ''ilock''
      | Some ip \<Rightarrow>
          if i_ref (itable s ! ip) < 1 then Panic ''ilock''
          else bindo (acquiresleep (i_lock (itable s ! ip)) s) (\<lambda>lk.
            let s = upd_inode ip (\<lambda>x. x\<lparr>i_lock := lk\<rparr>) s
            in if i_valid (itable s ! ip) then Ret s
               else let x = itable s ! ip
                    in bindo (bread (i_dev x) (IBLOCK (i_inum x) (fsb s)) s) (\<lambda>(bp, s).
                       let di = get_dinode (bdata bp s) (dinode_off (i_inum x));
                           s = upd_inode ip (\<lambda>x. x\<lparr>i_type := di_type di, i_major := di_major di, i_minor := di_minor di,
                                 i_nlink := di_nlink di, i_size := di_size di, i_addrs := di_addrs di\<rparr>) s
                       in bindo (brelse bp s) (\<lambda>s.
                          let s = upd_inode ip (\<lambda>x. x\<lparr>i_valid := True\<rparr>) s
                          in if i_type (itable s ! ip) = 0 then Panic ''ilock: no type'' else Ret s))))"

definition iunlock :: "nat option \<Rightarrow> 'a fs_state_scheme \<Rightarrow> 'a fs_state_scheme outcome" where
  "iunlock ipo s =
     (case ipo of None \<Rightarrow> Panic ''iunlock''
      | Some ip \<Rightarrow>
          bindo (holdingsleep (i_lock (itable s ! ip)) s) (\<lambda>h.
            if \<not> h \<or> i_ref (itable s ! ip) < 1 then Panic ''iunlock''
            else let (lk, s) = releasesleep (ChInodeLock ip) (i_lock (itable s ! ip)) s
                 in Ret (upd_inode ip (\<lambda>x. x\<lparr>i_lock := lk\<rparr>) s)))"

section \<open>Inode contents\<close>

definition bmap :: "nat \<Rightarrow> nat \<Rightarrow> 'a fs_state_scheme \<Rightarrow> (uint \<times> 'a fs_state_scheme) outcome" where
  "bmap ip bn s =
     (let dev = i_dev (itable s ! ip) in
      if bn < NDIRECT
      then let addr = i_addrs (itable s ! ip) ! bn
           in if addr = 0
              then bindo (balloc dev s) (\<lambda>(addr, s).
                if addr = 0 then Ret (0, s)
                else Ret (addr, upd_inode ip (\<lambda>x. x\<lparr>i_addrs := (i_addrs x)[bn := addr]\<rparr>) s))
              else Ret (addr, s)
      else if bn - NDIRECT < NINDIRECT
      then bindo (let addr = i_addrs (itable s ! ip) ! NDIRECT
                  in if addr = 0
                     then bindo (balloc dev s) (\<lambda>(addr, s).
                       Ret (addr, if addr = 0 then s
                                  else upd_inode ip (\<lambda>x. x\<lparr>i_addrs := (i_addrs x)[NDIRECT := addr]\<rparr>) s))
                     else Ret (addr, s)) (\<lambda>(ind, s).
             if ind = 0 then Ret (0, s)
             else bindo (bread dev ind s) (\<lambda>(bp, s).
               let addr = get32 (bdata bp s) (4 * (bn - NDIRECT))
               in bindo (if addr = 0
                         then bindo (balloc dev s) (\<lambda>(addr, s).
                           if addr = 0 then Ret (addr, s)
                           else bindo (log_write bp (set_bdata bp (put32 (bdata bp s) (4 * (bn - NDIRECT)) addr) s)) (\<lambda>s.
                             Ret (addr, s)))
                         else Ret (addr, s)) (\<lambda>(addr, s).
                  bindo (brelse bp s) (\<lambda>s. Ret (addr, s)))))
      else Panic ''bmap: out of range'')"

definition itrunc :: "nat \<Rightarrow> 'a fs_state_scheme \<Rightarrow> 'a fs_state_scheme outcome" where
  "itrunc ip s =
     (let dev = i_dev (itable s ! ip) in
      bindo (foldo (\<lambda>i s.
          let a = i_addrs (itable s ! ip) ! i
          in if a \<noteq> 0
             then bindo (bfree dev a s) (\<lambda>s. Ret (upd_inode ip (\<lambda>x. x\<lparr>i_addrs := (i_addrs x)[i := 0]\<rparr>) s))
             else Ret s) [0..<NDIRECT] s) (\<lambda>s.
      bindo (let ind = i_addrs (itable s ! ip) ! NDIRECT
             in if ind \<noteq> 0
                then bindo (bread dev ind s) (\<lambda>(bp, s).
                     bindo (foldo (\<lambda>j s. let a = get32 (bdata bp s) (4 * j) in if a \<noteq> 0 then bfree dev a s else Ret s)
                              [0..<NINDIRECT] s) (\<lambda>s.
                     bindo (brelse bp s) (\<lambda>s.
                     bindo (bfree dev ind s) (\<lambda>s.
                     Ret (upd_inode ip (\<lambda>x. x\<lparr>i_addrs := (i_addrs x)[NDIRECT := 0]\<rparr>) s)))))
                else Ret s) (\<lambda>s.
      iupdate ip (upd_inode ip (\<lambda>x. x\<lparr>i_size := 0\<rparr>) s))))"

definition iput :: "nat \<Rightarrow> 'a fs_state_scheme \<Rightarrow> 'a fs_state_scheme outcome" where
  "iput ip s =
     bindo (if i_ref (itable s ! ip) = 1 \<and> i_valid (itable s ! ip) \<and> i_nlink (itable s ! ip) = 0
            then bindo (acquiresleep (i_lock (itable s ! ip)) s) (\<lambda>lk.
                 bindo (itrunc ip (upd_inode ip (\<lambda>x. x\<lparr>i_lock := lk\<rparr>) s)) (\<lambda>s.
                 bindo (iupdate ip (upd_inode ip (\<lambda>x. x\<lparr>i_type := 0\<rparr>) s)) (\<lambda>s.
                   let s = upd_inode ip (\<lambda>x. x\<lparr>i_valid := False\<rparr>) s;
                       (lk, s) = releasesleep (ChInodeLock ip) (i_lock (itable s ! ip)) s
                   in Ret (upd_inode ip (\<lambda>x. x\<lparr>i_lock := lk\<rparr>) s))))
            else Ret s) (\<lambda>s.
       Ret (upd_inode ip (\<lambda>x. x\<lparr>i_ref := i_ref x - 1\<rparr>) s))"

definition iunlockput :: "nat \<Rightarrow> 'a fs_state_scheme \<Rightarrow> 'a fs_state_scheme outcome" where
  "iunlockput ip s = bindo (iunlock (Some ip) s) (iput ip)"

definition stati :: "nat \<Rightarrow> 'a fs_state_scheme \<Rightarrow> stat" where
  "stati ip s =
     (let x = itable s ! ip
      in \<lparr>st_dev = sint (i_dev x), st_ino = i_inum x, st_type = i_type x, st_nlink = i_nlink x, st_size = ucast (i_size x)\<rparr>)"

section \<open>Reading and writing\<close>

text \<open>The bytes a copy of \<open>n\<close> bytes at \<open>off\<close> handles in its first block: \<open>min(n - tot, BSIZE - off%BSIZE)\<close>.\<close>

definition in_block :: "nat \<Rightarrow> nat \<Rightarrow> nat" where
  "in_block off n = min n (BSIZE - off mod BSIZE)"

lemma in_block_pos: "0 < n \<Longrightarrow> 0 < in_block off n"
  by (simp add: in_block_def)

text \<open>
  The loop of \<open>readi\<close> with \<open>n\<close> bytes still to read: how many it read, or None for the error return,
  and the destination.
\<close>

function readi_loop :: "nat \<Rightarrow> place \<Rightarrow> nat \<Rightarrow> nat \<Rightarrow> 'a fs_state_scheme \<Rightarrow>
    (nat option \<times> place \<times> 'a fs_state_scheme) outcome" where
  "readi_loop ip dst off n s =
     (if n = 0 then Ret (Some 0, dst, s)
      else bindo (bmap ip (off div BSIZE) s) (\<lambda>(addr, s).
        if addr = 0 then Ret (Some 0, dst, s)
        else bindo (bread (i_dev (itable s ! ip)) addr s) (\<lambda>(bp, s).
          let m = in_block off n;
              bs = take m (drop (off mod BSIZE) (bdata bp s))
          in bindo (either_copyout dst bs s) (\<lambda>(r, dst, s).
             if r = - 1 then bindo (brelse bp s) (\<lambda>s. Ret (None, dst, s))
             else bindo (brelse bp s) (\<lambda>s.
                  bindo (readi_loop ip (advance m dst) (off + m) (n - m) s) (\<lambda>(t, dst, s).
                    Ret (map_option (\<lambda>t. m + t) t, dst, s)))))))"
  by pat_completeness auto
termination
  by (relation "measure (\<lambda>(ip, dst, off, n, s). n)") (auto simp: in_block_pos)

declare readi_loop.simps [simp del]

definition readi :: "nat \<Rightarrow> place \<Rightarrow> uint \<Rightarrow> uint \<Rightarrow> 'a fs_state_scheme \<Rightarrow> (int \<times> place \<times> 'a fs_state_scheme) outcome" where
  "readi ip dst off n s =
     (let size = i_size (itable s ! ip)
      in if off > size \<or> off + n < off then Ret (0, dst, s)
         else let n = (if off + n > size then size - off else n)
              in bindo (readi_loop ip dst (unat off) (unat n) s) (\<lambda>(t, dst, s).
                   Ret (case t of None \<Rightarrow> - 1 | Some t \<Rightarrow> int t, dst, s)))"

text \<open>
  The loop of \<open>writei\<close>: how many bytes it wrote. When the copy from the caller fails, the bytes copied
  before the failure are in the buffer, which is released without \<open>log_write\<close>.
\<close>

function writei_loop :: "nat \<Rightarrow> place \<Rightarrow> nat \<Rightarrow> nat \<Rightarrow> 'a fs_state_scheme \<Rightarrow> (nat \<times> 'a fs_state_scheme) outcome" where
  "writei_loop ip src off n s =
     (if n = 0 then Ret (0, s)
      else bindo (bmap ip (off div BSIZE) s) (\<lambda>(addr, s).
        if addr = 0 then Ret (0, s)
        else bindo (bread (i_dev (itable s ! ip)) addr s) (\<lambda>(bp, s).
          let m = in_block off n
          in bindo (either_copyin src m s) (\<lambda>(r, bs).
             let s = set_bdata bp (overwrite (bdata bp s) (off mod BSIZE) bs) s
             in if r = - 1 then bindo (brelse bp s) (\<lambda>s. Ret (0, s))
                else bindo (log_write bp s) (\<lambda>s.
                     bindo (brelse bp s) (\<lambda>s.
                     bindo (writei_loop ip (advance m src) (off + m) (n - m) s) (\<lambda>(t, s).
                       Ret (m + t, s))))))))"
  by pat_completeness auto
termination
  by (relation "measure (\<lambda>(ip, src, off, n, s). n)") (auto simp: in_block_pos)

declare writei_loop.simps [simp del]

definition writei :: "nat \<Rightarrow> place \<Rightarrow> uint \<Rightarrow> uint \<Rightarrow> 'a fs_state_scheme \<Rightarrow> (int \<times> 'a fs_state_scheme) outcome" where
  "writei ip src off n s =
     (if off > i_size (itable s ! ip) \<or> off + n < off then Ret (- 1, s)
      else if off + n > of_nat (MAXFILE * BSIZE) then Ret (- 1, s)
      else bindo (writei_loop ip src (unat off) (unat n) s) (\<lambda>(tot, s).
        let off = off + of_nat tot;
            s = (if off > i_size (itable s ! ip) then upd_inode ip (\<lambda>x. x\<lparr>i_size := off\<rparr>) s else s)
        in bindo (iupdate ip s) (\<lambda>s. Ret (int tot, s))))"

section \<open>Directories\<close>

definition namecmp :: "uchar list \<Rightarrow> uchar list \<Rightarrow> int outcome" where
  "namecmp s t = strncmp s t DIRSIZ"

text \<open>A \<open>struct dirent\<close>: the inode number and the 14 bytes of the name.\<close>

definition de_inum :: "uchar list \<Rightarrow> ushort" where "de_inum de = get16 de 0"
definition de_name :: "uchar list \<Rightarrow> uchar list" where "de_name de = take DIRSIZ (drop 2 de)"

text \<open>A \<open>struct dirent\<close> on the stack; its initial bytes are never used.\<close>

definition no_dirent :: "uchar list" where "no_dirent = replicate 16 0"

fun dirlookup_loop :: "nat list \<Rightarrow> nat \<Rightarrow> uchar list \<Rightarrow> 'a fs_state_scheme \<Rightarrow>
    ((nat \<times> uint) option \<times> 'a fs_state_scheme) outcome" where
  "dirlookup_loop [] dp name s = Ret (None, s)"
| "dirlookup_loop (off # offs) dp name s =
     bindo (readi dp (Local 0 no_dirent) (of_nat off) 16 s) (\<lambda>(r, dst, s).
       let de = var_bytes dst
       in if r \<noteq> 16 then Panic ''dirlookup read''
          else if de_inum de = 0 then dirlookup_loop offs dp name s
          else bindo (namecmp name (de_name de)) (\<lambda>c.
            if c = 0
            then bindo (iget (i_dev (itable s ! dp)) (ucast (de_inum de)) s) (\<lambda>(ip, s). Ret (Some (ip, of_nat off), s))
            else dirlookup_loop offs dp name s))"

text \<open>The offsets of the entries of a directory of \<open>sz\<close> bytes.\<close>

definition dir_offs :: "uint \<Rightarrow> nat list" where
  "dir_offs sz = map (\<lambda>k. 16 * k) [0..<(unat sz + 15) div 16]"

definition dirlookup :: "nat \<Rightarrow> uchar list \<Rightarrow> 'a fs_state_scheme \<Rightarrow> ((nat \<times> uint) option \<times> 'a fs_state_scheme) outcome" where
  "dirlookup dp name s =
     (if i_type (itable s ! dp) \<noteq> T_DIR then Panic ''dirlookup not DIR''
      else dirlookup_loop (dir_offs (i_size (itable s ! dp))) dp name s)"

text \<open>The search of \<open>dirlink\<close> for an empty entry, and the entry it last read.\<close>

fun dirlink_loop :: "nat list \<Rightarrow> nat \<Rightarrow> uchar list \<Rightarrow> nat \<Rightarrow> 'a fs_state_scheme \<Rightarrow> (nat \<times> uchar list \<times> 'a fs_state_scheme) outcome" where
  "dirlink_loop [] dp de off s = Ret (off, de, s)"
| "dirlink_loop (o' # offs) dp de off s =
     bindo (readi dp (Local 0 de) (of_nat o') 16 s) (\<lambda>(r, dst, s).
       let de = var_bytes dst
       in if r \<noteq> 16 then Panic ''dirlink read''
          else if de_inum de = 0 then Ret (o', de, s)
          else dirlink_loop offs dp de (o' + 16) s)"

definition dirlink :: "nat \<Rightarrow> uchar list \<Rightarrow> uint \<Rightarrow> 'a fs_state_scheme \<Rightarrow> (int \<times> 'a fs_state_scheme) outcome" where
  "dirlink dp name inum s =
     bindo (dirlookup dp name s) (\<lambda>(found, s).
       case found of
         Some (ip, _) \<Rightarrow> bindo (iput ip s) (\<lambda>s. Ret (- 1, s))
       | None \<Rightarrow>
           bindo (dirlink_loop (dir_offs (i_size (itable s ! dp))) dp no_dirent 0 s) (\<lambda>(off, de, s).
           bindo (strncpy (de_name de) name (int DIRSIZ)) (\<lambda>nm.
             let de = bytes_of 2 (ucast inum :: ushort) @ nm
             in bindo (writei dp (Local 0 de) (of_nat off) 16 s) (\<lambda>(r, s).
                  Ret (if r \<noteq> 16 then - 1 else 0, s)))))"

section \<open>Paths\<close>

abbreviation (input) SLASH :: uchar where "SLASH \<equiv> 0x2f"

text \<open>The loops of \<open>skipelem\<close>; a string is read up to its terminator.\<close>

fun skip_slashes :: "uchar list \<Rightarrow> uchar list outcome" where
  "skip_slashes [] = Undef"
| "skip_slashes (c # cs) = (if c = SLASH then skip_slashes cs else Ret (c # cs))"

fun path_elem :: "uchar list \<Rightarrow> (uchar list \<times> uchar list) outcome" where
  "path_elem [] = Undef"
| "path_elem (c # cs) =
     (if c = SLASH \<or> c = 0 then Ret ([], c # cs)
      else bindo (path_elem cs) (\<lambda>(e, rest). Ret (c # e, rest)))"

text \<open>The rest of the path, and the \<open>DIRSIZ\<close> bytes of \<open>name\<close>; None for the null pointer.\<close>

definition skipelem :: "uchar list \<Rightarrow> uchar list \<Rightarrow> (uchar list \<times> uchar list) option outcome" where
  "skipelem path name =
     bindo (skip_slashes path) (\<lambda>path.
       if hd path = 0 then Ret None
       else bindo (path_elem path) (\<lambda>(s, path).
         let name = (if length s \<ge> DIRSIZ then take DIRSIZ s else overwrite name 0 (s @ [0]))
         in bindo (skip_slashes path) (\<lambda>path. Ret (Some (path, name)))))"

lemma skip_slashes_length: "skip_slashes p = Ret q \<Longrightarrow> length q \<le> length p"
  by (induction p) (auto split: if_splits)

lemma skip_slashes_hd: "skip_slashes p = Ret q \<Longrightarrow> q \<noteq> [] \<and> hd q \<noteq> SLASH"
  by (induction p) (auto split: if_splits)

lemma path_elem_length: "path_elem p = Ret (e, q) \<Longrightarrow> length p = length e + length q"
  by (induction p arbitrary: e) (auto simp: bindo_Ret_iff split: if_splits)

lemma skipelem_shrinks: "skipelem path name = Ret (Some (rest, nm)) \<Longrightarrow> length rest < length path"
proof -
  assume "skipelem path name = Ret (Some (rest, nm))"
  then obtain p e q where p: "skip_slashes path = Ret p" "hd p \<noteq> 0" "path_elem p = Ret (e, q)" "skip_slashes q = Ret rest"
    by (auto simp: skipelem_def bindo_Ret_iff Let_def split: if_splits)
  from skip_slashes_hd[OF p(1)] p(2,3) have "e \<noteq> []"
    by (cases p) (auto simp: bindo_Ret_iff)
  then show ?thesis
    using skip_slashes_length[OF p(1)] skip_slashes_length[OF p(4)] path_elem_length[OF p(3)] by (cases e) auto
qed

function namex_loop :: "nat \<Rightarrow> uchar list \<Rightarrow> bool \<Rightarrow> uchar list \<Rightarrow> 'a fs_state_scheme \<Rightarrow>
    (nat option \<times> uchar list \<times> 'a fs_state_scheme) outcome" where
  "namex_loop ip path nameiparent name s =
     bindo (skipelem path name) (\<lambda>e. case e of
       None \<Rightarrow>
         if nameiparent then bindo (iput ip s) (\<lambda>s. Ret (None, name, s))
         else Ret (Some ip, name, s)
     | Some (rest, nm) \<Rightarrow>
         bindo (ilock (Some ip) s) (\<lambda>s.
           if i_type (itable s ! ip) \<noteq> T_DIR
           then bindo (iunlockput ip s) (\<lambda>s. Ret (None, nm, s))
           else if nameiparent \<and> hd rest = 0
           then bindo (iunlock (Some ip) s) (\<lambda>s. Ret (Some ip, nm, s))
           else bindo (dirlookup ip nm s) (\<lambda>(found, s).
             case found of
               None \<Rightarrow> bindo (iunlockput ip s) (\<lambda>s. Ret (None, nm, s))
             | Some (nip, _) \<Rightarrow>
                 bindo (iunlockput ip s) (\<lambda>s. namex_loop nip rest nameiparent nm s))))"
  by pat_completeness auto
termination
  by (relation "measure (\<lambda>(ip, path, nameiparent, name, s). length path)") (auto dest: skipelem_shrinks)

declare namex_loop.simps [simp del]

definition namex :: "uchar list \<Rightarrow> bool \<Rightarrow> uchar list \<Rightarrow> 'a fs_state_scheme \<Rightarrow> (nat option \<times> uchar list \<times> 'a fs_state_scheme) outcome" where
  "namex path nameiparent name s =
     (case path of
        [] \<Rightarrow> Undef
      | c # _ \<Rightarrow>
          if c = SLASH
          then bindo (iget ROOTDEV ROOTINO s) (\<lambda>(ip, s). namex_loop ip path nameiparent name s)
          else case myproc s of
                 None \<Rightarrow> Undef
               | Some p \<Rightarrow>
                   case p_cwd (procs s ! p) of
                     None \<Rightarrow> Undef
                   | Some ip \<Rightarrow> namex_loop ip path nameiparent name (idup ip s))"

definition namei :: "uchar list \<Rightarrow> 'a fs_state_scheme \<Rightarrow> (nat option \<times> 'a fs_state_scheme) outcome" where
  "namei path s = bindo (namex path False (replicate DIRSIZ 0) s) (\<lambda>(ip, _, s). Ret (ip, s))"

definition nameiparent :: "uchar list \<Rightarrow> uchar list \<Rightarrow> 'a fs_state_scheme \<Rightarrow> (nat option \<times> uchar list \<times> 'a fs_state_scheme) outcome" where
  "nameiparent path name s = namex path True name s"

end
