(* ===== verification/File.thy ===== *)
theory File
  imports Fs
begin

text \<open>
  Open files and pipes: \<^verbatim>\<open>kernel/file.c\<close>, \<^verbatim>\<open>kernel/file.h\<close> and \<^verbatim>\<open>kernel/pipe.c\<close>. An open file is
  named by its index in \<open>ftable.file\<close>, a pipe by the address of the page that holds it; the pipe's
  fields are kept in the map \<open>pipes\<close> and its page comes from and returns to \<open>kalloc\<close>. Only the console
  registers itself in \<open>devsw\<close>, so an entry says whether the console's functions are there.

  A read or write that sleeps half way returns \<open>Blocked i\<close> with the state it leaves to others.
\<close>

section \<open>State\<close>

datatype ftype = FD_NONE | FD_PIPE | FD_INODE | FD_DEVICE

record kfile =
  f_type :: ftype
  f_ref :: int
  f_readable :: bool
  f_writable :: bool
  f_pipe :: uint64
  f_ip :: nat
  f_off :: uint
  f_major :: ushort

abbreviation (input) PIPESIZE :: nat where "PIPESIZE \<equiv> 512"

record pipe =
  pi_data :: "uchar list"
  pi_nread :: uint
  pi_nwrite :: uint
  pi_readopen :: bool
  pi_writeopen :: bool

record file_state = fs_state +
  ftable :: "kfile list"
  devsw :: "bool list"
  pipes :: "uint64 \<Rightarrow> pipe"

definition upd_file :: "nat \<Rightarrow> (kfile \<Rightarrow> kfile) \<Rightarrow> 'a file_state_scheme \<Rightarrow> 'a file_state_scheme" where
  "upd_file f g s = s\<lparr>ftable := (ftable s)[f := g (ftable s ! f)]\<rparr>"

definition upd_pipe :: "uint64 \<Rightarrow> (pipe \<Rightarrow> pipe) \<Rightarrow> 'a file_state_scheme \<Rightarrow> 'a file_state_scheme" where
  "upd_pipe pi g s = s\<lparr>pipes := (pipes s)(pi := g (pipes s pi))\<rparr>"

section \<open>Allocation and reference counts\<close>

definition filealloc :: "'a file_state_scheme \<Rightarrow> nat option \<times> 'a file_state_scheme" where
  "filealloc s =
     (case find (\<lambda>f. f_ref (ftable s ! f) = 0) [0..<length (ftable s)] of
        None \<Rightarrow> (None, s)
      | Some f \<Rightarrow> (Some f, upd_file f (\<lambda>x. x\<lparr>f_ref := 1\<rparr>) s))"

definition filedup :: "nat \<Rightarrow> 'a file_state_scheme \<Rightarrow> 'a file_state_scheme outcome" where
  "filedup f s =
     (if f_ref (ftable s ! f) < 1 then Panic ''filedup''
      else Ret (upd_file f (\<lambda>x. x\<lparr>f_ref := f_ref x + 1\<rparr>) s))"

definition pipeclose :: "uint64 \<Rightarrow> bool \<Rightarrow> 'a file_state_scheme \<Rightarrow> 'a file_state_scheme outcome" where
  "pipeclose pi writable s =
     (let s = (if writable then wakeup (ChPipeRead pi) (upd_pipe pi (\<lambda>x. x\<lparr>pi_writeopen := False\<rparr>) s)
               else wakeup (ChPipeWrite pi) (upd_pipe pi (\<lambda>x. x\<lparr>pi_readopen := False\<rparr>) s))
      in if \<not> pi_readopen (pipes s pi) \<and> \<not> pi_writeopen (pipes s pi) then kfree pi s else Ret s)"

definition fileclose :: "nat \<Rightarrow> 'a file_state_scheme \<Rightarrow> 'a file_state_scheme outcome" where
  "fileclose f s =
     (if f_ref (ftable s ! f) < 1 then Panic ''fileclose''
      else let s = upd_file f (\<lambda>x. x\<lparr>f_ref := f_ref x - 1\<rparr>) s
           in if f_ref (ftable s ! f) > 0 then Ret s
              else let ff = ftable s ! f;
                       s = upd_file f (\<lambda>x. x\<lparr>f_ref := 0, f_type := FD_NONE\<rparr>) s
                   in case f_type ff of
                        FD_PIPE \<Rightarrow> pipeclose (f_pipe ff) (f_writable ff) s
                      | FD_NONE \<Rightarrow> Ret s
                      | _ \<Rightarrow> bindo (begin_op s) (\<lambda>s. bindo (iput (f_ip ff) s) end_op))"

text \<open>\<open>pipealloc\<close>: the read end and the write end, or None for the return value -1.\<close>

definition pipealloc :: "'a file_state_scheme \<Rightarrow> ((nat \<times> nat) option \<times> 'a file_state_scheme) outcome" where
  "pipealloc s =
     (case filealloc s of
        (None, s) \<Rightarrow> Ret (None, s)
      | (Some f0, s) \<Rightarrow>
          case filealloc s of
            (None, s) \<Rightarrow> bindo (fileclose f0 s) (\<lambda>s. Ret (None, s))
          | (Some f1, s) \<Rightarrow>
              let (pi, s) = kalloc s
              in if pi = 0
                 then bindo (fileclose f0 s) (\<lambda>s. bindo (fileclose f1 s) (\<lambda>s. Ret (None, s)))
                 else let s = upd_pipe pi (\<lambda>x. x\<lparr>pi_readopen := True, pi_writeopen := True, pi_nwrite := 0, pi_nread := 0\<rparr>) s;
                          s = upd_file f0 (\<lambda>x. x\<lparr>f_type := FD_PIPE, f_readable := True, f_writable := False, f_pipe := pi\<rparr>) s;
                          s = upd_file f1 (\<lambda>x. x\<lparr>f_type := FD_PIPE, f_readable := False, f_writable := True, f_pipe := pi\<rparr>) s
                      in Ret (Some (f0, f1), s))"

section \<open>Pipes\<close>

text \<open>The loop of \<open>pipewrite\<close> from byte \<open>i\<close> on, by the process \<open>pr\<close>.\<close>

function pipewrite_loop :: "uint64 \<Rightarrow> nat \<Rightarrow> uint64 \<Rightarrow> nat \<Rightarrow> nat \<Rightarrow> 'a file_state_scheme \<Rightarrow> ((nat, int) run \<times> 'a file_state_scheme) outcome" where
  "pipewrite_loop pi pr addr n i s =
     (if i \<ge> n then Ret (Done (int i), wakeup (ChPipeRead pi) s)
      else if \<not> pi_readopen (pipes s pi) \<or> killed pr s \<noteq> 0 then Ret (Done (- 1), s)
      else if pi_nwrite (pipes s pi) = pi_nread (pipes s pi) + of_nat PIPESIZE
      then Ret (Blocked i, wakeup (ChPipeRead pi) s)
      else bindo (copyin (p_pagetable (procs s ! pr)) (addr + of_nat i) 1 s) (\<lambda>(r, ch).
        if r = - 1 then Ret (Done (int i), wakeup (ChPipeRead pi) s)
        else pipewrite_loop pi pr addr n (i + 1)
               (upd_pipe pi (\<lambda>x. x\<lparr>pi_data := ring_put (hd ch) (pi_data x) (pi_nwrite x), pi_nwrite := pi_nwrite x + 1\<rparr>) s)))"
  by pat_completeness auto
termination
  by (relation "measure (\<lambda>(pi, pr, addr, n, i, s). n - i)") auto

declare pipewrite_loop.simps [simp del]

definition pipewrite :: "uint64 \<Rightarrow> uint64 \<Rightarrow> int \<Rightarrow> 'a file_state_scheme \<Rightarrow> ((nat, int) run \<times> 'a file_state_scheme) outcome" where
  "pipewrite pi addr n s =
     (case myproc s of None \<Rightarrow> Undef | Some pr \<Rightarrow> pipewrite_loop pi pr addr (nat n) 0 s)"

text \<open>The copying loop of \<open>piperead\<close> from byte \<open>i\<close> on: the byte is taken from the pipe before it is copied out.\<close>

function piperead_loop :: "uint64 \<Rightarrow> nat \<Rightarrow> uint64 \<Rightarrow> nat \<Rightarrow> nat \<Rightarrow> 'a file_state_scheme \<Rightarrow> (int \<times> 'a file_state_scheme) outcome" where
  "piperead_loop pi pr addr n i s =
     (if i \<ge> n then Ret (int i, s)
      else if pi_nread (pipes s pi) = pi_nwrite (pipes s pi) then Ret (int i, s)
      else let ch = ring_get (pi_data (pipes s pi)) (pi_nread (pipes s pi));
               s = upd_pipe pi (\<lambda>x. x\<lparr>pi_nread := pi_nread x + 1\<rparr>) s
           in bindo (copyout (p_pagetable (procs s ! pr)) (addr + of_nat i) [ch] s) (\<lambda>(r, s).
                if r = - 1 then Ret (int i, s) else piperead_loop pi pr addr n (i + 1) s))"
  by pat_completeness auto
termination
  by (relation "measure (\<lambda>(pi, pr, addr, n, i, s). n - i)") auto

declare piperead_loop.simps [simp del]

definition piperead :: "uint64 \<Rightarrow> uint64 \<Rightarrow> int \<Rightarrow> 'a file_state_scheme \<Rightarrow> (int \<times> 'a file_state_scheme) outcome" where
  "piperead pi addr n s =
     (case myproc s of
        None \<Rightarrow> Undef
      | Some pr \<Rightarrow>
          if pi_nread (pipes s pi) = pi_nwrite (pipes s pi) \<and> pi_writeopen (pipes s pi)
          then if killed pr s \<noteq> 0 then Ret (- 1, s) else Sleeps
          else bindo (piperead_loop pi pr addr (nat n) 0 s) (\<lambda>(i, s). Ret (i, wakeup (ChPipeWrite pi) s)))"

section \<open>Reading and writing open files\<close>

text \<open>The bytes of a \<open>struct stat\<close>; \<open>pad\<close> is what the four bytes of padding hold.\<close>

definition stat_bytes :: "uchar list \<Rightarrow> stat \<Rightarrow> uchar list" where
  "stat_bytes pad st =
     bytes_of 4 (word_of_int (st_dev st) :: uint) @ bytes_of 4 (st_ino st) @ bytes_of 2 (st_type st) @
     bytes_of 2 (st_nlink st) @ pad @ bytes_of 8 (st_size st)"

definition filestat :: "uchar list \<Rightarrow> nat \<Rightarrow> uint64 \<Rightarrow> 'a file_state_scheme \<Rightarrow> (int \<times> 'a file_state_scheme) outcome" where
  "filestat pad f addr s =
     (let x = ftable s ! f
      in if f_type x = FD_INODE \<or> f_type x = FD_DEVICE
         then bindo (ilock (Some (f_ip x)) s) (\<lambda>s.
              let st = stati (f_ip x) s
              in bindo (iunlock (Some (f_ip x)) s) (\<lambda>s.
                 case myproc s of
                   None \<Rightarrow> Undef
                 | Some p \<Rightarrow> bindo (copyout (p_pagetable (procs s ! p)) addr (stat_bytes pad st) s) (\<lambda>(r, s).
                     Ret (if r < 0 then - 1 else 0, s))))
         else Ret (- 1, s))"

definition fileread :: "nat \<Rightarrow> uint64 \<Rightarrow> int \<Rightarrow> 'a file_state_scheme \<Rightarrow> ((nat, int) run \<times> 'a file_state_scheme) outcome" where
  "fileread f addr n s =
     (let x = ftable s ! f
      in if \<not> f_readable x then Ret (Done (- 1), s)
         else case f_type x of
                FD_PIPE \<Rightarrow> bindo (piperead (f_pipe x) addr n s) (\<lambda>(r, s). Ret (Done r, s))
              | FD_DEVICE \<Rightarrow>
                  if sint (f_major x) < 0 \<or> sint (f_major x) \<ge> int NDEV \<or> \<not> devsw s ! nat (sint (f_major x))
                  then Ret (Done (- 1), s)
                  else bindo (consoleread (User addr) n s) (\<lambda>(r, _, s). Ret (r, s))
              | FD_INODE \<Rightarrow>
                  bindo (ilock (Some (f_ip x)) s) (\<lambda>s.
                  bindo (readi (f_ip x) (User addr) (f_off x) (word_of_int n) s) (\<lambda>(r, _, s).
                  let s = (if r > 0 then upd_file f (\<lambda>x. x\<lparr>f_off := f_off x + word_of_int r\<rparr>) s else s)
                  in bindo (iunlock (Some (f_ip x)) s) (\<lambda>s. Ret (Done r, s))))
              | FD_NONE \<Rightarrow> Panic ''fileread'')"

text \<open>The loop of \<open>filewrite\<close> from byte \<open>i\<close> on; it may have to wait for the log before each chunk.\<close>

abbreviation (input) WRITE_MAX :: nat where "WRITE_MAX \<equiv> 3072"

function filewrite_loop :: "nat \<Rightarrow> uint64 \<Rightarrow> nat \<Rightarrow> nat \<Rightarrow> 'a file_state_scheme \<Rightarrow> ((nat, int) run \<times> 'a file_state_scheme) outcome" where
  "filewrite_loop f addr n i s =
     (if i \<ge> n then Ret (Done (int n), s)
      else let n1 = min (n - i) WRITE_MAX; x = ftable s ! f
           in case begin_op s of
                Sleeps \<Rightarrow> Ret (Blocked i, s)
              | b \<Rightarrow>
                  bindo b (\<lambda>s.
                  bindo (ilock (Some (f_ip x)) s) (\<lambda>s.
                  bindo (writei (f_ip x) (User (addr + of_nat i)) (f_off x) (of_nat n1) s) (\<lambda>(r, s).
                  let s = (if r > 0 then upd_file f (\<lambda>x. x\<lparr>f_off := f_off x + word_of_int r\<rparr>) s else s)
                  in bindo (iunlock (Some (f_ip x)) s) (\<lambda>s.
                     bindo (end_op s) (\<lambda>s.
                       if r \<noteq> int n1 then Ret (Done (- 1), s)
                       else filewrite_loop f addr n (i + n1) s))))))"
  by pat_completeness auto
termination
  by (relation "measure (\<lambda>(f, addr, n, i, s). n - i)") auto

declare filewrite_loop.simps [simp del]

definition filewrite :: "nat \<Rightarrow> uint64 \<Rightarrow> int \<Rightarrow> 'a file_state_scheme \<Rightarrow> ((nat, int) run \<times> 'a file_state_scheme) outcome" where
  "filewrite f addr n s =
     (let x = ftable s ! f
      in if \<not> f_writable x then Ret (Done (- 1), s)
         else case f_type x of
                FD_PIPE \<Rightarrow> pipewrite (f_pipe x) addr n s
              | FD_DEVICE \<Rightarrow>
                  if sint (f_major x) < 0 \<or> sint (f_major x) \<ge> int NDEV \<or> \<not> devsw s ! nat (sint (f_major x))
                  then Ret (Done (- 1), s)
                  else consolewrite (User addr) n s
              | FD_INODE \<Rightarrow> if n < 0 then Ret (Done (- 1), s) else filewrite_loop f addr (nat n) 0 s
              | FD_NONE \<Rightarrow> Panic ''filewrite'')"

definition consoleinit :: "'a file_state_scheme \<Rightarrow> 'a file_state_scheme" where
  "consoleinit s = (let s = uartinit s in s\<lparr>devsw := (devsw s)[1 := True]\<rparr>)"

end
