(* ===== verification/Copy_Laws.thy ===== *)
theory Copy_Laws
  imports Copy Vm_User
begin

text \<open>
  What copying to a caller's buffer does. \<open>delivered\<close> says that given bytes are at a destination and
  that nothing else has changed, for each kind of destination; \<open>either_copyout\<close> delivers its bytes, or, at a user
  address, those before the first address that is not mapped. Deliveries to adjacent positions compose, which is
  how the loops that advance their destination are verified.
\<close>

section \<open>Delivery\<close>

text \<open>The page table of the calling process.\<close>

definition user_pt :: "'a proc_state_scheme \<Rightarrow> uint64" where
  "user_pt s = p_pagetable (procs s ! the (myproc s))"

text \<open>The destination can be written: the caller's tables are in order, or the variable has room for \<open>n\<close> bytes.\<close>

definition dst_ok :: "uint64 list \<Rightarrow> place \<Rightarrow> nat \<Rightarrow> 'a proc_state_scheme \<Rightarrow> bool" where
  "dst_ok F dst n s \<longleftrightarrow>
     (case dst of
        User va \<Rightarrow> myproc s \<noteq> None \<and> pt_ok s F (user_pt s) \<and> user_ok (mem s) F (user_pt s)
      | Kern pa \<Rightarrow> True
      | Local i v \<Rightarrow> i + n \<le> length v)"

text \<open>
  The bytes \<open>bs\<close> have been delivered to \<open>dst\<close>: they are in the user's memory at the address, the translations are the
  same and no other byte of memory has changed; or at the physical address; or in the variable, now \<open>d\<close>.
\<close>

definition delivered :: "uint64 \<Rightarrow> place \<Rightarrow> uchar list \<Rightarrow> place \<Rightarrow> memory \<Rightarrow> memory \<Rightarrow> bool" where
  "delivered pt dst bs d m m' \<longleftrightarrow>
     (case dst of
        User va \<Rightarrow> uaddr m' pt = uaddr m pt \<and>
          (\<forall>x. umem m' pt x = (if unat (x - va) < length bs then Some (bs ! unat (x - va)) else umem m pt x)) \<and>
          (\<forall>y. y \<notin> ran (uaddr m pt) \<longrightarrow> m' y = m y)
      | Kern pa \<Rightarrow> m' = store_bytes m pa bs
      | Local i v \<Rightarrow> m' = m \<and> var_bytes d = overwrite v i bs)"

text \<open>The destination is a user address and the byte \<open>n\<close> past it is not mapped.\<close>

definition faults :: "place \<Rightarrow> nat \<Rightarrow> 'a proc_state_scheme \<Rightarrow> bool" where
  "faults dst n s \<longleftrightarrow> (\<exists>va. dst = User va \<and> umem (mem s) (user_pt s) (va + of_nat n) = None)"

fun stored :: "place \<Rightarrow> uchar list \<Rightarrow> place" where
  "stored (Local i v) bs = Local i (overwrite v i bs)"
| "stored d bs = d"

lemma delivered_Nil [simp]: "delivered pt dst [] dst m m"
  by (simp add: delivered_def store_bytes_def split: place.split)

lemma delivered_nothing: "delivered pt dst [] d m m' \<Longrightarrow> m' = m"
proof (cases dst)
  case (User va)
  assume "delivered pt dst [] d m m'"
  then have u: "uaddr m' pt = uaddr m pt" "\<And>x. umem m' pt x = umem m pt x" "\<And>y. y \<notin> ran (uaddr m pt) \<Longrightarrow> m' y = m y"
    using User by (simp_all add: delivered_def)
  have "m' y = m y" for y
  proof (cases "y \<in> ran (uaddr m pt)")
    case True
    then obtain x where "uaddr m pt x = Some y" by (auto simp: ran_def)
    then show ?thesis using u(1) u(2)[of x] by (simp add: umem_def)
  qed (rule u(3))
  then show ?thesis by blast
qed (simp_all add: delivered_def store_bytes_def)

lemma stored_Nil [simp]: "stored dst [] = dst"
  by (cases dst) simp_all

lemma overwrite_append:
  assumes "i + length bs + length cs \<le> length v"
  shows "overwrite (overwrite v i bs) (i + length bs) cs = overwrite v i (bs @ cs)"
  using assms by (intro nth_equalityI) (auto simp: nth_overwrite nth_append)

lemma delivered_append:
  assumes 1: "delivered pt dst bs (stored dst bs) m m1" and 2: "delivered pt (advance (length bs) (stored dst bs)) cs d m1 m2"
    and len: "length bs + length cs < 2 ^ 64" and room: "\<And>i v. dst = Local i v \<Longrightarrow> i + length bs + length cs \<le> length v"
  shows "delivered pt dst (bs @ cs) d m m2"
proof (cases dst)
  case (User va)
  note adj = adjacent[OF len, of _ va]
  have "umem m2 pt x = (if unat (x - va) < length (bs @ cs) then Some ((bs @ cs) ! unat (x - va)) else umem m pt x)" for x
    using 1 2 User adj[of x] by (cases "unat (x - va) < length bs") (auto simp: delivered_def nth_append)
  then show ?thesis using 1 2 User by (simp add: delivered_def)
next
  case (Kern pa)
  note adj = adjacent[OF len, of _ pa]
  have "store_bytes (store_bytes m pa bs) (pa + of_nat (length bs)) cs x = store_bytes m pa (bs @ cs) x" for x
    using adj[of x] by (cases "unat (x - pa) < length bs") (auto simp: store_bytes_def nth_append)
  then have "store_bytes (store_bytes m pa bs) (pa + of_nat (length bs)) cs = store_bytes m pa (bs @ cs)" by blast
  then show ?thesis using 1 2 Kern by (simp add: delivered_def)
next
  case (Local i v)
  then show ?thesis using 1 2 room overwrite_append[of i bs cs v] by (simp add: delivered_def)
qed

section \<open>either_copyout\<close>

lemma pt_ok_cong: "mem s' = mem s \<Longrightarrow> freelist s' = freelist s \<Longrightarrow> kend s' = kend s \<Longrightarrow> pt_ok s' F pt = pt_ok s F pt"
  by (simp add: pt_ok_def free_pages_def is_page_def)

lemma either_copyout_delivers:
  assumes ok: "dst_ok F dst (length bs) s" and len: "length bs < 2 ^ 64"
  shows "\<exists>r n m'. either_copyout dst bs s = Ret (r, stored dst (take n bs), s\<lparr>mem := m'\<rparr>) \<and> n \<le> length bs \<and>
     delivered (user_pt s) dst (take n bs) (stored dst (take n bs)) (mem s) m' \<and>
     (r = 0 \<and> n = length bs \<or> r = - 1 \<and> n < length bs \<and> faults dst n s)"
proof (cases dst)
  case (User va)
  then have u: "myproc s \<noteq> None" "pt_ok s F (user_pt s)" "user_ok (mem s) F (user_pt s)" using ok by (simp_all add: dst_ok_def)
  from copyout_spec[OF u(2,3) len, of va] obtain r m' n where
    c: "copyout (user_pt s) va bs s = Ret (r, s\<lparr>mem := m'\<rparr>)"
      "\<forall>x. umem m' (user_pt s) x = (if unat (x - va) < n then Some (bs ! unat (x - va)) else umem (mem s) (user_pt s) x)"
      "\<forall>y. y \<notin> ran (uaddr (mem s) (user_pt s)) \<longrightarrow> m' y = mem s y"
      "r = 0 \<and> n = length bs \<or> r = - 1 \<and> n < length bs \<and> umem (mem s) (user_pt s) (va + of_nat n) = None" by blast
  have "uaddr m' (user_pt s) = uaddr (mem s) (user_pt s)" by (rule user_frame(2)[OF u(2,3)]) (use c(3) in blast)
  moreover have "either_copyout dst bs s = Ret (r, dst, s\<lparr>mem := m'\<rparr>)"
    using c(1) u(1) User by (auto simp: either_copyout_def user_pt_def)
  ultimately show ?thesis using c(2-4) User
    by (intro exI[of _ r] exI[of _ n] exI[of _ m']) (auto simp: delivered_def faults_def)
next
  case (Kern pa)
  then show ?thesis by (intro exI[of _ 0] exI[of _ "length bs"] exI) (simp add: either_copyout_def delivered_def)
next
  case (Local i v)
  then show ?thesis using ok
    by (intro exI[of _ 0] exI[of _ "length bs"] exI[of _ "mem s"]) (simp add: either_copyout_def delivered_def dst_ok_def)
qed

text \<open>The destination after a delivery is in order, and faults where it did.\<close>

lemma dst_ok_advance:
  assumes ok: "dst_ok F dst (length bs + n) s" and dl: "delivered (user_pt s) dst bs (stored dst bs) (mem s) m'"
  shows "dst_ok F (advance (length bs) (stored dst bs)) n (s\<lparr>mem := m'\<rparr>)"
    "faults (advance (length bs) (stored dst bs)) k (s\<lparr>mem := m'\<rparr>) \<Longrightarrow> faults dst (length bs + k) s"
proof -
  have up: "user_pt (s\<lparr>mem := m'\<rparr>) = user_pt s" by (simp add: user_pt_def myproc_def)
  show "dst_ok F (advance (length bs) (stored dst bs)) n (s\<lparr>mem := m'\<rparr>)"
  proof (cases dst)
    case (User va)
    then have u: "myproc s \<noteq> None" "pt_ok s F (user_pt s)" "user_ok (mem s) F (user_pt s)" using ok by (simp_all add: dst_ok_def)
    have fr: "\<And>y. y \<notin> ran (uaddr (mem s) (user_pt s)) \<Longrightarrow> m' y = mem s y" and ua: "uaddr m' (user_pt s) = uaddr (mem s) (user_pt s)"
      using dl User by (simp_all add: delivered_def)
    have "m' x = mem s x" if "t \<in> nodes (mem s) (user_pt s)" "x \<in> span t 4096" for t x
      using user_okD(2)[OF u(3), of _ x t] that by (intro fr) (auto simp: ran_def)
    then have "nodes m' (user_pt s) = nodes (mem s) (user_pt s)" using tree_frame(3)[of "mem s" "user_pt s" m'] by blast
    then have "user_ok m' F (user_pt s)" using u(3) ua by (simp add: user_ok_def)
    then show ?thesis using u(1) User up user_frame(1)[OF u(2,3) fr] by (simp add: dst_ok_def myproc_def)
  qed (use ok in \<open>simp_all add: dst_ok_def\<close>)
  assume f: "faults (advance (length bs) (stored dst bs)) k (s\<lparr>mem := m'\<rparr>)"
  then obtain va where va: "dst = User va" by (cases dst) (auto simp: faults_def)
  then have "uaddr m' (user_pt s) = uaddr (mem s) (user_pt s)" using dl by (simp add: delivered_def)
  then show "faults dst (length bs + k) s" using f va up by (simp add: faults_def umem_def add.assoc)
qed

lemma dst_ok_cong:
  assumes "mem s' = mem s" "freelist s' = freelist s" "kend s' = kend s" "cur s' = cur s" "user_pt s' = user_pt s"
  shows "dst_ok F dst n s' = dst_ok F dst n s" "faults dst n s' = faults dst n s"
  using assms pt_ok_cong[OF assms(1-3)] by (simp_all add: dst_ok_def faults_def myproc_def split: place.split)

section \<open>An example\<close>

text \<open>A process whose one page is at address 0.\<close>

definition ex_proc :: proc where
  "ex_proc = \<lparr>p_state = RUNNING, p_chan = None, p_killed = 0, p_xstate = 0, p_pid = 1, p_parent = None,
     p_kstack = KSTACK 0, p_sz = 4096, p_pagetable = 0x80001000, p_trapframe = 0,
     p_context = \<lparr>ctx_ra = 0, ctx_sp = 0, ctx_s = []\<rparr>, p_ofile = replicate 16 None, p_cwd = None, p_name = [0]\<rparr>"

lemma ex_user_mapped: "unat va < 4096 \<Longrightarrow> umem (mem ex_user) 0x80001000 va \<noteq> None"
  by (simp add: umem_def ex_user_ok(3))

lemma ex_dst_ok:
  assumes "mem s = mem ex_user" "freelist s = freelist ex_user" "kend s = kend ex_user" "cur s = Some 0" "procs s ! 0 = ex_proc"
  shows "user_pt s = 0x80001000" "dst_ok [] (User va) n s" "unat (va + of_nat k) < 4096 \<Longrightarrow> \<not> faults (User va) k s"
proof -
  show u: "user_pt s = 0x80001000" using assms(4,5) by (simp add: user_pt_def myproc_def ex_proc_def)
  show "dst_ok [] (User va) n s" using ex_user_ok(1,4) pt_ok_cong[OF assms(1-3)] assms u by (simp add: dst_ok_def myproc_def)
  show "unat (va + of_nat k) < 4096 \<Longrightarrow> \<not> faults (User va) k s" using ex_user_mapped assms(1) u by (simp add: faults_def)
qed

end
