(* ===== verification/Console_Laws.thy ===== *)
theory Console_Laws
  imports Console Copy_Laws
begin

text \<open>
  The uart's transmit buffer is a queue, and the console's input buffer a line editor: the bytes
  between the read and the write index are the lines committed to readers, those between the write
  and the edit index the line being typed.
\<close>

section \<open>The transmit queue\<close>

definition uart_inv :: "'a dev_state_scheme \<Rightarrow> bool" where
  "uart_inv s \<longleftrightarrow> length (u_buf s) = UART_TX_BUF_SIZE \<and> unat (u_w s - u_r s) \<le> UART_TX_BUF_SIZE"

definition uart_items :: "'a dev_state_scheme \<Rightarrow> uchar list" where
  "uart_items s = ring_items (u_buf s) (u_r s) (u_w s)"

definition uart_put :: "uchar \<Rightarrow> 'a dev_state_scheme \<Rightarrow> 'a dev_state_scheme" where
  "uart_put c s = s\<lparr>u_buf := ring_put c (u_buf s) (u_w s), u_w := u_w s + 1\<rparr>"

definition uart_get :: "'a dev_state_scheme \<Rightarrow> uchar \<times> 'a dev_state_scheme" where
  "uart_get s = (ring_get (u_buf s) (u_r s), s\<lparr>u_r := u_r s + 1\<rparr>)"

interpretation uartq: byte_fifo uart_items UART_TX_BUF_SIZE uart_put uart_get uart_inv
proof
  fix s :: "'a dev_state_scheme" and x
  assume inv: "uart_inv s"
  show "length (uart_items s) \<le> UART_TX_BUF_SIZE" using inv by (simp add: uart_items_def uart_inv_def)
  show "uart_inv (uart_put x s) \<and> uart_items (uart_put x s) = uart_items s @ [x]" if "length (uart_items s) < UART_TX_BUF_SIZE"
  proof -
    have r: "unat (u_w s - u_r s) < 32" using that by (simp add: uart_items_def)
    then have "unat (u_w s + 1 - u_r s) = Suc (unat (u_w s - u_r s))" by (intro unat_step) simp
    then show ?thesis
      using inv r ring_items_put[of "u_buf s" "u_w s" "u_r s" x]
      by (simp add: uart_inv_def uart_items_def uart_put_def)
  qed
  show "uart_inv (snd (uart_get s)) \<and> uart_items s = fst (uart_get s) # uart_items (snd (uart_get s))" if "uart_items s \<noteq> []"
  proof -
    have ne: "u_r s \<noteq> u_w s" using that by (auto simp: uart_items_def)
    have e: "uart_items s = fst (uart_get s) # uart_items (snd (uart_get s))"
      using ring_items_get[OF ne, of "u_buf s"] by (simp add: uart_items_def uart_get_def)
    then have "length (uart_items s) = Suc (length (uart_items (snd (uart_get s))))" by simp
    then show ?thesis using e inv by (simp add: uart_inv_def uart_items_def uart_get_def)
  qed
qed

lemma uart_inv_frame:
  "uart_inv (s\<lparr>u_idle := i, u_out := o'\<rparr>) = uart_inv s" "uart_items (s\<lparr>u_idle := i, u_out := o'\<rparr>) = uart_items s"
  "uart_inv (wakeup ch s) = uart_inv s" "uart_items (wakeup ch s) = uart_items s"
  by (simp_all add: uart_inv_def uart_items_def)

lemma uartstart_queue:
  "uart_inv s \<Longrightarrow> uart_inv (uartstart s) \<and> u_out (uartstart s) @ uart_items (uartstart s) = u_out s @ uart_items s \<and>
   panicked (uartstart s) = panicked s"
proof (induction s rule: uartstart.induct)
  case (1 s)
  show ?case
  proof (cases "u_w s = u_r s \<or> u_idle s = [] \<or> \<not> hd (u_idle s)")
    case True
    then show ?thesis using 1(2) by (subst (1 2 3 4) uartstart.simps) (auto simp: uart_inv_def uart_items_def split: list.split)
  next
    case False
    then obtain rest where idle: "u_idle s = True # rest" by (cases "u_idle s") auto
    let ?t = "wakeup ChUart (s\<lparr>u_idle := rest, u_r := u_r s + 1\<rparr>)"
    let ?s = "?t\<lparr>u_out := u_out ?t @ [ring_get (u_buf s) (u_r s)]\<rparr>"
    have st: "uartstart s = uartstart ?s" using False idle by (subst uartstart.simps) (simp add: Let_def)
    have "uart_items s \<noteq> []" using False by (auto simp: uart_items_def ring_items_get)
    from uartq.get_law[OF 1(2) this] have g: "uart_inv ?s" "u_out ?s @ uart_items ?s = u_out s @ uart_items s"
      by (auto simp: uart_get_def uart_inv_def uart_items_def)
    have "uart_inv (uartstart ?s) \<and> u_out (uartstart ?s) @ uart_items (uartstart ?s) = u_out ?s @ uart_items ?s \<and>
        panicked (uartstart ?s) = panicked ?s"
      by (rule 1(1)[OF _ idle _ refl refl g(1)]) (use False in simp_all)
    then show ?thesis using st g(2) by simp
  qed
qed

text \<open>
  C27. The uart sends what it is given, in order: whatever \<open>uartputc\<close> and \<open>uartstart\<close> do between them,
  the bytes sent followed by the bytes waiting are the bytes sent and waiting before followed by the
  new one; \<open>uartputc\<close> waits exactly when all 32 bytes of the buffer are in use.
\<close>

theorem uartputc_sends_in_order:
  assumes "uart_inv s" "\<not> panicked s"
  shows "uartputc c s = Sleeps \<and> length (uart_items s) = UART_TX_BUF_SIZE \<or>
    (\<exists>s'. uartputc c s = Ret s' \<and> uart_inv s' \<and> u_out s' @ uart_items s' = u_out s @ uart_items s @ [c])"
proof (cases "u_w s = u_r s + of_nat UART_TX_BUF_SIZE")
  case True
  then show ?thesis using assms by (simp add: uartputc_def uart_items_def)
next
  case False
  have "unat (u_w s - u_r s) \<noteq> 32"
  proof
    assume "unat (u_w s - u_r s) = 32"
    then have "u_w s - u_r s = 32" by (metis of_nat_numeral of_nat_unat ucast_id)
    then show False using False by (simp add: diff_eq_eq add.commute)
  qed
  then have "length (uart_items s) < 32" using assms(1) by (simp add: uart_inv_def uart_items_def)
  from uartq.put_law[OF assms(1) this, of c] uartstart_queue[of "uart_put c s"]
  show ?thesis using False assms(2) by (auto simp: uartputc_def uart_put_def)
qed

section \<open>Printing waits for the transmitter\<close>

definition idle_count :: "'a dev_state_scheme \<Rightarrow> nat" where
  "idle_count s = length (filter id (u_idle s))"

text \<open>\<open>printed k s s'\<close>: from \<open>s\<close> to \<open>s'\<close> at most \<open>k\<close> characters have been sent, and nothing else has happened.\<close>

definition printed :: "nat \<Rightarrow> 'a dev_state_scheme \<Rightarrow> 'a dev_state_scheme \<Rightarrow> bool" where
  "printed k s s' \<longleftrightarrow> idle_count s \<le> idle_count s' + k \<and> (\<exists>i o'. s' = s\<lparr>u_idle := i, u_out := o'\<rparr>)"

lemma printedI: "idle_count s \<le> length (filter id i) + k \<Longrightarrow> printed k s (s\<lparr>u_idle := i, u_out := o'\<rparr>)"
  unfolding printed_def by (intro conjI exI[of _ i] exI[of _ o']) (simp_all add: idle_count_def)

lemma printedE:
  assumes "printed k s s'"
  obtains i o' where "s' = s\<lparr>u_idle := i, u_out := o'\<rparr>" "idle_count s \<le> length (filter id i) + k"
  using assms by (auto simp: printed_def idle_count_def)

lemma printed_trans: "printed k s t \<Longrightarrow> printed l t u \<Longrightarrow> printed (k + l) s u"
  by (elim printedE) (auto intro!: printedI simp: idle_count_def)

lemma filter_dropWhile_Not: "filter id (dropWhile Not xs) = filter id xs"
  by (induction xs) auto

lemma uartputc_sync_prints:
  assumes "\<not> panicked s" "0 < idle_count s"
  shows "\<exists>s'. uartputc_sync c s = Ret s' \<and> printed 1 s s'"
proof (cases "dropWhile Not (u_idle s)")
  case Nil
  then have "filter id (u_idle s) = []" using filter_dropWhile_Not[of "u_idle s"] by simp
  then show ?thesis using assms(2) by (simp add: idle_count_def)
next
  case (Cons b rest)
  have "idle_count s \<le> length (filter id rest) + 1"
    using filter_dropWhile_Not[of "u_idle s"] Cons unfolding idle_count_def by (auto split: if_splits simp flip: filter_dropWhile_Not[of "u_idle s"])
  then show ?thesis using assms(1) Cons by (auto simp: uartputc_sync_def intro: printedI)
qed

lemma consputc_prints:
  assumes "\<not> panicked s" "3 \<le> idle_count s"
  shows "\<exists>s'. consputc c s = Ret s' \<and> printed 3 s s'"
proof -
  have np: "\<not> panicked t \<and> 3 - k \<le> idle_count t" if "printed k s t" for t k
    using that assms by (elim printedE) (auto simp: idle_count_def)
  from uartputc_sync_prints[OF assms(1)] assms(2) have p1: "\<exists>t. uartputc_sync x s = Ret t \<and> printed 1 s t" for x by simp
  have p2: "\<exists>u. uartputc_sync x t = Ret u \<and> printed (k + 1) s u" if "printed k s t" "k < 3" for x t k
  proof -
    have "0 < idle_count t" "\<not> panicked t" using np[OF that(1)] that(2) by auto
    from uartputc_sync_prints[OF this(2,1), of x] printed_trans[OF that(1)] show ?thesis by blast
  qed
  have w: "printed k s t \<Longrightarrow> k \<le> 3 \<Longrightarrow> printed 3 s t" for k t by (auto simp: printed_def)
  show ?thesis
  proof (cases "c = BACKSPACE")
    case True
    from p1[where x = 8] obtain t where t: "uartputc_sync 8 s = Ret t" "printed 1 s t" by blast
    from p2[OF t(2), where x = "0x20"] obtain u where u: "uartputc_sync 0x20 t = Ret u" "printed 2 s u" by (auto simp: numeral_2_eq_2)
    from p2[OF u(2), where x = 8] obtain v where v: "uartputc_sync 8 u = Ret v" "printed 3 s v" by (auto simp: numeral_eq_Suc)
    show ?thesis using True t u v by (simp add: consputc_def)
  next
    case False
    from p1[where x = "word_of_int c"] w show ?thesis using False by (fastforce simp: consputc_def)
  qed
qed

section \<open>Line editing\<close>

definition cons_lines :: "'a dev_state_scheme \<Rightarrow> uchar list" where
  "cons_lines s = ring_items (cons_buf s) (cons_r s) (cons_w s)"

definition cons_edit :: "'a dev_state_scheme \<Rightarrow> uchar list" where
  "cons_edit s = ring_items (cons_buf s) (cons_w s) (cons_e s)"

definition cons_ok :: "'a dev_state_scheme \<Rightarrow> bool" where
  "cons_ok s \<longleftrightarrow> length (cons_buf s) = INPUT_BUF_SIZE \<and>
     length (cons_lines s) + length (cons_edit s) \<le> INPUT_BUF_SIZE \<and>
     unat (cons_e s - cons_r s) = length (cons_lines s) + length (cons_edit s) \<and> 0x0a \<notin> set (cons_edit s)"

lemma cons_printed:
  assumes "printed k s s'"
  shows "cons_lines s' = cons_lines s" "cons_edit s' = cons_edit s" "cons_ok s' = cons_ok s"
    "cons_e s' = cons_e s" "cons_w s' = cons_w s" "cons_r s' = cons_r s" "cons_buf s' = cons_buf s" "panicked s' = panicked s"
  using assms by (auto elim!: printedE simp: cons_lines_def cons_edit_def cons_ok_def)

text \<open>What a key does to the committed lines and the line being typed.\<close>

definition key :: "int \<Rightarrow> uchar list \<times> uchar list \<Rightarrow> uchar list \<times> uchar list" where
  "key c = (\<lambda>(L, E).
     if c = 0x15 then (L, [])
     else if c = 8 \<or> c = 0x7f then (L, butlast E)
     else if c \<noteq> 0 \<and> length L + length E < INPUT_BUF_SIZE
     then let c = (if c = 0x0d then 0x0a else c); E = E @ [word_of_int c]
          in if c = 0x0a \<or> c = 4 \<or> length L + length E = INPUT_BUF_SIZE then (L @ E, []) else (L, E)
     else (L, E))"

lemma cons_erase:
  assumes ok: "cons_ok s" and ne: "cons_e s \<noteq> cons_w s"
  defines "s' \<equiv> s\<lparr>cons_e := cons_e s - 1\<rparr>"
  shows "cons_ok s'" "cons_lines s' = cons_lines s" "cons_edit s = cons_edit s' @ [ring_get (cons_buf s) (cons_e s - 1)]"
proof -
  show l: "cons_lines s' = cons_lines s" by (simp add: s'_def cons_lines_def)
  show e: "cons_edit s = cons_edit s' @ [ring_get (cons_buf s) (cons_e s - 1)]"
    using ring_items_back[of "cons_w s" "cons_e s" "cons_buf s"] ne by (simp add: s'_def cons_edit_def)
  have "cons_e s \<noteq> cons_r s" using ok ne by (auto simp: cons_ok_def cons_edit_def unat_eq_0)
  from unat_back[OF this[symmetric]] have "Suc (unat (cons_e s' - cons_r s')) = unat (cons_e s - cons_r s)" by (simp add: s'_def)
  moreover have "length (cons_edit s) = Suc (length (cons_edit s'))" using e by simp
  ultimately show "cons_ok s'" using ok l e by (simp add: cons_ok_def) (simp add: s'_def)
qed

lemma kill_line_clears:
  "cons_ok s \<Longrightarrow> \<not> panicked s \<Longrightarrow> 3 * k \<le> idle_count s \<Longrightarrow> length (cons_edit s) = k \<Longrightarrow>
   \<exists>s'. kill_line k s = Ret s' \<and> cons_ok s' \<and> cons_lines s' = cons_lines s \<and> cons_edit s' = []"
proof (induction k arbitrary: s)
  case (Suc k)
  have ne: "cons_e s \<noteq> cons_w s" using Suc.prems(4) by (auto simp: cons_edit_def)
  note er = cons_erase[OF Suc.prems(1) ne]
  let ?s = "s\<lparr>cons_e := cons_e s - 1\<rparr>"
  have "ring_get (cons_buf s) (cons_e s - 1) \<in> set (cons_edit s)" using er(3) by simp
  then have nl: "\<not> at_line_start s" using Suc.prems(1) ne by (auto simp: at_line_start_def cons_ok_def)
  have i: "idle_count ?s = idle_count s" by (simp add: idle_count_def)
  from consputc_prints[of ?s BACKSPACE] Suc.prems(2,3) i obtain t where
    t: "consputc BACKSPACE ?s = Ret t" "printed 3 ?s t" by auto
  note c = cons_printed[OF t(2)]
  have "3 * k \<le> idle_count t" using t(2) Suc.prems(3) i by (simp add: printed_def)
  moreover have "length (cons_edit t) = k" using c(2) er(3) Suc.prems(4) by simp
  ultimately obtain s' where "kill_line k t = Ret s'" "cons_ok s'" "cons_lines s' = cons_lines t" "cons_edit s' = []"
    using Suc.IH[of t] c(3,8) er(1) Suc.prems(2) by auto
  then show ?case using nl t(1) c(1) er(2) by simp
qed simp

lemma cons_insert:
  assumes ok: "cons_ok s" and room: "length (cons_lines s) + length (cons_edit s) < INPUT_BUF_SIZE"
    and s'_def: "s' = s\<lparr>cons_buf := ring_put c (cons_buf s) (cons_e s), cons_e := cons_e s + 1\<rparr>"
  shows "cons_lines s' = cons_lines s" "cons_edit s' = cons_edit s @ [c]"
    "unat (cons_e s' - cons_r s') = Suc (length (cons_lines s) + length (cons_edit s))"
    "ring_items (cons_buf s') (cons_r s') (cons_e s') = cons_lines s @ cons_edit s @ [c]"
proof -
  let ?b = "ring_put c (cons_buf s) (cons_e s)"
  have d: "length (cons_buf s) dvd 2 ^ LENGTH(32)" "length (cons_buf s) < 2 ^ LENGTH(32)" "length (cons_buf s) = 128"
    using ok by (simp_all add: cons_ok_def)
  have er: "unat (cons_e s - cons_r s) < 128" "unat (cons_e s - cons_w s) < 128"
    using ok room by (simp_all add: cons_ok_def cons_edit_def)
  have sum: "unat (cons_e s - cons_r s) = unat (cons_w s - cons_r s) + unat (cons_e s - cons_w s)"
    using ok by (simp add: cons_ok_def cons_lines_def cons_edit_def)
  have e1: "unat (cons_e s + 1 - cons_r s) = Suc (unat (cons_e s - cons_r s))"
    "unat (cons_e s + 1 - cons_w s) = Suc (unat (cons_e s - cons_w s))"
    using er by (auto intro!: unat_step)
  show "cons_edit s' = cons_edit s @ [c]"
    using ring_items_put[of "cons_buf s" "cons_e s" "cons_w s" c] d er by (simp add: cons_edit_def s'_def)
  moreover have all: "ring_items ?b (cons_r s) (cons_e s + 1) = ring_items (cons_buf s) (cons_r s) (cons_e s) @ [c]"
    using ring_items_put[of "cons_buf s" "cons_e s" "cons_r s" c] d er by simp
  moreover have "ring_items (cons_buf s) (cons_r s) (cons_e s) = cons_lines s @ cons_edit s"
    unfolding cons_lines_def cons_edit_def by (rule ring_items_prefix[OF sum])
  moreover have "ring_items ?b (cons_r s) (cons_e s + 1) = cons_lines s' @ cons_edit s'"
    using ring_items_prefix[of "cons_e s + 1" "cons_r s" "cons_w s" ?b] e1 sum by (simp add: cons_lines_def cons_edit_def s'_def)
  ultimately show "cons_lines s' = cons_lines s" "ring_items (cons_buf s') (cons_r s') (cons_e s') = cons_lines s @ cons_edit s @ [c]"
    by (simp_all add: s'_def)
  show "unat (cons_e s' - cons_r s') = Suc (length (cons_lines s) + length (cons_edit s))"
    using e1(1) ok by (simp add: s'_def cons_ok_def)
qed

text \<open>
  C18. The console's input handler is a line editor. For every key but control-P, and provided the
  transmitter becomes idle often enough to echo, \<open>consoleintr\<close> returns, keeps the indices of the
  buffer in order, and does to the committed lines and to the line being typed what the key means:
  control-U erases the line, backspace and delete its last character if there is one, newline and
  control-D (and a full buffer) commit it, any other key is appended unless 128 bytes are buffered.
\<close>

theorem consoleintr_edits:
  assumes ok: "cons_ok s" and np: "\<not> panicked s" and idle: "3 * INPUT_BUF_SIZE \<le> idle_count s"
    and c: "0 \<le> c" "c < 256" "c \<noteq> 0x10"
  shows "\<exists>s'. consoleintr c s = Ret s' \<and> cons_ok s' \<and>
    (cons_lines s', cons_edit s') = key c (cons_lines s, cons_edit s)"
proof -
  have len: "unat (cons_e s - cons_w s) = length (cons_edit s)" "unat (cons_e s - cons_r s) = length (cons_lines s) + length (cons_edit s)"
    using ok by (simp_all add: cons_edit_def cons_ok_def)
  consider (kill) "c = 0x15" | (erase) "c = 8 \<or> c = 0x7f" | (add) "c \<noteq> 0x15" "\<not> (c = 8 \<or> c = 0x7f)" "c \<noteq> 0" "length (cons_lines s) + length (cons_edit s) < 128"
    | (ignore) "c \<noteq> 0x15" "\<not> (c = 8 \<or> c = 0x7f)" "\<not> (c \<noteq> 0 \<and> length (cons_lines s) + length (cons_edit s) < 128)" by blast
  then show ?thesis
  proof cases
    case kill
    have "3 * length (cons_edit s) \<le> idle_count s" using ok idle by (simp add: cons_ok_def)
    from kill_line_clears[OF ok np this refl] kill show ?thesis by (auto simp: consoleintr_def key_def len)
  next
    case erase
    show ?thesis
    proof (cases "cons_e s = cons_w s")
      case True
      then have "cons_edit s = []" by (simp add: cons_edit_def)
      then show ?thesis using erase True ok by (auto simp: consoleintr_def key_def)
    next
      case False
      note er = cons_erase[OF ok False]
      from consputc_prints[of "s\<lparr>cons_e := cons_e s - 1\<rparr>" BACKSPACE] np idle obtain t where
        t: "consputc BACKSPACE (s\<lparr>cons_e := cons_e s - 1\<rparr>) = Ret t" "printed 3 (s\<lparr>cons_e := cons_e s - 1\<rparr>) t"
        by (auto simp: idle_count_def)
      show ?thesis using erase False t(1) cons_printed[OF t(2)] er by (auto simp: consoleintr_def key_def)
    qed
  next
    case add
    define c' where "c' = (if c = 0x0d then 0x0a else c)"
    from consputc_prints[OF np, of c'] idle obtain t where t: "consputc c' s = Ret t" "printed 3 s t" by auto
    note cp = cons_printed[OF t(2)]
    have okt: "cons_ok t" and rm: "length (cons_lines t) + length (cons_edit t) < INPUT_BUF_SIZE" using cp ok add(4) by simp_all
    let ?u = "t\<lparr>cons_buf := ring_put (word_of_int c') (cons_buf t) (cons_e t), cons_e := cons_e t + 1\<rparr>"
    note ins = cons_insert[OF okt rm refl, of "word_of_int c'", unfolded cp(1,2)]
    let ?commit = "c' = 0x0a \<or> c' = 4 \<or> Suc (length (cons_lines s) + length (cons_edit s)) = INPUT_BUF_SIZE"
    have eq: "consoleintr c s = (if ?commit then Ret (wakeup ChCons (?u\<lparr>cons_w := cons_e ?u\<rparr>)) else Ret ?u)"
      using add c len t(1) ins(3) unfolding consoleintr_def c'_def[symmetric] by (simp add: Let_def)
    have k: "key c (cons_lines s, cons_edit s) =
        (if ?commit then (cons_lines s @ cons_edit s @ [word_of_int c'], []) else (cons_lines s, cons_edit s @ [word_of_int c']))"
      using add by (simp add: key_def Let_def c'_def)
    show ?thesis
    proof (cases ?commit)
      case True
      let ?v = "wakeup ChCons (?u\<lparr>cons_w := cons_e ?u\<rparr>)"
      have v: "cons_lines ?v = cons_lines s @ cons_edit s @ [word_of_int c']" "cons_edit ?v = []"
        using ins(4) by (simp_all add: cons_lines_def cons_edit_def)
      have "cons_ok ?v" unfolding cons_ok_def v using okt ins(3) add(4) by (simp add: cons_ok_def)
      then show ?thesis using eq k True v by simp
    next
      case False
      have "c' < 256" "0 \<le> c'" using c by (auto simp: c'_def)
      then have "(word_of_int c' :: uchar) \<noteq> 0x0a"
        using False by (auto simp: word_uint_eq_iff uint_word_of_int)
      then have "cons_ok ?u" unfolding cons_ok_def ins using okt ok ins(3) add(4) by (simp add: cons_ok_def)
      then show ?thesis using eq k False ins(1,2) by simp
    qed
  next
    case ignore
    then show ?thesis using ok c len by (auto simp: consoleintr_def key_def)
  qed
qed

section \<open>Reading a line\<close>

text \<open>One byte of the input, copied out or lost.\<close>

lemma consoleread_byte:
  assumes l: "cons_lines s = c # cs" and c: "c \<noteq> 4" and ok: "dst_ok F dst (Suc k) s"
  obtains (lost) s' where "consoleread_loop target dst (Suc n) s = Ret (Done (int (target - Suc n)), dst, s')" "mem s' = mem s"
      "cons_lines s' = cs" "cons_edit s' = cons_edit s" "faults dst 0 s"
  | (got) s' d where "d = advance 1 (stored dst [c])"
      "consoleread_loop target dst (Suc n) s =
         (if c = 0x0a then Ret (Done (int (target - n)), d, s') else consoleread_loop target d n s')"
      "delivered (user_pt s) dst [c] (stored dst [c]) (mem s) (mem s')" "cons_lines s' = cs" "cons_edit s' = cons_edit s"
      "dst_ok F d k s'" "user_pt s' = user_pt s" "\<And>j. faults d j s' \<Longrightarrow> faults dst (Suc j) s"
proof -
  have ne: "cons_r s \<noteq> cons_w s" using l by (auto simp: cons_lines_def)
  have g: "ring_get (cons_buf s) (cons_r s) = c" "ring_items (cons_buf s) (cons_r s + 1) (cons_w s) = cs"
    using ring_items_get[OF ne, of "cons_buf s"] l by (simp_all add: cons_lines_def)
  let ?s = "s\<lparr>cons_r := cons_r s + 1\<rparr>"
  have up: "user_pt ?s = user_pt s" by (simp add: user_pt_def myproc_def)
  note cg = dst_ok_cong[where s = s and s' = ?s, simplified up, simplified]
  have ok1: "dst_ok F dst (length [c]) ?s" using ok by (simp add: cg) (simp add: dst_ok_def split: place.splits)
  have ok2: "dst_ok F dst (length [c] + k) ?s" using ok by (simp add: cg)
  from either_copyout_delivers[OF ok1] obtain r j m' where
    e: "either_copyout dst [c] ?s = Ret (r, stored dst (take j [c]), ?s\<lparr>mem := m'\<rparr>)"
      "delivered (user_pt s) dst (take j [c]) (stored dst (take j [c])) (mem s) m'"
      "r = 0 \<and> j = 1 \<or> r = - 1 \<and> j = 0 \<and> faults dst 0 s" by (auto simp: up cg)
  have step: "consoleread_loop target dst (Suc n) s = bindo (either_copyout dst [c] ?s) (\<lambda>(r, dst, s).
      if r = - 1 then Ret (Done (int (target - Suc n)), dst, s)
      else let dst = advance 1 dst
           in if c = 0x0a then Ret (Done (int (target - n)), dst, s) else consoleread_loop target dst n s)"
    using ne c g(1) by (simp add: Let_def)
  from e(3) show ?thesis
  proof
    assume f: "r = - 1 \<and> j = 0 \<and> faults dst 0 s"
    then have "m' = mem s" using delivered_nothing[of "user_pt s" dst] e(2) by simp
    then show ?thesis using step e(1) f g(2)
      by (intro lost[of "?s\<lparr>mem := m'\<rparr>"]) (auto simp: cons_lines_def cons_edit_def)
  next
    assume f: "r = 0 \<and> j = 1"
    then have dl: "delivered (user_pt ?s) dst [c] (stored dst [c]) (mem ?s) m'" using e(2) up by simp
    note adv = dst_ok_advance[OF ok2 dl, simplified]
    show ?thesis
    proof (rule got[OF refl, of "?s\<lparr>mem := m'\<rparr>"])
      show "dst_ok F (advance 1 (stored dst [c])) k (?s\<lparr>mem := m'\<rparr>)" using adv(1) by simp
      show "faults dst (Suc i) s" if "faults (advance 1 (stored dst [c])) i (?s\<lparr>mem := m'\<rparr>)" for i using adv(2)[of i] that cg(2) by simp
    qed (use step e(1) f g(2) dl up in \<open>auto simp: Let_def cons_lines_def cons_edit_def user_pt_def myproc_def\<close>)
  qed
qed

lemma consoleread_loop_line:
  assumes "cons_lines s = xs @ 0x0a # rest" "0x0a \<notin> set xs" "4 \<notin> set xs" "length xs < n" "n \<le> target" "n < 2 ^ 64"
    and "dst_ok F dst (Suc (length xs)) s"
  shows "\<exists>k d s'. consoleread_loop target dst n s = Ret (Done (int (target - n + k)), d, s') \<and> k \<le> Suc (length xs) \<and>
     delivered (user_pt s) dst (take k (xs @ [0x0a])) d (mem s) (mem s') \<and> cons_edit s' = cons_edit s \<and>
     (k = Suc (length xs) \<and> cons_lines s' = rest \<or>
      k \<le> length xs \<and> faults dst k s \<and> cons_lines s' = drop (Suc k) (xs @ 0x0a # rest))"
  using assms
proof (induction xs arbitrary: n s dst)
  case Nil
  then obtain l where n: "n = Suc l" by (cases n) auto
  have l: "cons_lines s = 0x0a # rest" using Nil(1) by simp
  have nl: "(0x0a :: uchar) \<noteq> 4" by simp
  show ?case
  proof (cases rule: consoleread_byte[OF l nl Nil(7), of target l])
    case (1 s')
    then show ?thesis using n by (intro exI[of _ 0] exI[of _ dst]) auto
  next
    case (2 s' d)
    have "var_bytes d = var_bytes (stored dst [0x0a])" by (cases dst) (simp_all add: 2(1))
    then have "delivered (user_pt s) dst [0x0a] d (mem s) (mem s')" using 2(3) by (simp add: delivered_def split: place.splits)
    then show ?thesis using 2 n Nil(5) by (intro exI[of _ 1] exI[of _ d] exI[of _ s']) (auto simp: Suc_diff_Suc)
  qed
next
  case (Cons x xs)
  then obtain l where n: "n = Suc l" by (cases n) auto
  have cl: "cons_lines s = x # (xs @ 0x0a # rest)" and x: "x \<noteq> 4" "x \<noteq> 0x0a" using Cons.prems(1-3) by auto
  have dk: "dst_ok F dst (Suc (Suc (length xs))) s" using Cons.prems(7) by simp
  show ?case
  proof (cases rule: consoleread_byte[OF cl x(1) dk, of target l])
    case (1 s')
    then show ?thesis using n by (intro exI[of _ 0] exI[of _ dst]) auto
  next
    case r: (2 s1 d1)
    from Cons.IH[OF r(4) _ _ _ _ _ r(6), of l] Cons.prems n obtain k d s' where
      i: "consoleread_loop target d1 l s1 = Ret (Done (int (target - l + k)), d, s')" "k \<le> Suc (length xs)"
        "delivered (user_pt s) d1 (take k (xs @ [0x0a])) d (mem s1) (mem s')" "cons_edit s' = cons_edit s"
        "k = Suc (length xs) \<and> cons_lines s' = rest \<or>
         k \<le> length xs \<and> faults d1 k s1 \<and> cons_lines s' = drop (Suc k) (xs @ 0x0a # rest)" using r(5,7) by auto
    have "delivered (user_pt s) dst ([x] @ take k (xs @ [0x0a])) d (mem s) (mem s')"
    proof (rule delivered_append[OF r(3)])
      show "delivered (user_pt s) (advance (length [x]) (stored dst [x])) (take k (xs @ [0x0a])) d (mem s1) (mem s')" using i(3) r(1) by simp
      show "length [x] + length (take k (xs @ [0x0a])) < 2 ^ 64" using Cons.prems(4,6) by simp
      show "j + length [x] + length (take k (xs @ [0x0a])) \<le> length v" if "dst = Local j v" for j v
        using dk that by (simp add: dst_ok_def)
    qed
    moreover have "target - l + k = target - n + Suc k" using n Cons.prems(5) by simp
    ultimately show ?thesis using r(2,8) x(2) n i(1,2,4,5) by (intro exI[of _ "Suc k"] exI[of _ d] exI[of _ s']) auto
  qed
qed

text \<open>
  C26. A read from the console delivers one line: when a committed line ends within the bytes asked for,
  \<open>consoleread\<close> copies it with its newline to the destination, changes no other memory, returns its length and
  leaves the rest of the input for the next read. If it meets an address that the caller has not mapped it returns the
  count of the bytes before it, which it has copied, and the byte it could not copy is gone from the input.
\<close>

theorem consoleread_line:
  assumes "cons_lines s = xs @ 0x0a # rest" "0x0a \<notin> set xs" "4 \<notin> set xs" "length xs < nat n" "n < 2 ^ 31"
    and "dst_ok F dst (Suc (length xs)) s"
  shows "\<exists>k d s'. consoleread dst n s = Ret (Done (int k), d, s') \<and>
     delivered (user_pt s) dst (take k (xs @ [0x0a])) d (mem s) (mem s') \<and> cons_edit s' = cons_edit s \<and>
     (k = Suc (length xs) \<and> cons_lines s' = rest \<or>
      k \<le> length xs \<and> faults dst k s \<and> cons_lines s' = drop (Suc k) (xs @ 0x0a # rest))"
proof -
  have "nat n < 2 ^ 64" using assms(5) by simp
  from consoleread_loop_line[OF assms(1-4) order_refl this assms(6)] show ?thesis
    using assms(4) by (fastforce simp: consoleread_def)
qed

section \<open>An example device\<close>

definition ex_dev :: dev_state where
  "ex_dev = \<lparr>mem = (\<lambda>_. 0), freelist = 0, kend = 0x80000000, procs = [], nextpid = 1, initproc = None,
     cur = None, ticks = 0, bcache = [], disk = (\<lambda>_. []), dwrites = [],
     klog = \<lparr>l_start = 2, l_size = 30, l_outstanding = 0, l_committing = 0, l_dev = 1, lh_n = 0, lh_block = replicate 30 0\<rparr>,
     u_buf = replicate 32 0, u_w = 0, u_r = 0, u_idle = replicate 384 True, u_in = [], u_out = [], u_regs = [],
     panicked = False, cons_buf = replicate 128 0, cons_r = 0, cons_w = 0, cons_e = 0\<rparr>"

theorem uartputc_sends_in_order_witness:
  "uart_inv ex_dev \<and> \<not> panicked ex_dev \<and>
   (\<exists>s'. uartputc 65 ex_dev = Ret s' \<and> u_out s' @ uart_items s' = [65])"
proof -
  have i: "uart_inv ex_dev" "\<not> panicked ex_dev" by (simp_all add: uart_inv_def ex_dev_def)
  show ?thesis using uartputc_sends_in_order[OF i, where c = 65] i by (auto simp: uart_items_def ex_dev_def)
qed

theorem consoleintr_edits_witness:
  "cons_ok ex_dev \<and> (\<exists>s'. consoleintr 0x61 ex_dev = Ret s' \<and> cons_ok s' \<and> cons_edit s' = [0x61])"
proof -
  have i: "cons_ok ex_dev" "\<not> panicked ex_dev" "3 * INPUT_BUF_SIZE \<le> idle_count ex_dev"
    by (simp_all add: cons_ok_def cons_lines_def cons_edit_def ex_dev_def idle_count_def)
  have "cons_lines ex_dev = []" "cons_edit ex_dev = []" by (simp_all add: cons_lines_def cons_edit_def ex_dev_def)
  then show ?thesis using consoleintr_edits[OF i, where c = "0x61"] i by (auto simp: key_def)
qed

definition ex_cons :: dev_state where
  "ex_cons = ex_dev\<lparr>mem := mem ex_user, freelist := freelist ex_user, kend := kend ex_user, procs := [ex_proc], cur := Some 0,
     cons_buf := 0x68 # 0x69 # 0x0a # replicate 125 0, cons_w := 3, cons_e := 3\<rparr>"

theorem consoleread_line_witness:
  "\<exists>d s'. consoleread (User 100) 10 ex_cons = Ret (Done 3, d, s') \<and> umem (mem s') 0x80001000 100 = Some 0x68 \<and>
     umem (mem s') 0x80001000 101 = Some 0x69 \<and> umem (mem s') 0x80001000 102 = Some 0x0a \<and> cons_lines s' = []"
proof -
  have l: "cons_lines ex_cons = [0x68, 0x69] @ 0x0a # []"
    by (simp add: cons_lines_def ring_items_def ex_cons_def ex_dev_def upt_rec)
  have d: "user_pt ex_cons = 0x80001000" "dst_ok [] (User 100) (Suc (length [0x68, 0x69 :: uchar])) ex_cons"
    "\<And>k. unat (100 + of_nat k :: uint64) < 4096 \<Longrightarrow> \<not> faults (User 100) k ex_cons"
    by (rule ex_dst_ok; simp add: ex_cons_def)+
  from consoleread_line[OF l _ _ _ _ d(2), of 10] obtain k v s' where
    r: "consoleread (User 100) 10 ex_cons = Ret (Done (int k), v, s')"
      "delivered 0x80001000 (User 100) (take k [0x68, 0x69, 0x0a]) v (mem ex_cons) (mem s')"
      "k = 3 \<and> cons_lines s' = [] \<or> k \<le> 2 \<and> faults (User 100) k ex_cons" unfolding d(1) by auto
  have "k = 3" using r(3) d(3)[of k] by (auto simp: unat_word_ariths unat_of_nat)
  then show ?thesis using r by (auto simp: delivered_def)
qed

end
