(* ===== verification/Pipe_Laws.thy ===== *)
theory Pipe_Laws
  imports File Console_Laws Vm_User
begin

text \<open>
  Pipes are queues of bytes: what \<open>pipewrite\<close> adds are the writer's bytes in order, also when it has to
  stop half way because the pipe is full, and what \<open>piperead\<close> removes are the oldest bytes, which it
  writes to the reader's memory.
\<close>

section \<open>The queue of a pipe\<close>

definition pipe_inv :: "pipe \<Rightarrow> bool" where
  "pipe_inv x \<longleftrightarrow> length (pi_data x) = PIPESIZE \<and> unat (pi_nwrite x - pi_nread x) \<le> PIPESIZE"

definition pipe_items :: "pipe \<Rightarrow> uchar list" where
  "pipe_items x = ring_items (pi_data x) (pi_nread x) (pi_nwrite x)"

definition pipe_put :: "uchar \<Rightarrow> pipe \<Rightarrow> pipe" where
  "pipe_put c x = x\<lparr>pi_data := ring_put c (pi_data x) (pi_nwrite x), pi_nwrite := pi_nwrite x + 1\<rparr>"

definition pipe_get :: "pipe \<Rightarrow> uchar \<times> pipe" where
  "pipe_get x = (ring_get (pi_data x) (pi_nread x), x\<lparr>pi_nread := pi_nread x + 1\<rparr>)"

interpretation pipeq: byte_fifo pipe_items PIPESIZE pipe_put pipe_get pipe_inv
proof
  fix x c assume inv: "pipe_inv x"
  show "length (pipe_items x) \<le> PIPESIZE" using inv by (simp add: pipe_items_def pipe_inv_def)
  show "pipe_inv (pipe_put c x) \<and> pipe_items (pipe_put c x) = pipe_items x @ [c]" if "length (pipe_items x) < PIPESIZE"
  proof -
    have r: "unat (pi_nwrite x - pi_nread x) < 512" using that by (simp add: pipe_items_def)
    then have "unat (pi_nwrite x + 1 - pi_nread x) = Suc (unat (pi_nwrite x - pi_nread x))" by (intro unat_step) simp
    then show ?thesis
      using inv r ring_items_put[of "pi_data x" "pi_nwrite x" "pi_nread x" c]
      by (simp add: pipe_inv_def pipe_items_def pipe_put_def)
  qed
  show "pipe_inv (snd (pipe_get x)) \<and> pipe_items x = fst (pipe_get x) # pipe_items (snd (pipe_get x))" if "pipe_items x \<noteq> []"
  proof -
    have ne: "pi_nread x \<noteq> pi_nwrite x" using that by (auto simp: pipe_items_def)
    have e: "pipe_items x = fst (pipe_get x) # pipe_items (snd (pipe_get x))"
      using ring_items_get[OF ne, of "pi_data x"] by (simp add: pipe_items_def pipe_get_def)
    then have "length (pipe_items x) = Suc (length (pipe_items (snd (pipe_get x))))" by simp
    then show ?thesis using e inv by (simp add: pipe_inv_def pipe_items_def pipe_get_def)
  qed
qed

lemma pipe_full_iff:
  assumes "pipe_inv x"
  shows "pi_nwrite x = pi_nread x + of_nat PIPESIZE \<longleftrightarrow> length (pipe_items x) = PIPESIZE"
proof
  assume "length (pipe_items x) = PIPESIZE"
  then have "unat (pi_nwrite x - pi_nread x) = 512" by (simp add: pipe_items_def)
  then have "pi_nwrite x - pi_nread x = 512" by (metis of_nat_numeral of_nat_unat ucast_id)
  then show "pi_nwrite x = pi_nread x + of_nat PIPESIZE" by (simp add: diff_eq_eq add.commute)
qed (simp add: pipe_items_def)

lemma pipe_empty_iff: "pi_nread x = pi_nwrite x \<longleftrightarrow> pipe_items x = []"
  by (cases "pi_nread x = pi_nwrite x") (simp_all add: pipe_items_def ring_items_get)

section \<open>What does not depend on the pipe\<close>

lemma upd_pipe_frame [simp]:
  "mem (upd_pipe pi g s) = mem s" "freelist (upd_pipe pi g s) = freelist s" "kend (upd_pipe pi g s) = kend s"
  "procs (upd_pipe pi g s) = procs s" "pipes (upd_pipe pi g s) pi = g (pipes s pi)" "cur (upd_pipe pi g s) = cur s"
  "killed pr (upd_pipe pi g s) = killed pr s" "pi' \<noteq> pi \<Longrightarrow> pipes (upd_pipe pi g s) pi' = pipes s pi'"
  by (simp_all add: upd_pipe_def killed_def)

lemma pipes_wakeup [simp]: "pipes (wakeup ch s) = pipes s"
  by (simp add: wakeup_def)

lemma copyin_one:
  assumes "pt_ok s F pt"
  shows "copyin pt va 1 s = Ret (case umem (mem s) pt va of None \<Rightarrow> (- 1, []) | Some c \<Rightarrow> (0, [c]))"
proof -
  from copyin_spec[OF assms, of va 1] obtain r bs where c: "copyin pt va 1 s = Ret (r, bs)"
    "\<forall>i < length bs. umem (mem s) pt (va + of_nat i) = Some (bs ! i)"
    "r = 0 \<and> length bs = 1 \<or> r = - 1 \<and> length bs < 1 \<and> umem (mem s) pt (va + of_nat (length bs)) = None" by blast
  then show ?thesis by (cases bs) auto
qed

section \<open>Writing\<close>

lemma pipewrite_loop_appends:
  assumes "pipe_inv (pipes s pi)" "pt_ok s F (p_pagetable (procs s ! pr))" "i \<le> n"
  shows "\<exists>r s' bs. pipewrite_loop pi pr addr n i s = Ret (r, s') \<and> pipe_inv (pipes s' pi) \<and>
    pipe_items (pipes s' pi) = pipe_items (pipes s pi) @ bs \<and> i + length bs \<le> n \<and>
    (\<forall>j < length bs. umem (mem s) (p_pagetable (procs s ! pr)) (addr + of_nat (i + j)) = Some (bs ! j)) \<and>
    (case r of
       Done t \<Rightarrow> t = int (i + length bs) \<and>
           (i + length bs = n \<or> umem (mem s) (p_pagetable (procs s ! pr)) (addr + of_nat (i + length bs)) = None) \<or>
         t = - 1 \<and> (\<not> pi_readopen (pipes s pi) \<or> killed pr s \<noteq> 0)
     | Blocked t \<Rightarrow> t = i + length bs \<and> t < n \<and> length (pipe_items (pipes s' pi)) = PIPESIZE)"
  using assms
proof (induction "n - i" arbitrary: i s)
  case 0
  then show ?case by (subst pipewrite_loop.simps) auto
next
  case (Suc k)
  let ?pt = "p_pagetable (procs s ! pr)" and ?x = "pipes s pi"
  have i: "i < n" using Suc.hyps(2) by simp
  consider (stop) "\<not> pi_readopen ?x \<or> killed pr s \<noteq> 0" | (full) "pi_readopen ?x" "killed pr s = 0" "length (pipe_items ?x) = PIPESIZE"
    | (go) "pi_readopen ?x" "killed pr s = 0" "length (pipe_items ?x) \<noteq> PIPESIZE" by blast
  then show ?case
  proof cases
    case stop
    then show ?thesis using i Suc.prems(1) by (subst pipewrite_loop.simps) auto
  next
    case full
    then show ?thesis using i Suc.prems(1) pipe_full_iff[OF Suc.prems(1)] by (subst pipewrite_loop.simps) auto
  next
    case go
    note step = pipewrite_loop.simps[of pi pr addr n i s]
    show ?thesis
    proof (cases "umem (mem s) ?pt (addr + of_nat i)")
      case None
      then show ?thesis
        using i go Suc.prems pipe_full_iff[OF Suc.prems(1)] copyin_one[OF Suc.prems(2), of "addr + of_nat i"]
        unfolding step by auto
    next
      case (Some c)
      let ?s = "upd_pipe pi (pipe_put c) s"
      have lt: "length (pipe_items ?x) < PIPESIZE" using go(3) pipeq.inv_cap[OF Suc.prems(1)] by simp
      note put = pipeq.put_law[OF Suc.prems(1) lt, of c]
      have eq: "pipewrite_loop pi pr addr n i s = pipewrite_loop pi pr addr n (i + 1) ?s"
        using i go Suc.prems pipe_full_iff[OF Suc.prems(1)] copyin_one[OF Suc.prems(2), of "addr + of_nat i"] Some
        unfolding step by (simp add: pipe_put_def[abs_def])
      have ok: "pt_ok ?s F (p_pagetable (procs ?s ! pr))" using Suc.prems(2) pt_ok_cong[of ?s s] by simp
      have pre: "k = n - (i + 1)" "pipe_inv (pipes ?s pi)" "i + 1 \<le> n" using Suc.hyps(2) put i by auto
      from Suc.hyps(1)[OF pre(1,2) ok pre(3), unfolded upd_pipe_frame] obtain r s' bs where
        IH: "pipewrite_loop pi pr addr n (i + 1) ?s = Ret (r, s')" "pipe_inv (pipes s' pi)"
        "pipe_items (pipes s' pi) = pipe_items (pipe_put c ?x) @ bs" "i + 1 + length bs \<le> n"
        "\<forall>j < length bs. umem (mem s) ?pt (addr + of_nat (i + 1 + j)) = Some (bs ! j)"
        "case r of
           Done t \<Rightarrow> t = int (i + 1 + length bs) \<and>
               (i + 1 + length bs = n \<or> umem (mem s) ?pt (addr + of_nat (i + 1 + length bs)) = None) \<or>
             t = - 1 \<and> (\<not> pi_readopen (pipe_put c ?x) \<or> killed pr s \<noteq> 0)
         | Blocked t \<Rightarrow> t = i + 1 + length bs \<and> t < n \<and> length (pipe_items (pipes s' pi)) = PIPESIZE"
        by blast
      have "umem (mem s) ?pt (addr + of_nat (i + j)) = Some ((c # bs) ! j)" if "j < length (c # bs)" for j
        using that Some IH(5) by (cases j) (auto simp: algebra_simps)
      then show ?thesis
        using eq IH(1,2,3,4,6) put by (intro exI[of _ r] exI[of _ s'] exI[of _ "c # bs"]) (auto split: run.splits simp: pipe_put_def)
    qed
  qed
qed

text \<open>
  C16. \<open>pipewrite\<close> appends bytes of the writer's memory, in order, to the pipe. It returns the count asked
  for, or less if an address is not accessible, or -1 if the read end is closed or the writer has been
  killed; it waits, having appended what fits, only when the pipe holds 512 bytes.
\<close>

theorem pipewrite_appends:
  assumes "pipe_inv (pipes s pi)" "myproc s = Some pr" "pt_ok s F (p_pagetable (procs s ! pr))"
  shows "\<exists>r s' bs. pipewrite pi addr n s = Ret (r, s') \<and> pipe_inv (pipes s' pi) \<and>
    pipe_items (pipes s' pi) = pipe_items (pipes s pi) @ bs \<and> length bs \<le> nat n \<and>
    (\<forall>j < length bs. umem (mem s) (p_pagetable (procs s ! pr)) (addr + of_nat j) = Some (bs ! j)) \<and>
    (case r of
       Done t \<Rightarrow> t = int (length bs) \<and>
           (length bs = nat n \<or> umem (mem s) (p_pagetable (procs s ! pr)) (addr + of_nat (length bs)) = None) \<or>
         t = - 1 \<and> (\<not> pi_readopen (pipes s pi) \<or> killed pr s \<noteq> 0)
     | Blocked t \<Rightarrow> t = length bs \<and> t < nat n \<and> length (pipe_items (pipes s' pi)) = PIPESIZE)"
  using pipewrite_loop_appends[OF assms(1,3) le0, where n = "nat n" and addr = addr, unfolded add_0] assms(2) by (simp add: pipewrite_def)

section \<open>Reading\<close>

lemma copyout_one:
  assumes "pt_ok s F pt"
  shows "copyout pt va [c] s = (case uaddr (mem s) pt va of None \<Rightarrow> Ret (- 1, s)
    | Some pa \<Rightarrow> Ret (0, s\<lparr>mem := store_bytes (mem s) pa [c]\<rparr>))"
proof -
  have "in_page va 1 = 1" using in_page_bounds(1)[of 1 va] in_page_bounds(2)[of va 1] by simp
  then show ?thesis using copyout_step[OF assms, of "[c]" va] by (simp add: copyout.simps[of pt _ "[]"] Let_def split: option.split)
qed

lemma piperead_loop_takes:
  assumes "pipe_inv (pipes s pi)" "pt_ok s F (p_pagetable (procs s ! pr))" "user_ok (mem s) F (p_pagetable (procs s ! pr))"
    "i \<le> n" "n < 2 ^ 32"
  shows "\<exists>s' bs lost. piperead_loop pi pr addr n i s = Ret (int (i + length bs), s') \<and> pipe_inv (pipes s' pi) \<and>
    pipe_items (pipes s pi) = bs @ lost @ pipe_items (pipes s' pi) \<and> length bs \<le> n - i \<and>
    (lost = [] \<and> (i + length bs = n \<or> pipe_items (pipes s' pi) = []) \<or>
     length lost = 1 \<and> umem (mem s) (p_pagetable (procs s ! pr)) (addr + of_nat (i + length bs)) = None) \<and>
    (\<forall>x. umem (mem s') (p_pagetable (procs s ! pr)) x =
       (if unat (x - (addr + of_nat i)) < length bs then Some (bs ! unat (x - (addr + of_nat i)))
        else umem (mem s) (p_pagetable (procs s ! pr)) x))"
  using assms
proof (induction "n - i" arbitrary: i s)
  case 0
  then show ?case by (subst piperead_loop.simps) (auto intro: exI[of _ "[]"])
next
  case (Suc k)
  let ?pt = "p_pagetable (procs s ! pr)" and ?x = "pipes s pi"
  have i: "i < n" using Suc.hyps(2) by simp
  note step = piperead_loop.simps[of pi pr addr n i s]
  show ?case
  proof (cases "pipe_items ?x = []")
    case True
    then show ?thesis
      using i Suc.prems(1) pipe_empty_iff[of ?x] unfolding step by (intro exI[of _ s] exI[of _ "[]"]) simp
  next
    case False
    let ?c = "fst (pipe_get ?x)" and ?s = "upd_pipe pi (\<lambda>x. x\<lparr>pi_nread := pi_nread x + 1\<rparr>) s"
    note get = pipeq.get_law[OF Suc.prems(1) False]
    have px: "pipes ?s pi = snd (pipe_get ?x)" by (simp add: pipe_get_def)
    have ok: "pt_ok ?s F ?pt" using Suc.prems(2) pt_ok_cong[of ?s s] by simp
    have st: "piperead_loop pi pr addr n i s =
        bindo (copyout ?pt (addr + of_nat i) [?c] ?s) (\<lambda>(r, s). if r = - 1 then Ret (int i, s) else piperead_loop pi pr addr n (i + 1) s)"
      using i False pipe_empty_iff[of ?x] unfolding step by (simp add: Let_def pipe_get_def)
    show ?thesis
    proof (cases "uaddr (mem s) ?pt (addr + of_nat i)")
      case None
      then have "piperead_loop pi pr addr n i s = Ret (int i, ?s)" using st copyout_one[OF ok] by simp
      then show ?thesis using get px None
        by (intro exI[of _ ?s] exI[of _ "[]"] exI[of _ "[?c]"]) (simp add: umem_def)
    next
      case (Some pa)
      let ?m = "store_bytes (mem s) pa [?c]" and ?t = "?s\<lparr>mem := store_bytes (mem ?s) pa [?c]\<rparr>"
      have len: "length [?c] \<le> in_page (addr + of_nat i) 1" using in_page_bounds(1)[of 1 "addr + of_nat i"] by simp
      note su = store_user[OF Suc.prems(2,3) Some len refl]
      have eq: "piperead_loop pi pr addr n i s = piperead_loop pi pr addr n (i + 1) ?t"
        using st copyout_one[OF ok] Some by simp
      have t: "pipe_inv (pipes ?t pi)" "pt_ok ?t F (p_pagetable (procs ?t ! pr))" "user_ok (mem ?t) F (p_pagetable (procs ?t ! pr))"
        "pipes ?t pi = snd (pipe_get ?x)" "mem ?t = ?m" "procs ?t = procs s"
        using get px su(2,3) pt_ok_cong[of ?t "s\<lparr>mem := ?m\<rparr>"] by simp_all
      have pre: "k = n - (i + 1)" "i + 1 \<le> n" using Suc.hyps(2) i by auto
      from Suc.hyps(1)[OF pre(1) t(1-3) pre(2) Suc.prems(5), unfolded t(4-6)] obtain s' bs lost where
        IH: "piperead_loop pi pr addr n (i + 1) ?t = Ret (int (i + 1 + length bs), s')" "pipe_inv (pipes s' pi)"
        "pipe_items (snd (pipe_get ?x)) = bs @ lost @ pipe_items (pipes s' pi)" "length bs \<le> n - (i + 1)"
        "lost = [] \<and> (i + 1 + length bs = n \<or> pipe_items (pipes s' pi) = []) \<or>
         length lost = 1 \<and> umem ?m ?pt (addr + of_nat (i + 1 + length bs)) = None"
        "\<And>x. umem (mem s') ?pt x = (if unat (x - (addr + of_nat (i + 1))) < length bs
           then Some (bs ! unat (x - (addr + of_nat (i + 1)))) else umem ?m ?pt x)"
        by blast
      have "1 + length bs < 2 ^ 64" using IH(4) Suc.prems(5) by simp
      note adj = adjacent[OF this, of _ "addr + of_nat i"]
      have um: "umem (mem s') ?pt x = (if unat (x - (addr + of_nat i)) < length (?c # bs)
          then Some ((?c # bs) ! unat (x - (addr + of_nat i))) else umem (mem s) ?pt x)" for x
        using IH(6)[of x] su(4)[of x] adj[of x] by (cases "unat (x - (addr + of_nat i)) < 1") (auto simp: nth_Cons' algebra_simps)
      have none: "umem (mem s) ?pt x = None" if "umem ?m ?pt x = None" for x
        using that su(4)[of x] by (auto split: if_splits)
      have lost: "lost = [] \<and> (i + length (?c # bs) = n \<or> pipe_items (pipes s' pi) = []) \<or>
          length lost = 1 \<and> umem (mem s) ?pt (addr + of_nat (i + length (?c # bs))) = None"
        using IH(5) none by auto
      have "piperead_loop pi pr addr n i s = Ret (int (i + length (?c # bs)), s')"
        "pipe_items ?x = (?c # bs) @ lost @ pipe_items (pipes s' pi)" "length (?c # bs) \<le> n - i"
        using eq IH(1,3,4) get i by auto
      with IH(2) lost um show ?thesis by blast
    qed
  qed
qed

text \<open>
  C17. \<open>piperead\<close> of a pipe that is not empty, or whose write end is closed, writes the oldest bytes of the
  pipe to the reader's memory in order and removes them, at most \<open>n\<close>, and all there are if there are
  fewer. If it stops at an address the reader has not mapped, one more byte has left the pipe
  that reaches nobody: it is taken before \<open>copyout\<close> is tried.
\<close>

theorem piperead_takes:
  assumes "pipe_inv (pipes s pi)" "myproc s = Some pr" "pt_ok s F (p_pagetable (procs s ! pr))"
    "user_ok (mem s) F (p_pagetable (procs s ! pr))" "n < 2 ^ 31" "pipe_items (pipes s pi) \<noteq> [] \<or> \<not> pi_writeopen (pipes s pi)"
  shows "\<exists>s' bs lost. piperead pi addr n s = Ret (int (length bs), s') \<and> pipe_inv (pipes s' pi) \<and>
    pipe_items (pipes s pi) = bs @ lost @ pipe_items (pipes s' pi) \<and> length bs \<le> nat n \<and>
    (lost = [] \<and> (length bs = nat n \<or> pipe_items (pipes s' pi) = []) \<or>
     length lost = 1 \<and> umem (mem s) (p_pagetable (procs s ! pr)) (addr + of_nat (length bs)) = None) \<and>
    (\<forall>x. umem (mem s') (p_pagetable (procs s ! pr)) x =
       (if unat (x - addr) < length bs then Some (bs ! unat (x - addr)) else umem (mem s) (p_pagetable (procs s ! pr)) x))"
proof -
  have n: "nat n < 2 ^ 32" and a: "addr + of_nat 0 = addr" using assms(5) by simp_all
  from piperead_loop_takes[OF assms(1,3,4) le0 n, of addr, unfolded add_0 diff_zero a] obtain s' bs lost where
    w: "piperead_loop pi pr addr (nat n) 0 s = Ret (int (length bs), s')" "pipe_inv (pipes s' pi)"
    "pipe_items (pipes s pi) = bs @ lost @ pipe_items (pipes s' pi)" "length bs \<le> nat n"
    "lost = [] \<and> (length bs = nat n \<or> pipe_items (pipes s' pi) = []) \<or>
     length lost = 1 \<and> umem (mem s) (p_pagetable (procs s ! pr)) (addr + of_nat (length bs)) = None"
    "\<forall>x. umem (mem s') (p_pagetable (procs s ! pr)) x =
       (if unat (x - addr) < length bs then Some (bs ! unat (x - addr)) else umem (mem s) (p_pagetable (procs s ! pr)) x)"
    by blast
  have "piperead pi addr n s = Ret (int (length bs), wakeup (ChPipeWrite pi) s')"
    using w(1) assms(2,6) pipe_empty_iff[of "pipes s pi"] by (auto simp: piperead_def)
  then show ?thesis using w(2-6) by (intro exI[of _ "wakeup (ChPipeWrite pi) s'"] exI[of _ bs] exI[of _ lost]) simp
qed

section \<open>An example\<close>

text \<open>A process whose one page is at address 0, and a pipe that holds the bytes of a string.\<close>

definition ex_pipe_fs :: fs_state where
  "ex_pipe_fs = dev_state.extend (ex_dev\<lparr>mem := mem ex_user, freelist := freelist ex_user, kend := kend ex_user,
       procs := [ex_proc], cur := Some 0\<rparr>)
     (fs_state.fields \<lparr>sb_magic = 0x10203040, sb_size = 2000, sb_nblocks = 1954, sb_ninodes = 200, sb_nlog = 30, sb_logstart = 2,
        sb_inodestart = 32, sb_bmapstart = 45\<rparr> [])"

definition ex_pipe :: file_state where
  "ex_pipe = fs_state.extend ex_pipe_fs
     (file_state.fields [] []
       (\<lambda>_. \<lparr>pi_data = 0x68 # 0x69 # replicate 510 0, pi_nread = 0, pi_nwrite = 2, pi_readopen = True, pi_writeopen = True\<rparr>))"

lemma ex_pipe_ok:
  "myproc ex_pipe = Some 0" "procs ex_pipe ! 0 = ex_proc" "mem ex_pipe = mem ex_user"
  "pipe_inv (pipes ex_pipe pi)" "pipe_items (pipes ex_pipe pi) = [0x68, 0x69]" "killed 0 ex_pipe = 0" "pi_readopen (pipes ex_pipe pi)"
  "pt_ok ex_pipe [] 0x80001000" "user_ok (mem ex_pipe) [] 0x80001000" "p_pagetable ex_proc = 0x80001000"
proof -
  show m: "mem ex_pipe = mem ex_user" by (simp add: ex_pipe_def ex_pipe_fs_def dev_state.defs fs_state.defs file_state.defs ex_dev_def)
  show "pt_ok ex_pipe [] 0x80001000" using ex_user_ok(1) pt_ok_cong[of ex_pipe ex_user]
    by (simp add: ex_pipe_def ex_pipe_fs_def dev_state.defs fs_state.defs file_state.defs ex_dev_def)
  show "user_ok (mem ex_pipe) [] 0x80001000" using ex_user_ok(4) m by simp
qed (simp_all add: ex_pipe_def ex_pipe_fs_def dev_state.defs fs_state.defs file_state.defs ex_dev_def ex_proc_def myproc_def pipe_inv_def pipe_items_def ring_items_def upt_rec killed_def)

theorem pipewrite_appends_witness:
  "\<exists>s'. pipewrite 0x80005000 0 2 ex_pipe = Ret (Done 2, s') \<and> length (pipe_items (pipes s' 0x80005000)) = 4"
proof -
  have "pt_ok ex_pipe [] (p_pagetable (procs ex_pipe ! 0))" by (simp add: ex_pipe_ok)
  from pipewrite_appends[OF ex_pipe_ok(4) ex_pipe_ok(1) this, where pi = "0x80005000" and addr = 0 and n = 2] obtain r s' bs where
    w: "pipewrite 0x80005000 0 2 ex_pipe = Ret (r, s')" "pipe_items (pipes s' 0x80005000) = [0x68, 0x69] @ bs" "length bs \<le> nat 2"
    "case r of Done t \<Rightarrow> t = int (length bs) \<and> (length bs = nat 2 \<or> umem (mem ex_user) 0x80001000 (0 + of_nat (length bs)) = None) \<or>
         t = - 1 \<and> (\<not> pi_readopen (pipes ex_pipe 0x80005000) \<or> (0 :: int) \<noteq> 0)
     | Blocked t \<Rightarrow> t = length bs \<and> t < nat 2 \<and> length (pipe_items (pipes s' 0x80005000)) = PIPESIZE"
    unfolding ex_pipe_ok by blast
  have "unat (of_nat (length bs) :: uint64) < 4096" using w(3) by (simp add: unat_of_nat)
  from ex_user_mapped[OF this] show ?thesis using w ex_pipe_ok(7) by (cases r) auto
qed

theorem piperead_takes_witness:
  "\<exists>s'. piperead 0x80005000 0 2 ex_pipe = Ret (2, s') \<and> pipe_items (pipes s' 0x80005000) = [] \<and>
     umem (mem s') 0x80001000 0 = Some 0x68"
proof -
  have "pt_ok ex_pipe [] (p_pagetable (procs ex_pipe ! 0))" "user_ok (mem ex_pipe) [] (p_pagetable (procs ex_pipe ! 0))"
    "(2 :: int) < 2 ^ 31" "pipe_items (pipes ex_pipe 0x80005000) \<noteq> [] \<or> \<not> pi_writeopen (pipes ex_pipe 0x80005000)"
    using ex_pipe_ok(8,9) by (simp_all add: ex_pipe_ok)
  from piperead_takes[OF ex_pipe_ok(4) ex_pipe_ok(1) this, where addr = 0] obtain s' bs lost where
    w: "piperead 0x80005000 0 2 ex_pipe = Ret (int (length bs), s')"
    "[0x68, 0x69] = bs @ lost @ pipe_items (pipes s' 0x80005000)" "length bs \<le> nat 2"
    "lost = [] \<and> (length bs = nat 2 \<or> pipe_items (pipes s' 0x80005000) = []) \<or>
     length lost = 1 \<and> umem (mem ex_user) 0x80001000 (0 + of_nat (length bs)) = None"
    "\<forall>x. umem (mem s') 0x80001000 x = (if unat (x - 0) < length bs then Some (bs ! unat (x - 0)) else umem (mem ex_user) 0x80001000 x)"
    unfolding ex_pipe_ok by blast
  have "unat (of_nat (length bs) :: uint64) < 4096" using w(3) by (simp add: unat_of_nat)
  from ex_user_mapped[OF this] w(4) have l: "lost = []" "length bs = 2 \<or> pipe_items (pipes s' 0x80005000) = []" by auto
  have "length bs + length (pipe_items (pipes s' 0x80005000)) = 2" using arg_cong[OF w(2), of length] l(1) by simp
  then have "length bs = 2" "pipe_items (pipes s' 0x80005000) = []" using l(2) by auto
  then show ?thesis using w l(1) by (auto simp: nth_Cons')
qed

end
