(* ===== verification/Proc.thy ===== *)
theory Proc
  imports File
begin

text \<open>
  The life of a process: the rest of \<^verbatim>\<open>kernel/proc.c\<close>, which uses the page tables, the file system and
  the open files. A trap frame is the page at \<open>p_trapframe\<close>, read and written at the offsets of
  \<^verbatim>\<open>struct trapframe\<close>. The addresses the linker gives to code the kernel refers to are a record of
  parameters. An operation that ends in \<open>sched\<close> returns the state it leaves to the scheduler, which
  has no current process.
\<close>

section \<open>Data\<close>

record ksyms =
  k_trampoline :: uint64
  k_uservec :: uint64
  k_userret :: uint64
  k_forkret :: uint64
  k_usertrap :: uint64
  k_kernelvec :: uint64

abbreviation (input) TRAPFRAME :: uint64 where "TRAPFRAME \<equiv> 0x3fffffe000"

abbreviation (input) TF_SIZE :: nat where "TF_SIZE \<equiv> 288"
abbreviation (input) TF_kernel_satp :: uint64 where "TF_kernel_satp \<equiv> 0"
abbreviation (input) TF_kernel_sp :: uint64 where "TF_kernel_sp \<equiv> 8"
abbreviation (input) TF_kernel_trap :: uint64 where "TF_kernel_trap \<equiv> 16"
abbreviation (input) TF_epc :: uint64 where "TF_epc \<equiv> 24"
abbreviation (input) TF_kernel_hartid :: uint64 where "TF_kernel_hartid \<equiv> 32"
abbreviation (input) TF_sp :: uint64 where "TF_sp \<equiv> 48"
abbreviation (input) TF_a0 :: uint64 where "TF_a0 \<equiv> 112"
abbreviation (input) TF_a1 :: uint64 where "TF_a1 \<equiv> 120"
abbreviation (input) TF_a7 :: uint64 where "TF_a7 \<equiv> 168"

definition tf_get :: "nat \<Rightarrow> uint64 \<Rightarrow> 'a proc_state_scheme \<Rightarrow> uint64" where
  "tf_get p off s = load64 (mem s) (p_trapframe (procs s ! p) + off)"

definition tf_set :: "nat \<Rightarrow> uint64 \<Rightarrow> uint64 \<Rightarrow> 'a proc_state_scheme \<Rightarrow> 'a proc_state_scheme" where
  "tf_set p off v s = s\<lparr>mem := store64 (mem s) (p_trapframe (procs s ! p) + off) v\<rparr>"

section \<open>Page tables of processes\<close>

definition proc_pagetable :: "ksyms \<Rightarrow> nat \<Rightarrow> 'a proc_state_scheme \<Rightarrow> (uint64 \<times> 'a proc_state_scheme) outcome" where
  "proc_pagetable K p s =
     (let (pagetable, s) = uvmcreate s
      in if pagetable = 0 then Ret (0, s)
         else bindo (mappages pagetable TRAMPOLINE PGSIZE (k_trampoline K) (PTE_R OR PTE_X) s) (\<lambda>(r, s).
           if r < 0 then bindo (uvmfree pagetable 0 s) (\<lambda>s. Ret (0, s))
           else bindo (mappages pagetable TRAPFRAME PGSIZE (p_trapframe (procs s ! p)) (PTE_R OR PTE_W) s) (\<lambda>(r, s).
             if r < 0
             then bindo (uvmunmap pagetable TRAMPOLINE 1 False s) (\<lambda>s.
                  bindo (uvmfree pagetable 0 s) (\<lambda>s. Ret (0, s)))
             else Ret (pagetable, s))))"

definition proc_freepagetable :: "uint64 \<Rightarrow> uint64 \<Rightarrow> 'a kmem_state_scheme \<Rightarrow> 'a kmem_state_scheme outcome" where
  "proc_freepagetable pagetable sz s =
     bindo (uvmunmap pagetable TRAMPOLINE 1 False s) (\<lambda>s.
     bindo (uvmunmap pagetable TRAPFRAME 1 False s) (uvmfree pagetable sz))"

section \<open>Allocation\<close>

definition freeproc :: "nat \<Rightarrow> 'a proc_state_scheme \<Rightarrow> 'a proc_state_scheme outcome" where
  "freeproc p s =
     bindo (if p_trapframe (procs s ! p) \<noteq> 0 then kfree (p_trapframe (procs s ! p)) s else Ret s) (\<lambda>s.
       let s = upd_proc p (\<lambda>x. x\<lparr>p_trapframe := 0\<rparr>) s
       in bindo (if p_pagetable (procs s ! p) \<noteq> 0
                 then proc_freepagetable (p_pagetable (procs s ! p)) (p_sz (procs s ! p)) s else Ret s) (\<lambda>s.
          Ret (upd_proc p (\<lambda>x. x\<lparr>p_pagetable := 0, p_sz := 0, p_pid := 0, p_parent := None,
                 p_name := (p_name x)[0 := 0], p_chan := None, p_killed := 0, p_xstate := 0, p_state := UNUSED\<rparr>) s)))"

definition allocproc :: "ksyms \<Rightarrow> 'a proc_state_scheme \<Rightarrow> (nat option \<times> 'a proc_state_scheme) outcome" where
  "allocproc K s =
     (case find (\<lambda>i. p_state (procs s ! i) = UNUSED) [0..<length (procs s)] of
        None \<Rightarrow> Ret (None, s)
      | Some p \<Rightarrow>
          bindo (allocpid s) (\<lambda>(pid, s).
            let s = upd_proc p (\<lambda>x. x\<lparr>p_pid := pid, p_state := USED\<rparr>) s;
                (tf, s) = kalloc s;
                s = upd_proc p (\<lambda>x. x\<lparr>p_trapframe := tf\<rparr>) s
            in if tf = 0 then bindo (freeproc p s) (\<lambda>s. Ret (None, s))
               else bindo (proc_pagetable K p s) (\<lambda>(pt, s).
                 let s = upd_proc p (\<lambda>x. x\<lparr>p_pagetable := pt\<rparr>) s
                 in if pt = 0 then bindo (freeproc p s) (\<lambda>s. Ret (None, s))
                    else Ret (Some p, upd_proc p (\<lambda>x. x\<lparr>p_context :=
                           \<lparr>ctx_ra = k_forkret K, ctx_sp = p_kstack x + PGSIZE, ctx_s = replicate 12 0\<rparr>\<rparr>) s))))"

section \<open>The first process\<close>

definition initcode :: "uchar list" where
  "initcode =
     [0x17, 0x05, 0x00, 0x00, 0x13, 0x05, 0x45, 0x02,
      0x97, 0x05, 0x00, 0x00, 0x93, 0x85, 0x35, 0x02,
      0x93, 0x08, 0x70, 0x00, 0x73, 0x00, 0x00, 0x00,
      0x93, 0x08, 0x20, 0x00, 0x73, 0x00, 0x00, 0x00,
      0xef, 0xf0, 0x9f, 0xff, 0x2f, 0x69, 0x6e, 0x69,
      0x74, 0x00, 0x00, 0x24, 0x00, 0x00, 0x00, 0x00,
      0x00, 0x00, 0x00, 0x00]"

text \<open>\<open>userinit\<close> uses the process without testing that there is one.\<close>

definition userinit :: "ksyms \<Rightarrow> 'a fs_state_scheme \<Rightarrow> 'a fs_state_scheme outcome" where
  "userinit K s =
     bindo (allocproc K s) (\<lambda>(po, s).
       case po of
         None \<Rightarrow> Undef
       | Some p \<Rightarrow>
           bindo (uvmfirst (p_pagetable (procs s ! p)) initcode (s\<lparr>initproc := Some p\<rparr>)) (\<lambda>s.
           let s = upd_proc p (\<lambda>x. x\<lparr>p_sz := PGSIZE\<rparr>) s;
               s = tf_set p TF_sp PGSIZE (tf_set p TF_epc 0 s)
           in bindo (safestrcpy (p_name (procs s ! p)) (str ''initcode'' @ [0]) 16) (\<lambda>nm.
              bindo (namei [SLASH, 0] (upd_proc p (\<lambda>x. x\<lparr>p_name := nm\<rparr>) s)) (\<lambda>(ip, s).
              Ret (upd_proc p (\<lambda>x. x\<lparr>p_cwd := ip, p_state := RUNNABLE\<rparr>) s)))))"

section \<open>Growing, forking, exiting, waiting\<close>

definition growproc :: "int \<Rightarrow> 'a proc_state_scheme \<Rightarrow> (int \<times> 'a proc_state_scheme) outcome" where
  "growproc n s =
     (case myproc s of
        None \<Rightarrow> Undef
      | Some p \<Rightarrow>
          let sz = p_sz (procs s ! p); pt = p_pagetable (procs s ! p)
          in if n > 0
             then bindo (uvmalloc pt sz (sz + of_int n) PTE_W s) (\<lambda>(sz, s).
               if sz = 0 then Ret (- 1, s) else Ret (0, upd_proc p (\<lambda>x. x\<lparr>p_sz := sz\<rparr>) s))
             else if n < 0
             then bindo (uvmdealloc pt sz (sz + of_int n) s) (\<lambda>(sz, s). Ret (0, upd_proc p (\<lambda>x. x\<lparr>p_sz := sz\<rparr>) s))
             else Ret (0, upd_proc p (\<lambda>x. x\<lparr>p_sz := sz\<rparr>) s))"

text \<open>The loop of \<open>fork\<close> that shares the open files of \<open>p\<close> with \<open>np\<close>.\<close>

definition dup_files :: "nat \<Rightarrow> nat \<Rightarrow> 'a file_state_scheme \<Rightarrow> 'a file_state_scheme outcome" where
  "dup_files p np s =
     foldo (\<lambda>i s. case p_ofile (procs s ! p) ! i of
         None \<Rightarrow> Ret s
       | Some f \<Rightarrow> bindo (filedup f s) (\<lambda>s. Ret (upd_proc np (\<lambda>x. x\<lparr>p_ofile := (p_ofile x)[i := Some f]\<rparr>) s)))
       [0..<NOFILE] s"

definition fork :: "ksyms \<Rightarrow> 'a file_state_scheme \<Rightarrow> (int \<times> 'a file_state_scheme) outcome" where
  "fork K s =
     (case myproc s of
        None \<Rightarrow> Undef
      | Some p \<Rightarrow>
          bindo (allocproc K s) (\<lambda>(npo, s).
            case npo of
              None \<Rightarrow> Ret (- 1, s)
            | Some np \<Rightarrow>
                bindo (uvmcopy (p_pagetable (procs s ! p)) (p_pagetable (procs s ! np)) (p_sz (procs s ! p)) s) (\<lambda>(r, s).
                  if r < 0 then bindo (freeproc np s) (\<lambda>s. Ret (- 1, s))
                  else
                    let s = upd_proc np (\<lambda>x. x\<lparr>p_sz := p_sz (procs s ! p)\<rparr>) s;
                        s = s\<lparr>mem := store_bytes (mem s) (p_trapframe (procs s ! np))
                                (load_bytes (mem s) (p_trapframe (procs s ! p)) TF_SIZE)\<rparr>;
                        s = tf_set np TF_a0 0 s
                    in bindo (dup_files p np s) (\<lambda>s.
                       case p_cwd (procs s ! p) of
                         None \<Rightarrow> Undef
                       | Some ip \<Rightarrow>
                           let s = upd_proc np (\<lambda>x. x\<lparr>p_cwd := Some ip\<rparr>) (idup ip s)
                           in bindo (safestrcpy (p_name (procs s ! np)) (p_name (procs s ! p)) 16) (\<lambda>nm.
                              let s = upd_proc np (\<lambda>x. x\<lparr>p_name := nm\<rparr>) s;
                                  pid = p_pid (procs s ! np);
                                  s = upd_proc np (\<lambda>x. x\<lparr>p_parent := Some p\<rparr>) s
                              in Ret (pid, upd_proc np (\<lambda>x. x\<lparr>p_state := RUNNABLE\<rparr>) s))))))"

text \<open>Waking the process a pointer refers to; nobody sleeps on the null pointer.\<close>

definition wakeup_proc :: "nat option \<Rightarrow> 'a proc_state_scheme \<Rightarrow> 'a proc_state_scheme" where
  "wakeup_proc po s = (case po of None \<Rightarrow> s | Some p \<Rightarrow> wakeup (ChProc p) s)"

definition reparent :: "nat \<Rightarrow> 'a proc_state_scheme \<Rightarrow> 'a proc_state_scheme" where
  "reparent p s =
     fold (\<lambda>pp s. if p_parent (procs s ! pp) = Some p
                  then wakeup_proc (initproc s) (upd_proc pp (\<lambda>x. x\<lparr>p_parent := initproc s\<rparr>) s)
                  else s) [0..<length (procs s)] s"

definition close_files :: "nat \<Rightarrow> 'a file_state_scheme \<Rightarrow> 'a file_state_scheme outcome" where
  "close_files p s =
     foldo (\<lambda>fd s. case p_ofile (procs s ! p) ! fd of
         None \<Rightarrow> Ret s
       | Some f \<Rightarrow> bindo (fileclose f s) (\<lambda>s. Ret (upd_proc p (\<lambda>x. x\<lparr>p_ofile := (p_ofile x)[fd := None]\<rparr>) s)))
       [0..<NOFILE] s"

definition exit :: "int \<Rightarrow> 'a file_state_scheme \<Rightarrow> 'a file_state_scheme outcome" where
  "exit status s =
     (case myproc s of
        None \<Rightarrow> Undef
      | Some p \<Rightarrow>
          if initproc s = Some p then Panic ''init exiting''
          else bindo (close_files p s) (\<lambda>s.
               bindo (begin_op s) (\<lambda>s.
               bindo (case p_cwd (procs s ! p) of None \<Rightarrow> Undef | Some ip \<Rightarrow> iput ip s) (\<lambda>s.
               bindo (end_op s) (\<lambda>s.
                 let s = upd_proc p (\<lambda>x. x\<lparr>p_cwd := None\<rparr>) s;
                     s = reparent p s;
                     s = wakeup_proc (p_parent (procs s ! p)) s;
                     s = upd_proc p (\<lambda>x. x\<lparr>p_xstate := status, p_state := ZOMBIE\<rparr>) s
                 in Ret (s\<lparr>cur := None\<rparr>))))))"

definition wait :: "uint64 \<Rightarrow> 'a proc_state_scheme \<Rightarrow> (int \<times> 'a proc_state_scheme) outcome" where
  "wait addr s =
     (case myproc s of
        None \<Rightarrow> Undef
      | Some p \<Rightarrow>
          let kids = filter (\<lambda>i. p_parent (procs s ! i) = Some p) [0..<length (procs s)]
          in case find (\<lambda>i. p_state (procs s ! i) = ZOMBIE) kids of
               Some i \<Rightarrow>
                 bindo (if addr \<noteq> 0
                        then copyout (p_pagetable (procs s ! p)) addr (bytes_of 4 (word_of_int (p_xstate (procs s ! i)) :: uint)) s
                        else Ret (0, s)) (\<lambda>(r, s).
                   if r < 0 then Ret (- 1, s)
                   else bindo (freeproc i s) (\<lambda>s'. Ret (p_pid (procs s ! i), s')))
             | None \<Rightarrow> if kids = [] \<or> killed p s \<noteq> 0 then Ret (- 1, s) else Sleeps)"

section \<open>Scheduling\<close>

text \<open>
  The scheduler's loop from table index \<open>i\<close> on, to the next process it switches to: the rest of its
  pass, then a pass from the start. With nothing to run it goes on looking.
\<close>

definition scheduler :: "nat \<Rightarrow> 'a proc_state_scheme \<Rightarrow> nat option \<times> 'a proc_state_scheme" where
  "scheduler i s =
     (case find (\<lambda>p. p_state (procs s ! p) = RUNNABLE) ([i..<length (procs s)] @ [0..<length (procs s)]) of
        None \<Rightarrow> (None, s\<lparr>cur := None\<rparr>)
      | Some p \<Rightarrow> (Some p, (upd_proc p (\<lambda>x. x\<lparr>p_state := RUNNING\<rparr>) s)\<lparr>cur := Some p\<rparr>))"

definition yield :: "'a proc_state_scheme \<Rightarrow> 'a proc_state_scheme outcome" where
  "yield s =
     (case myproc s of
        None \<Rightarrow> Undef
      | Some p \<Rightarrow> Ret ((upd_proc p (\<lambda>x. x\<lparr>p_state := RUNNABLE\<rparr>) s)\<lparr>cur := None\<rparr>))"

text \<open>\<open>sleep\<close> up to the switch to the scheduler, and from the switch back on.\<close>

definition sleep :: "chan \<Rightarrow> 'a proc_state_scheme \<Rightarrow> 'a proc_state_scheme outcome" where
  "sleep ch s =
     (case myproc s of
        None \<Rightarrow> Undef
      | Some p \<Rightarrow> Ret ((upd_proc p (\<lambda>x. x\<lparr>p_chan := Some ch, p_state := SLEEPING\<rparr>) s)\<lparr>cur := None\<rparr>))"

definition sleep_return :: "'a proc_state_scheme \<Rightarrow> 'a proc_state_scheme outcome" where
  "sleep_return s = (case myproc s of None \<Rightarrow> Undef | Some p \<Rightarrow> Ret (upd_proc p (\<lambda>x. x\<lparr>p_chan := None\<rparr>) s))"

end
