(* ===== verification/Exec.thy ===== *)
theory Exec
  imports Proc
begin

text \<open>
  \<^verbatim>\<open>kernel/exec.c\<close>: replacing the image of the current process by that of an ELF file. The arguments
  are the kernel's array of pointers to pages that hold the strings; it is read up to its null
  pointer. A header read from the file is its bytes, with the fields at the offsets of
  \<^verbatim>\<open>kernel/elf.h\<close>.
\<close>

section \<open>ELF headers\<close>

definition get64 :: "uchar list \<Rightarrow> nat \<Rightarrow> uint64" where
  "get64 bs i = of_bytes (take 8 (drop i bs))"

abbreviation (input) ELF_MAGIC :: uint where "ELF_MAGIC \<equiv> 0x464C457F"
abbreviation (input) ELF_PROG_LOAD :: uint where "ELF_PROG_LOAD \<equiv> 1"
abbreviation (input) MAXARG :: nat where "MAXARG \<equiv> 32"

record elfhdr =
  elf_magic :: uint
  elf_entry :: uint64
  elf_phoff :: uint64
  elf_phnum :: ushort

definition get_elfhdr :: "uchar list \<Rightarrow> elfhdr" where
  "get_elfhdr bs = \<lparr>elf_magic = get32 bs 0, elf_entry = get64 bs 24, elf_phoff = get64 bs 32, elf_phnum = get16 bs 56\<rparr>"

record proghdr =
  ph_type :: uint
  ph_flags :: uint
  ph_off :: uint64
  ph_vaddr :: uint64
  ph_filesz :: uint64
  ph_memsz :: uint64

definition get_proghdr :: "uchar list \<Rightarrow> proghdr" where
  "get_proghdr bs = \<lparr>ph_type = get32 bs 0, ph_flags = get32 bs 4, ph_off = get64 bs 8, ph_vaddr = get64 bs 16,
     ph_filesz = get64 bs 32, ph_memsz = get64 bs 40\<rparr>"

definition flags2perm :: "uint \<Rightarrow> uint64" where
  "flags2perm flags = (if flags AND 1 \<noteq> 0 then PTE_X else 0) OR (if flags AND 2 \<noteq> 0 then PTE_W else 0)"

section \<open>Loading\<close>

text \<open>The loop of \<open>loadseg\<close> over the page offsets that remain; False for the return value -1.\<close>

fun loadseg_loop :: "nat list \<Rightarrow> uint64 \<Rightarrow> uint64 \<Rightarrow> nat \<Rightarrow> uint \<Rightarrow> uint \<Rightarrow> 'a fs_state_scheme \<Rightarrow> (bool \<times> 'a fs_state_scheme) outcome" where
  "loadseg_loop [] pagetable va ip offset sz s = Ret (True, s)"
| "loadseg_loop (i # is) pagetable va ip offset sz s =
     bindo (walkaddr pagetable (va + of_nat i) s) (\<lambda>pa.
       if pa = 0 then Panic ''loadseg: address should exist''
       else let n = (if sz - of_nat i < 4096 then sz - of_nat i else 4096)
            in bindo (readi ip (Kern pa) (offset + of_nat i) n s) (\<lambda>(r, _, s).
                 if r \<noteq> int (unat n) then Ret (False, s)
                 else loadseg_loop is pagetable va ip offset sz s))"

definition loadseg :: "uint64 \<Rightarrow> uint64 \<Rightarrow> nat \<Rightarrow> uint \<Rightarrow> uint \<Rightarrow> 'a fs_state_scheme \<Rightarrow> (bool \<times> 'a fs_state_scheme) outcome" where
  "loadseg pagetable va ip offset sz s =
     loadseg_loop (map (\<lambda>k. k * 4096) [0..<(unat sz + 4095) div 4096]) pagetable va ip offset sz s"

text \<open>
  The loop over the program headers, with \<open>n\<close> of them left, the next one at \<open>off\<close> in the file:
  whether it completed, and the size of the image so far.
\<close>

fun load_segments :: "nat \<Rightarrow> uint \<Rightarrow> nat \<Rightarrow> uint64 \<Rightarrow> uint64 \<Rightarrow> 'a fs_state_scheme \<Rightarrow> (bool \<times> uint64 \<times> 'a fs_state_scheme) outcome" where
  "load_segments 0 off ip pagetable sz s = Ret (True, sz, s)"
| "load_segments (Suc n) off ip pagetable sz s =
     bindo (readi ip (Local 0 (replicate 56 0)) off 56 s) (\<lambda>(r, dst, s).
       if r \<noteq> 56 then Ret (False, sz, s)
       else let ph = get_proghdr (var_bytes dst)
            in if ph_type ph \<noteq> ELF_PROG_LOAD then load_segments n (off + 56) ip pagetable sz s
               else if ph_memsz ph < ph_filesz ph then Ret (False, sz, s)
               else if ph_vaddr ph + ph_memsz ph < ph_vaddr ph then Ret (False, sz, s)
               else if ph_vaddr ph mod PGSIZE \<noteq> 0 then Ret (False, sz, s)
               else bindo (uvmalloc pagetable sz (ph_vaddr ph + ph_memsz ph) (flags2perm (ph_flags ph)) s) (\<lambda>(sz1, s).
                 if sz1 = 0 then Ret (False, sz, s)
                 else bindo (loadseg pagetable (ph_vaddr ph) ip (ucast (ph_off ph)) (ucast (ph_filesz ph)) s) (\<lambda>(ok, s).
                   if \<not> ok then Ret (False, sz1, s)
                   else load_segments n (off + 56) ip pagetable sz1 s)))"

section \<open>Arguments\<close>

text \<open>The string in the page at \<open>a\<close>, with its terminator.\<close>

definition kstring :: "uint64 \<Rightarrow> 'a kmem_state_scheme \<Rightarrow> uchar list outcome" where
  "kstring a s = (let bs = load_bytes (mem s) a 4096 in bindo (strlen bs) (\<lambda>n. Ret (take (n + 1) bs)))"

text \<open>Pushing the strings; None for \<open>goto bad\<close>. \<open>ustack\<close> holds the addresses pushed so far.\<close>

fun push_args :: "uint64 list \<Rightarrow> uint64 \<Rightarrow> uint64 \<Rightarrow> uint64 \<Rightarrow> uint64 list \<Rightarrow> 'a kmem_state_scheme \<Rightarrow>
    ((uint64 \<times> uint64 list) option \<times> 'a kmem_state_scheme) outcome" where
  "push_args [] pagetable stackbase sp ustack s = Undef"
| "push_args (a # argv) pagetable stackbase sp ustack s =
     (if a = 0 then Ret (Some (sp, ustack), s)
      else if length ustack \<ge> MAXARG then Ret (None, s)
      else bindo (kstring a s) (\<lambda>bs.
        let sp = sp - of_nat (length bs);
            sp = sp - sp mod 16
        in if sp < stackbase then Ret (None, s)
           else bindo (copyout pagetable sp bs s) (\<lambda>(r, s).
             if r < 0 then Ret (None, s)
             else push_args argv pagetable stackbase sp (ustack @ [sp]) s)))"

text \<open>The last element of a path, for the name of the process.\<close>

fun last_elem :: "uchar list \<Rightarrow> uchar list \<Rightarrow> uchar list outcome" where
  "last_elem l [] = Undef"
| "last_elem l (c # cs) = (if c = 0 then Ret l else last_elem (if c = SLASH then cs else l) cs)"

section \<open>The system call\<close>

definition exec_bad :: "uint64 \<Rightarrow> uint64 \<Rightarrow> nat option \<Rightarrow> 'a fs_state_scheme \<Rightarrow> (int \<times> 'a fs_state_scheme) outcome" where
  "exec_bad pagetable sz ipo s =
     bindo (if pagetable \<noteq> 0 then proc_freepagetable pagetable sz s else Ret s) (\<lambda>s.
     bindo (case ipo of None \<Rightarrow> Ret s | Some ip \<Rightarrow> bindo (iunlockput ip s) end_op) (\<lambda>s.
     Ret (- 1, s)))"

text \<open>From the stack on, with the image of \<open>sz\<close> bytes loaded in \<open>pagetable\<close>.\<close>

definition exec_image :: "uchar list \<Rightarrow> uint64 list \<Rightarrow> uint64 \<Rightarrow> nat \<Rightarrow> uint64 \<Rightarrow> uint64 \<Rightarrow> 'a fs_state_scheme \<Rightarrow>
    (int \<times> 'a fs_state_scheme) outcome" where
  "exec_image path argv entry p pagetable sz s =
     (let oldsz = p_sz (procs s ! p);
          sz = PGROUNDUP sz
      in bindo (uvmalloc pagetable sz (sz + 2 * PGSIZE) PTE_W s) (\<lambda>(sz1, s).
         if sz1 = 0 then exec_bad pagetable sz None s
         else let sz = sz1
              in bindo (uvmclear pagetable (sz - 2 * PGSIZE) s) (\<lambda>s.
                 bindo (push_args argv pagetable (sz - PGSIZE) sz [] s) (\<lambda>(pushed, s).
                 case pushed of
                   None \<Rightarrow> exec_bad pagetable sz None s
                 | Some (sp, ustack) \<Rightarrow>
                     if length ustack \<ge> MAXARG then Undef
                     else
                     let argc = length ustack;
                         sp = sp - of_nat (argc + 1) * 8;
                         sp = sp - sp mod 16
                     in if sp < sz - PGSIZE then exec_bad pagetable sz None s
                        else bindo (copyout pagetable sp (concat (map (bytes_of 8) (ustack @ [0]))) s) (\<lambda>(r, s).
                          if r < 0 then exec_bad pagetable sz None s
                          else let s = tf_set p TF_a1 sp s
                               in bindo (last_elem path path) (\<lambda>last.
                                  bindo (safestrcpy (p_name (procs s ! p)) last 16) (\<lambda>nm.
                                    let s = upd_proc p (\<lambda>x. x\<lparr>p_name := nm\<rparr>) s;
                                        oldpagetable = p_pagetable (procs s ! p);
                                        s = upd_proc p (\<lambda>x. x\<lparr>p_pagetable := pagetable, p_sz := sz\<rparr>) s;
                                        s = tf_set p TF_sp sp (tf_set p TF_epc entry s)
                                    in bindo (proc_freepagetable oldpagetable oldsz s) (\<lambda>s.
                                       Ret (int argc, s)))))))))"

definition exec :: "ksyms \<Rightarrow> uchar list \<Rightarrow> uint64 list \<Rightarrow> 'a fs_state_scheme \<Rightarrow> (int \<times> 'a fs_state_scheme) outcome" where
  "exec K path argv s =
     (case myproc s of
        None \<Rightarrow> Undef
      | Some p \<Rightarrow>
          bindo (begin_op s) (\<lambda>s.
          bindo (namei path s) (\<lambda>(ipo, s).
            case ipo of
              None \<Rightarrow> bindo (end_op s) (\<lambda>s. Ret (- 1, s))
            | Some ip \<Rightarrow>
                bindo (ilock (Some ip) s) (\<lambda>s.
                bindo (readi ip (Local 0 (replicate 64 0)) 0 64 s) (\<lambda>(r, dst, s).
                  let elf = get_elfhdr (var_bytes dst)
                  in if r \<noteq> 64 then exec_bad 0 0 (Some ip) s
                     else if elf_magic elf \<noteq> ELF_MAGIC then exec_bad 0 0 (Some ip) s
                     else bindo (proc_pagetable K p s) (\<lambda>(pagetable, s).
                       if pagetable = 0 then exec_bad 0 0 (Some ip) s
                       else bindo (load_segments (unat (elf_phnum elf)) (ucast (elf_phoff elf)) ip pagetable 0 s) (\<lambda>(ok, sz, s).
                         if \<not> ok then exec_bad pagetable sz (Some ip) s
                         else bindo (iunlockput ip s) (\<lambda>s.
                              bindo (end_op s) (\<lambda>s.
                              exec_image path argv (elf_entry elf) p pagetable sz s)))))))))"

end
