(* ===== verification/Sysfile.thy ===== *)
theory Sysfile
  imports Exec
begin

text \<open>
  System calls: fetching the arguments (\<^verbatim>\<open>kernel/syscall.c\<close>), the calls on processes
  (\<^verbatim>\<open>kernel/sysproc.c\<close>) and on files (\<^verbatim>\<open>kernel/sysfile.c\<close>), and the dispatcher. A path copied to the
  kernel is the list of its bytes with the terminator. A call returns a value, or gives up the CPU
  having done part of its work, or never returns to its process.
\<close>

datatype sysret = Value uint64 | Wait nat | Gone

fun sys_run :: "(nat, int) run \<Rightarrow> sysret" where
  "sys_run (Done r) = Value (of_int r)"
| "sys_run (Blocked k) = Wait k"

abbreviation (input) MAXPATH :: nat where "MAXPATH \<equiv> 128"

text \<open>The return value of a call, and of its error exit.\<close>

abbreviation (input) "sys_ret r s \<equiv> Ret (Value (of_int r), s)"
abbreviation (input) "sys_fail s \<equiv> Ret (Value (- 1), s)"

section \<open>Arguments\<close>

definition fetchaddr :: "uint64 \<Rightarrow> 'a proc_state_scheme \<Rightarrow> uint64 option outcome" where
  "fetchaddr addr s =
     (case myproc s of
        None \<Rightarrow> Undef
      | Some p \<Rightarrow>
          if addr \<ge> p_sz (procs s ! p) \<or> addr + 8 > p_sz (procs s ! p) then Ret None
          else bindo (copyin (p_pagetable (procs s ! p)) addr 8 s) (\<lambda>(r, bs).
            Ret (if r \<noteq> 0 then None else Some (of_bytes bs))))"

text \<open>The string at \<open>addr\<close>: the return value, and the bytes stored in the buffer.\<close>

definition fetchstr :: "uint64 \<Rightarrow> nat \<Rightarrow> 'a proc_state_scheme \<Rightarrow> (int \<times> uchar list) outcome" where
  "fetchstr addr mx s =
     (case myproc s of
        None \<Rightarrow> Undef
      | Some p \<Rightarrow>
          bindo (copyinstr (p_pagetable (procs s ! p)) addr mx s) (\<lambda>(r, bs).
            if r < 0 then Ret (- 1, bs) else bindo (strlen bs) (\<lambda>n. Ret (int n, bs))))"

definition argraw :: "nat \<Rightarrow> 'a proc_state_scheme \<Rightarrow> uint64 outcome" where
  "argraw n s =
     (case myproc s of
        None \<Rightarrow> Undef
      | Some p \<Rightarrow> if n \<le> 5 then Ret (tf_get p (TF_a0 + 8 * of_nat n) s) else Panic ''argraw'')"

definition argint :: "nat \<Rightarrow> 'a proc_state_scheme \<Rightarrow> int outcome" where
  "argint n s = bindo (argraw n s) (\<lambda>w. Ret (sint (ucast w :: uint)))"

definition argaddr :: "nat \<Rightarrow> 'a proc_state_scheme \<Rightarrow> uint64 outcome" where
  "argaddr n s = argraw n s"

definition argstr :: "nat \<Rightarrow> nat \<Rightarrow> 'a proc_state_scheme \<Rightarrow> (int \<times> uchar list) outcome" where
  "argstr n mx s = bindo (argaddr n s) (\<lambda>addr. fetchstr addr mx s)"

text \<open>The descriptor and the file of argument \<open>n\<close>; None for the return value -1.\<close>

definition argfd :: "nat \<Rightarrow> 'a proc_state_scheme \<Rightarrow> (nat \<times> nat) option outcome" where
  "argfd n s =
     bindo (argint n s) (\<lambda>fd.
       if fd < 0 \<or> fd \<ge> int NOFILE then Ret None
       else case myproc s of
              None \<Rightarrow> Undef
            | Some p \<Rightarrow> Ret (map_option (\<lambda>f. (nat fd, f)) (p_ofile (procs s ! p) ! nat fd)))"

definition fdalloc :: "nat \<Rightarrow> 'a proc_state_scheme \<Rightarrow> (nat option \<times> 'a proc_state_scheme) outcome" where
  "fdalloc f s =
     (case myproc s of
        None \<Rightarrow> Undef
      | Some p \<Rightarrow>
          case find (\<lambda>fd. p_ofile (procs s ! p) ! fd = None) [0..<NOFILE] of
            None \<Rightarrow> Ret (None, s)
          | Some fd \<Rightarrow> Ret (Some fd, upd_proc p (\<lambda>x. x\<lparr>p_ofile := (p_ofile x)[fd := Some f]\<rparr>) s))"

text \<open>\<open>myproc()->ofile[fd] = 0\<close>.\<close>

definition clear_fd :: "nat \<Rightarrow> 'a proc_state_scheme \<Rightarrow> 'a proc_state_scheme outcome" where
  "clear_fd fd s =
     (case myproc s of
        None \<Rightarrow> Undef
      | Some p \<Rightarrow> Ret (upd_proc p (\<lambda>x. x\<lparr>p_ofile := (p_ofile x)[fd := None]\<rparr>) s))"

section \<open>Calls on descriptors\<close>

definition sys_dup :: "'a file_state_scheme \<Rightarrow> (sysret \<times> 'a file_state_scheme) outcome" where
  "sys_dup s =
     bindo (argfd 0 s) (\<lambda>a. case a of
       None \<Rightarrow> sys_fail s
     | Some (_, f) \<Rightarrow>
         bindo (fdalloc f s) (\<lambda>(fdo, s). case fdo of
           None \<Rightarrow> sys_fail s
         | Some fd \<Rightarrow> bindo (filedup f s) (\<lambda>s. sys_ret (int fd) s)))"

definition sys_read :: "'a file_state_scheme \<Rightarrow> (sysret \<times> 'a file_state_scheme) outcome" where
  "sys_read s =
     bindo (argaddr 1 s) (\<lambda>p.
     bindo (argint 2 s) (\<lambda>n.
     bindo (argfd 0 s) (\<lambda>a. case a of
       None \<Rightarrow> sys_fail s
     | Some (_, f) \<Rightarrow> bindo (fileread f p n s) (\<lambda>(r, s). Ret (sys_run r, s)))))"

definition sys_write :: "'a file_state_scheme \<Rightarrow> (sysret \<times> 'a file_state_scheme) outcome" where
  "sys_write s =
     bindo (argaddr 1 s) (\<lambda>p.
     bindo (argint 2 s) (\<lambda>n.
     bindo (argfd 0 s) (\<lambda>a. case a of
       None \<Rightarrow> sys_fail s
     | Some (_, f) \<Rightarrow> bindo (filewrite f p n s) (\<lambda>(r, s). Ret (sys_run r, s)))))"

definition sys_close :: "'a file_state_scheme \<Rightarrow> (sysret \<times> 'a file_state_scheme) outcome" where
  "sys_close s =
     bindo (argfd 0 s) (\<lambda>a. case a of
       None \<Rightarrow> sys_fail s
     | Some (fd, f) \<Rightarrow> bindo (clear_fd fd s) (\<lambda>s. bindo (fileclose f s) (\<lambda>s. sys_ret 0 s)))"

definition sys_fstat :: "uchar list \<Rightarrow> 'a file_state_scheme \<Rightarrow> (sysret \<times> 'a file_state_scheme) outcome" where
  "sys_fstat pad s =
     bindo (argaddr 1 s) (\<lambda>st.
     bindo (argfd 0 s) (\<lambda>a. case a of
       None \<Rightarrow> sys_fail s
     | Some (_, f) \<Rightarrow> bindo (filestat pad f st s) (\<lambda>(r, s). sys_ret r s)))"

section \<open>Links\<close>

text \<open>The error exit of \<open>sys_link\<close> after the link count has been raised.\<close>

definition link_bad :: "nat \<Rightarrow> 'a fs_state_scheme \<Rightarrow> (sysret \<times> 'a fs_state_scheme) outcome" where
  "link_bad ip s =
     bindo (ilock (Some ip) s) (\<lambda>s.
     bindo (iupdate ip (upd_inode ip (\<lambda>x. x\<lparr>i_nlink := i_nlink x - 1\<rparr>) s)) (\<lambda>s.
     bindo (iunlockput ip s) (\<lambda>s.
     bindo (end_op s) (\<lambda>s. sys_fail s))))"

definition sys_link :: "'a fs_state_scheme \<Rightarrow> (sysret \<times> 'a fs_state_scheme) outcome" where
  "sys_link s =
     bindo (argstr 0 MAXPATH s) (\<lambda>(r, old).
     if r < 0 then sys_fail s
     else bindo (argstr 1 MAXPATH s) (\<lambda>(r, new).
     if r < 0 then sys_fail s
     else bindo (begin_op s) (\<lambda>s.
     bindo (namei old s) (\<lambda>(ipo, s). case ipo of
       None \<Rightarrow> bindo (end_op s) (\<lambda>s. sys_fail s)
     | Some ip \<Rightarrow>
         bindo (ilock (Some ip) s) (\<lambda>s.
           if i_type (itable s ! ip) = T_DIR
           then bindo (iunlockput ip s) (\<lambda>s. bindo (end_op s) (\<lambda>s. sys_fail s))
           else bindo (iupdate ip (upd_inode ip (\<lambda>x. x\<lparr>i_nlink := i_nlink x + 1\<rparr>) s)) (\<lambda>s.
                bindo (iunlock (Some ip) s) (\<lambda>s.
                bindo (nameiparent new (replicate DIRSIZ 0) s) (\<lambda>(dpo, name, s). case dpo of
                  None \<Rightarrow> link_bad ip s
                | Some dp \<Rightarrow>
                    bindo (ilock (Some dp) s) (\<lambda>s.
                    bindo (if i_dev (itable s ! dp) \<noteq> i_dev (itable s ! ip) then Ret (- 1, s)
                           else dirlink dp name (i_inum (itable s ! ip)) s) (\<lambda>(r, s).
                      if r < 0 then bindo (iunlockput dp s) (link_bad ip)
                      else bindo (iunlockput dp s) (\<lambda>s.
                           bindo (iput ip s) (\<lambda>s.
                           bindo (end_op s) (\<lambda>s. sys_ret 0 s))))))))))))) "

text \<open>The loop of \<open>isdirempty\<close> over the offsets that remain.\<close>

fun isdirempty_loop :: "nat list \<Rightarrow> nat \<Rightarrow> 'a fs_state_scheme \<Rightarrow> (bool \<times> 'a fs_state_scheme) outcome" where
  "isdirempty_loop [] dp s = Ret (True, s)"
| "isdirempty_loop (off # offs) dp s =
     bindo (readi dp (Local 0 no_dirent) (of_nat off) 16 s) (\<lambda>(r, dst, s).
       if r \<noteq> 16 then Panic ''isdirempty: readi''
       else if de_inum (var_bytes dst) \<noteq> 0 then Ret (False, s)
       else isdirempty_loop offs dp s)"

definition isdirempty :: "nat \<Rightarrow> 'a fs_state_scheme \<Rightarrow> (bool \<times> 'a fs_state_scheme) outcome" where
  "isdirempty dp s = isdirempty_loop (drop 2 (dir_offs (i_size (itable s ! dp)))) dp s"

text \<open>The error exit of \<open>sys_unlink\<close>.\<close>

definition unlink_bad :: "nat \<Rightarrow> 'a fs_state_scheme \<Rightarrow> (sysret \<times> 'a fs_state_scheme) outcome" where
  "unlink_bad dp s = bindo (iunlockput dp s) (\<lambda>s. bindo (end_op s) (\<lambda>s. sys_fail s))"

definition sys_unlink :: "'a fs_state_scheme \<Rightarrow> (sysret \<times> 'a fs_state_scheme) outcome" where
  "sys_unlink s =
     bindo (argstr 0 MAXPATH s) (\<lambda>(r, path).
     if r < 0 then sys_fail s
     else bindo (begin_op s) (\<lambda>s.
     bindo (nameiparent path (replicate DIRSIZ 0) s) (\<lambda>(dpo, name, s). case dpo of
       None \<Rightarrow> bindo (end_op s) (\<lambda>s. sys_fail s)
     | Some dp \<Rightarrow>
         bindo (ilock (Some dp) s) (\<lambda>s.
         bindo (namecmp name (str ''.'' @ [0])) (\<lambda>c1.
         bindo (namecmp name (str ''..'' @ [0])) (\<lambda>c2.
           if c1 = 0 \<or> c2 = 0 then unlink_bad dp s
           else bindo (dirlookup dp name s) (\<lambda>(found, s). case found of
             None \<Rightarrow> unlink_bad dp s
           | Some (ip, off) \<Rightarrow>
               bindo (ilock (Some ip) s) (\<lambda>s.
                 if sint (i_nlink (itable s ! ip)) < 1 then Panic ''unlink: nlink < 1''
                 else bindo (if i_type (itable s ! ip) = T_DIR then isdirempty ip s else Ret (True, s)) (\<lambda>(empty, s).
                   if \<not> empty then bindo (iunlockput ip s) (unlink_bad dp)
                   else bindo (writei dp (Local 0 (replicate 16 0)) off 16 s) (\<lambda>(r, s).
                     if r \<noteq> 16 then Panic ''unlink: writei''
                     else bindo (if i_type (itable s ! ip) = T_DIR
                                 then iupdate dp (upd_inode dp (\<lambda>x. x\<lparr>i_nlink := i_nlink x - 1\<rparr>) s)
                                 else Ret s) (\<lambda>s.
                          bindo (iunlockput dp s) (\<lambda>s.
                          bindo (iupdate ip (upd_inode ip (\<lambda>x. x\<lparr>i_nlink := i_nlink x - 1\<rparr>) s)) (\<lambda>s.
                          bindo (iunlockput ip s) (\<lambda>s.
                          bindo (end_op s) (\<lambda>s. sys_ret 0 s)))))))))))))))"

section \<open>Creating and opening\<close>

text \<open>The error exit of \<open>create\<close> that gives the new inode back.\<close>

definition create_fail :: "nat \<Rightarrow> nat \<Rightarrow> 'a fs_state_scheme \<Rightarrow> (nat option \<times> 'a fs_state_scheme) outcome" where
  "create_fail ip dp s =
     bindo (iupdate ip (upd_inode ip (\<lambda>x. x\<lparr>i_nlink := 0\<rparr>) s)) (\<lambda>s.
     bindo (iunlockput ip s) (\<lambda>s.
     bindo (iunlockput dp s) (\<lambda>s. Ret (None, s))))"

definition create :: "uchar list \<Rightarrow> ushort \<Rightarrow> ushort \<Rightarrow> ushort \<Rightarrow> 'a fs_state_scheme \<Rightarrow> (nat option \<times> 'a fs_state_scheme) outcome" where
  "create path type major minor s =
     bindo (nameiparent path (replicate DIRSIZ 0) s) (\<lambda>(dpo, name, s). case dpo of
       None \<Rightarrow> Ret (None, s)
     | Some dp \<Rightarrow>
         bindo (ilock (Some dp) s) (\<lambda>s.
         bindo (dirlookup dp name s) (\<lambda>(found, s). case found of
           Some (ip, _) \<Rightarrow>
             bindo (iunlockput dp s) (\<lambda>s.
             bindo (ilock (Some ip) s) (\<lambda>s.
               if type = T_FILE \<and> (i_type (itable s ! ip) = T_FILE \<or> i_type (itable s ! ip) = T_DEVICE)
               then Ret (Some ip, s)
               else bindo (iunlockput ip s) (\<lambda>s. Ret (None, s))))
         | None \<Rightarrow>
             bindo (ialloc (i_dev (itable s ! dp)) type s) (\<lambda>(ipo, s). case ipo of
               None \<Rightarrow> bindo (iunlockput dp s) (\<lambda>s. Ret (None, s))
             | Some ip \<Rightarrow>
                 bindo (ilock (Some ip) s) (\<lambda>s.
                 bindo (iupdate ip (upd_inode ip (\<lambda>x. x\<lparr>i_major := major, i_minor := minor, i_nlink := 1\<rparr>) s)) (\<lambda>s.
                 bindo (if type = T_DIR
                        then bindo (dirlink ip (str ''.'' @ [0]) (i_inum (itable s ! ip)) s) (\<lambda>(r, s).
                             if r < 0 then Ret (r, s)
                             else dirlink ip (str ''..'' @ [0]) (i_inum (itable s ! dp)) s)
                        else Ret (0, s)) (\<lambda>(r, s).
                   if r < 0 then create_fail ip dp s
                   else bindo (dirlink dp name (i_inum (itable s ! ip)) s) (\<lambda>(r, s).
                     if r < 0 then create_fail ip dp s
                     else bindo (if type = T_DIR then iupdate dp (upd_inode dp (\<lambda>x. x\<lparr>i_nlink := i_nlink x + 1\<rparr>) s)
                                 else Ret s) (\<lambda>s.
                          bindo (iunlockput dp s) (\<lambda>s. Ret (Some ip, s)))))))))))"

abbreviation (input) O_WRONLY :: uint where "O_WRONLY \<equiv> 1"
abbreviation (input) O_RDWR :: uint where "O_RDWR \<equiv> 2"
abbreviation (input) O_CREATE :: uint where "O_CREATE \<equiv> 0x200"
abbreviation (input) O_TRUNC :: uint where "O_TRUNC \<equiv> 0x400"

text \<open>The first half of \<open>sys_open\<close>: the locked inode, or None after the error exit.\<close>

definition open_inode :: "uchar list \<Rightarrow> uint \<Rightarrow> 'a fs_state_scheme \<Rightarrow> (nat option \<times> 'a fs_state_scheme) outcome" where
  "open_inode path omode s =
     (if omode AND O_CREATE \<noteq> 0
      then bindo (create path T_FILE 0 0 s) (\<lambda>(ipo, s). case ipo of
        None \<Rightarrow> bindo (end_op s) (\<lambda>s. Ret (None, s))
      | Some ip \<Rightarrow> Ret (Some ip, s))
      else bindo (namei path s) (\<lambda>(ipo, s). case ipo of
        None \<Rightarrow> bindo (end_op s) (\<lambda>s. Ret (None, s))
      | Some ip \<Rightarrow>
          bindo (ilock (Some ip) s) (\<lambda>s.
            if i_type (itable s ! ip) = T_DIR \<and> omode \<noteq> 0
            then bindo (iunlockput ip s) (\<lambda>s. bindo (end_op s) (\<lambda>s. Ret (None, s)))
            else Ret (Some ip, s))))"

definition sys_open :: "'a file_state_scheme \<Rightarrow> (sysret \<times> 'a file_state_scheme) outcome" where
  "sys_open s =
     bindo (argint 1 s) (\<lambda>om.
     bindo (argstr 0 MAXPATH s) (\<lambda>(n, path).
     if n < 0 then sys_fail s
     else let omode = word_of_int om in
     bindo (begin_op s) (\<lambda>s.
     bindo (open_inode path omode s) (\<lambda>(ipo, s). case ipo of
       None \<Rightarrow> sys_fail s
     | Some ip \<Rightarrow>
         let fail = (\<lambda>s. bindo (iunlockput ip s) (\<lambda>s. bindo (end_op s) (\<lambda>s. sys_fail s)));
             major = i_major (itable s ! ip)
         in if i_type (itable s ! ip) = T_DEVICE \<and> (sint major < 0 \<or> sint major \<ge> int NDEV) then fail s
            else case filealloc s of
              (None, s) \<Rightarrow> fail s
            | (Some f, s) \<Rightarrow>
                bindo (fdalloc f s) (\<lambda>(fdo, s). case fdo of
                  None \<Rightarrow> bindo (fileclose f s) fail
                | Some fd \<Rightarrow>
                    let s = (if i_type (itable s ! ip) = T_DEVICE
                             then upd_file f (\<lambda>x. x\<lparr>f_type := FD_DEVICE, f_major := i_major (itable s ! ip)\<rparr>) s
                             else upd_file f (\<lambda>x. x\<lparr>f_type := FD_INODE, f_off := 0\<rparr>) s);
                        s = upd_file f (\<lambda>x. x\<lparr>f_ip := ip, f_readable := omode AND O_WRONLY = 0,
                               f_writable := omode AND O_WRONLY \<noteq> 0 \<or> omode AND O_RDWR \<noteq> 0\<rparr>) s
                    in bindo (if omode AND O_TRUNC \<noteq> 0 \<and> i_type (itable s ! ip) = T_FILE then itrunc ip s else Ret s) (\<lambda>s.
                       bindo (iunlock (Some ip) s) (\<lambda>s.
                       bindo (end_op s) (\<lambda>s. sys_ret (int fd) s))))))))"

definition sys_mkdir :: "'a fs_state_scheme \<Rightarrow> (sysret \<times> 'a fs_state_scheme) outcome" where
  "sys_mkdir s =
     bindo (begin_op s) (\<lambda>s.
     bindo (argstr 0 MAXPATH s) (\<lambda>(r, path).
     bindo (if r < 0 then Ret (None, s) else create path T_DIR 0 0 s) (\<lambda>(ipo, s). case ipo of
       None \<Rightarrow> bindo (end_op s) (\<lambda>s. sys_fail s)
     | Some ip \<Rightarrow> bindo (iunlockput ip s) (\<lambda>s. bindo (end_op s) (\<lambda>s. sys_ret 0 s)))))"

definition sys_mknod :: "'a fs_state_scheme \<Rightarrow> (sysret \<times> 'a fs_state_scheme) outcome" where
  "sys_mknod s =
     bindo (begin_op s) (\<lambda>s.
     bindo (argint 1 s) (\<lambda>major.
     bindo (argint 2 s) (\<lambda>minor.
     bindo (argstr 0 MAXPATH s) (\<lambda>(r, path).
     bindo (if r < 0 then Ret (None, s)
            else create path T_DEVICE (word_of_int major) (word_of_int minor) s) (\<lambda>(ipo, s). case ipo of
       None \<Rightarrow> bindo (end_op s) (\<lambda>s. sys_fail s)
     | Some ip \<Rightarrow> bindo (iunlockput ip s) (\<lambda>s. bindo (end_op s) (\<lambda>s. sys_ret 0 s)))))))"

definition sys_chdir :: "'a fs_state_scheme \<Rightarrow> (sysret \<times> 'a fs_state_scheme) outcome" where
  "sys_chdir s =
     (case myproc s of
        None \<Rightarrow> Undef
      | Some p \<Rightarrow>
          bindo (begin_op s) (\<lambda>s.
          bindo (argstr 0 MAXPATH s) (\<lambda>(r, path).
          bindo (if r < 0 then Ret (None, s) else namei path s) (\<lambda>(ipo, s). case ipo of
            None \<Rightarrow> bindo (end_op s) (\<lambda>s. sys_fail s)
          | Some ip \<Rightarrow>
              bindo (ilock (Some ip) s) (\<lambda>s.
                if i_type (itable s ! ip) \<noteq> T_DIR
                then bindo (iunlockput ip s) (\<lambda>s. bindo (end_op s) (\<lambda>s. sys_fail s))
                else bindo (iunlock (Some ip) s) (\<lambda>s.
                     bindo (case p_cwd (procs s ! p) of None \<Rightarrow> Undef | Some d \<Rightarrow> iput d s) (\<lambda>s.
                     bindo (end_op s) (\<lambda>s.
                     sys_ret 0 (upd_proc p (\<lambda>x. x\<lparr>p_cwd := Some ip\<rparr>) s)))))))))"

section \<open>Executing and pipes\<close>

text \<open>
  The loop of \<open>sys_exec\<close> with \<open>k\<close> entries of \<open>argv\<close> left: whether it met the null pointer, and the
  pages it has filled.
\<close>

fun fetch_args :: "nat \<Rightarrow> uint64 \<Rightarrow> uint64 list \<Rightarrow> 'a proc_state_scheme \<Rightarrow> (bool \<times> uint64 list \<times> 'a proc_state_scheme) outcome" where
  "fetch_args 0 uargv argv s = Ret (False, argv, s)"
| "fetch_args (Suc k) uargv argv s =
     bindo (fetchaddr (uargv + 8 * of_nat (length argv)) s) (\<lambda>uargo. case uargo of
       None \<Rightarrow> Ret (False, argv, s)
     | Some uarg \<Rightarrow>
         if uarg = 0 then Ret (True, argv, s)
         else let (pg, s) = kalloc s
              in if pg = 0 then Ret (False, argv, s)
                 else bindo (fetchstr uarg 4096 s) (\<lambda>(r, bs).
                   let s = s\<lparr>mem := store_bytes (mem s) pg bs\<rparr>
                   in if r < 0 then Ret (False, argv @ [pg], s)
                      else fetch_args k uargv (argv @ [pg]) s))"

definition sys_exec :: "ksyms \<Rightarrow> 'a fs_state_scheme \<Rightarrow> (sysret \<times> 'a fs_state_scheme) outcome" where
  "sys_exec K s =
     bindo (argaddr 1 s) (\<lambda>uargv.
     bindo (argstr 0 MAXPATH s) (\<lambda>(r, path).
     if r < 0 then sys_fail s
     else bindo (fetch_args MAXARG uargv [] s) (\<lambda>(ok, argv, s).
       if \<not> ok then bindo (foldo kfree argv s) (\<lambda>s. sys_fail s)
       else bindo (exec K path (argv @ replicate (MAXARG - length argv) 0) s) (\<lambda>(ret, s).
            bindo (foldo kfree argv s) (\<lambda>s. sys_ret ret s)))))"

definition sys_pipe :: "'a file_state_scheme \<Rightarrow> (sysret \<times> 'a file_state_scheme) outcome" where
  "sys_pipe s =
     bindo (argaddr 0 s) (\<lambda>fdarray.
     bindo (pipealloc s) (\<lambda>(fs, s). case fs of
       None \<Rightarrow> sys_fail s
     | Some (rd, wr) \<Rightarrow>
         let fail = (\<lambda>s. bindo (fileclose rd s) (\<lambda>s. bindo (fileclose wr s) (\<lambda>s. sys_fail s)))
         in bindo (fdalloc rd s) (\<lambda>(fd0o, s). case fd0o of
              None \<Rightarrow> fail s
            | Some fd0 \<Rightarrow>
                bindo (fdalloc wr s) (\<lambda>(fd1o, s). case fd1o of
                  None \<Rightarrow> bindo (clear_fd fd0 s) fail
                | Some fd1 \<Rightarrow>
                    case myproc s of
                      None \<Rightarrow> Undef
                    | Some p \<Rightarrow>
                        let pt = p_pagetable (procs s ! p); bad = (\<lambda>s. bindo (clear_fd fd0 s) (\<lambda>s. bindo (clear_fd fd1 s) fail))
                        in bindo (copyout pt fdarray (bytes_of 4 (of_nat fd0 :: uint)) s) (\<lambda>(r, s).
                             if r < 0 then bad s
                             else bindo (copyout pt (fdarray + 4) (bytes_of 4 (of_nat fd1 :: uint)) s) (\<lambda>(r, s).
                               if r < 0 then bad s else sys_ret 0 s))))))"

section \<open>Calls on processes\<close>

definition sys_exit :: "'a file_state_scheme \<Rightarrow> (sysret \<times> 'a file_state_scheme) outcome" where
  "sys_exit s = bindo (argint 0 s) (\<lambda>n. bindo (exit n s) (\<lambda>s. Ret (Gone, s)))"

definition sys_getpid :: "'a proc_state_scheme \<Rightarrow> (sysret \<times> 'a proc_state_scheme) outcome" where
  "sys_getpid s = bindo (mypid s) (\<lambda>pid. sys_ret pid s)"

definition sys_fork :: "ksyms \<Rightarrow> 'a file_state_scheme \<Rightarrow> (sysret \<times> 'a file_state_scheme) outcome" where
  "sys_fork K s = bindo (fork K s) (\<lambda>(r, s). sys_ret r s)"

definition sys_wait :: "'a proc_state_scheme \<Rightarrow> (sysret \<times> 'a proc_state_scheme) outcome" where
  "sys_wait s = bindo (argaddr 0 s) (\<lambda>p. bindo (wait p s) (\<lambda>(r, s). sys_ret r s))"

definition sys_sbrk :: "'a proc_state_scheme \<Rightarrow> (sysret \<times> 'a proc_state_scheme) outcome" where
  "sys_sbrk s =
     bindo (argint 0 s) (\<lambda>n. case myproc s of
       None \<Rightarrow> Undef
     | Some p \<Rightarrow>
         let addr = p_sz (procs s ! p)
         in bindo (growproc n s) (\<lambda>(r, s). if r < 0 then sys_fail s else Ret (Value addr, s)))"

text \<open>
  The loop of \<open>sys_sleep\<close>, which began at \<open>ticks0\<close>. The comparison is one of unsigned numbers: a
  negative argument waits for almost \<open>2 ^ 32\<close> ticks.
\<close>

definition sleep_until :: "uint \<Rightarrow> int \<Rightarrow> 'a proc_state_scheme \<Rightarrow> (sysret \<times> 'a proc_state_scheme) outcome" where
  "sleep_until ticks0 n s =
     (if ticks s - ticks0 < word_of_int n
      then case myproc s of
             None \<Rightarrow> Undef
           | Some p \<Rightarrow>
               if killed p s \<noteq> 0 then sys_fail s
               else bindo (sleep ChTicks s) (\<lambda>s. Ret (Wait (unat ticks0), s))
      else sys_ret 0 s)"

definition sys_sleep :: "'a proc_state_scheme \<Rightarrow> (sysret \<times> 'a proc_state_scheme) outcome" where
  "sys_sleep s = bindo (argint 0 s) (\<lambda>n. sleep_until (ticks s) n s)"

definition sys_kill :: "'a proc_state_scheme \<Rightarrow> (sysret \<times> 'a proc_state_scheme) outcome" where
  "sys_kill s = bindo (argint 0 s) (\<lambda>pid. let (r, s) = kill pid s in sys_ret r s)"

definition sys_uptime :: "'a proc_state_scheme \<Rightarrow> (sysret \<times> 'a proc_state_scheme) outcome" where
  "sys_uptime s = Ret (Value (ucast (ticks s)), s)"

section \<open>Dispatch\<close>

definition syscalls :: "ksyms \<Rightarrow> uchar list \<Rightarrow> ('a file_state_scheme \<Rightarrow> (sysret \<times> 'a file_state_scheme) outcome) option list" where
  "syscalls K pad =
     [None, Some (sys_fork K), Some sys_exit, Some sys_wait, Some sys_pipe, Some sys_read, Some sys_kill, Some (sys_exec K),
      Some (sys_fstat pad), Some sys_chdir, Some sys_dup, Some sys_getpid, Some sys_sbrk, Some sys_sleep, Some sys_uptime,
      Some sys_open, Some sys_write, Some sys_mknod, Some sys_unlink, Some sys_link, Some sys_mkdir, Some sys_close]"

text \<open>True when the call has returned to its process.\<close>

definition syscall :: "ksyms \<Rightarrow> uchar list \<Rightarrow> 'a file_state_scheme \<Rightarrow> (bool \<times> 'a file_state_scheme) outcome" where
  "syscall K pad s =
     (case myproc s of
        None \<Rightarrow> Undef
      | Some p \<Rightarrow>
          let num = sint (ucast (tf_get p TF_a7 s) :: uint);
              calls = syscalls K pad
          in if 0 < num \<and> num < int (length calls) \<and> calls ! nat num \<noteq> None
             then bindo (the (calls ! nat num) s) (\<lambda>(r, s). case r of
               Value v \<Rightarrow> Ret (True, tf_set p TF_a0 v s)
             | _ \<Rightarrow> Ret (False, s))
             else bindo (printf (str ''%d %s: unknown sys call %d'' @ [0x0a, 0])
                          [Num (word_of_int (p_pid (procs s ! p))), Str (Some (p_name (procs s ! p))), Num (word_of_int num)] s)
                    (\<lambda>s. Ret (True, tf_set p TF_a0 (- 1) s)))"

end
