(* ===== verification/Virtio.thy ===== *)
theory Virtio
  imports Sysfile
begin

text \<open>
  The disk driver, \<^verbatim>\<open>kernel/virtio_disk.c\<close>. The queue shared with the device is modelled by its
  structures: the descriptor table, the ring of available requests and the ring of used ones. The
  addresses in a descriptor can only be those of a request header, of a buffer's data and of a status
  byte. The device is outside the program; what it reads of its registers is a parameter of
  \<open>virtio_disk_init\<close>, what is written to them is collected in \<open>vd_regs\<close>. The field \<open>disk\<close> of
  \<^verbatim>\<open>struct buf\<close>, which only the driver uses, is \<open>vd_owns\<close>.

  The buffer cache treats a completed transfer as one step; here is how it comes about: a request is
  put into the queue, the process sleeps, the interrupt handler marks it done, the process returns
  the descriptors.
\<close>

section \<open>Data\<close>

abbreviation (input) NUM :: nat where "NUM \<equiv> 8"
abbreviation (input) VRING_DESC_F_NEXT :: ushort where "VRING_DESC_F_NEXT \<equiv> 1"
abbreviation (input) VRING_DESC_F_WRITE :: ushort where "VRING_DESC_F_WRITE \<equiv> 2"

datatype vaddr = VNull | VReq nat | VData nat | VStatus nat

record virtq_desc =
  vq_addr :: vaddr
  vq_len :: uint
  vq_flags :: ushort
  vq_next :: ushort

record virtio_blk_req =
  rq_type :: uint
  rq_reserved :: uint
  rq_sector :: uint64

record vd_state = file_state +
  vd_desc :: "nat \<Rightarrow> virtq_desc"
  vd_avail_idx :: ushort
  vd_avail :: "nat \<Rightarrow> ushort"
  vd_used_idx :: ushort
  vd_used :: "nat \<Rightarrow> uint"
  vd_free :: "nat \<Rightarrow> bool"
  vd_seen :: ushort
  vd_info_b :: "nat \<Rightarrow> nat option"
  vd_status :: "nat \<Rightarrow> uchar"
  vd_ops :: "nat \<Rightarrow> virtio_blk_req"
  vd_owns :: "nat \<Rightarrow> bool"
  vd_regs :: "(nat \<times> uint) list"

definition write_reg :: "nat \<Rightarrow> uint \<Rightarrow> 'a vd_state_scheme \<Rightarrow> 'a vd_state_scheme" where
  "write_reg r v s = s\<lparr>vd_regs := vd_regs s @ [(r, v)]\<rparr>"

section \<open>Initialisation\<close>

text \<open>The feature bits the driver declines.\<close>

definition declined :: uint where
  "declined = push_bit 5 1 OR push_bit 7 1 OR push_bit 11 1 OR push_bit 12 1 OR push_bit 27 1 OR push_bit 29 1 OR push_bit 28 1"

definition empty_desc :: virtq_desc where
  "empty_desc = \<lparr>vq_addr = VNull, vq_len = 0, vq_flags = 0, vq_next = 0\<rparr>"

text \<open>
  \<open>R\<close> gives the value read from a register, \<open>fok\<close> that of the status register when it is read back.
  The three pages of the queue come from the allocator; their contents are the structures above.
\<close>

definition virtio_disk_init :: "(nat \<Rightarrow> uint) \<Rightarrow> uint \<Rightarrow> 'a vd_state_scheme \<Rightarrow> 'a vd_state_scheme outcome" where
  "virtio_disk_init R fok s =
     (if R 0x000 \<noteq> 0x74726976 \<or> R 0x004 \<noteq> 2 \<or> R 0x008 \<noteq> 2 \<or> R 0x00c \<noteq> 0x554d4551
      then Panic ''could not find virtio disk''
      else
        let s = write_reg 0x070 0 s;
            s = write_reg 0x070 1 s;
            s = write_reg 0x070 (1 OR 2) s;
            s = write_reg 0x020 (R 0x010 AND NOT declined) s;
            s = write_reg 0x070 (1 OR 2 OR 8) s
        in if fok AND 8 = 0 then Panic ''virtio disk FEATURES_OK unset''
           else
             let s = write_reg 0x030 0 s
             in if R 0x044 \<noteq> 0 then Panic ''virtio disk should not be ready''
                else if R 0x034 = 0 then Panic ''virtio disk has no queue 0''
                else if R 0x034 < of_nat NUM then Panic ''virtio disk max queue too short''
                else
                  let (desc, s) = kalloc s;
                      (avail, s) = kalloc s;
                      (used, s) = kalloc s
                  in if desc = 0 \<or> avail = 0 \<or> used = 0 then Panic ''virtio disk kalloc''
                     else
                       let s = s\<lparr>mem := memset (memset (memset (mem s) desc 0 4096) avail 0 4096) used 0 4096\<rparr>;
                           s = s\<lparr>vd_desc := (\<lambda>_. empty_desc), vd_avail_idx := 0, vd_avail := (\<lambda>_. 0),
                                 vd_used_idx := 0, vd_used := (\<lambda>_. 0)\<rparr>;
                           s = write_reg 0x038 (of_nat NUM) s;
                           s = write_reg 0x080 (ucast desc) s;
                           s = write_reg 0x084 (ucast (drop_bit 32 desc)) s;
                           s = write_reg 0x090 (ucast avail) s;
                           s = write_reg 0x094 (ucast (drop_bit 32 avail)) s;
                           s = write_reg 0x0a0 (ucast used) s;
                           s = write_reg 0x0a4 (ucast (drop_bit 32 used)) s;
                           s = write_reg 0x044 1 s;
                           s = s\<lparr>vd_free := (\<lambda>i. i < NUM \<or> vd_free s i)\<rparr>
                       in Ret (write_reg 0x070 (fok OR 4) s))"

section \<open>Descriptors\<close>

definition alloc_desc :: "'a vd_state_scheme \<Rightarrow> nat option \<times> 'a vd_state_scheme" where
  "alloc_desc s =
     (case find (vd_free s) [0..<NUM] of
        None \<Rightarrow> (None, s)
      | Some i \<Rightarrow> (Some i, s\<lparr>vd_free := (vd_free s)(i := False)\<rparr>))"

definition free_desc :: "nat \<Rightarrow> 'a vd_state_scheme \<Rightarrow> 'a vd_state_scheme outcome" where
  "free_desc i s =
     (if i \<ge> NUM then Panic ''free_desc 1''
      else if vd_free s i then Panic ''free_desc 2''
      else Ret (wakeup ChDiskFree (s\<lparr>vd_desc := (vd_desc s)(i := empty_desc), vd_free := (vd_free s)(i := True)\<rparr>)))"

text \<open>The descriptors in use; freeing one leaves fewer, so a chain is freed in finitely many steps.\<close>

definition busy :: "'a vd_state_scheme \<Rightarrow> nat set" where
  "busy s = {i. i < NUM \<and> \<not> vd_free s i}"

lemma finite_busy [simp]: "finite (busy s)"
  by (simp add: busy_def)

lemma vd_wakeup [simp]:
  "vd_desc (wakeup ch s) = vd_desc s" "vd_avail_idx (wakeup ch s) = vd_avail_idx s" "vd_avail (wakeup ch s) = vd_avail s"
  "vd_used_idx (wakeup ch s) = vd_used_idx s" "vd_used (wakeup ch s) = vd_used s" "vd_free (wakeup ch s) = vd_free s"
  "vd_seen (wakeup ch s) = vd_seen s" "vd_info_b (wakeup ch s) = vd_info_b s" "vd_status (wakeup ch s) = vd_status s"
  "vd_ops (wakeup ch s) = vd_ops s" "vd_owns (wakeup ch s) = vd_owns s" "vd_regs (wakeup ch s) = vd_regs s"
  by (simp_all add: wakeup_def)

lemma free_desc_busy: "free_desc i s = Ret s' \<Longrightarrow> busy s = insert i (busy s') \<and> i \<notin> busy s'"
  by (auto simp: free_desc_def busy_def split: if_splits)

lemma free_desc_card: "free_desc i s = Ret s' \<Longrightarrow> card (busy s') < card (busy s)"
  using free_desc_busy[of i s s'] by auto

function free_chain :: "nat \<Rightarrow> 'a vd_state_scheme \<Rightarrow> 'a vd_state_scheme outcome" where
  "free_chain i s =
     (let flag = vq_flags (vd_desc s i);
          nxt = vq_next (vd_desc s i)
      in bindo (free_desc i s) (\<lambda>s.
           if flag AND VRING_DESC_F_NEXT \<noteq> 0 then free_chain (unat nxt) s else Ret s))"
  by pat_completeness auto
termination
  by (relation "measure (\<lambda>(i, s). card (busy s))") (auto dest: free_desc_card)

declare free_chain.simps [simp del]

text \<open>Three descriptors, or None after giving back those already taken.\<close>

definition alloc3_desc :: "'a vd_state_scheme \<Rightarrow> ((nat \<times> nat \<times> nat) option \<times> 'a vd_state_scheme) outcome" where
  "alloc3_desc s =
     (case alloc_desc s of
        (None, s) \<Rightarrow> Ret (None, s)
      | (Some i0, s) \<Rightarrow>
          case alloc_desc s of
            (None, s) \<Rightarrow> bindo (free_desc i0 s) (\<lambda>s. Ret (None, s))
          | (Some i1, s) \<Rightarrow>
              case alloc_desc s of
                (None, s) \<Rightarrow> bindo (free_desc i0 s) (\<lambda>s. bindo (free_desc i1 s) (\<lambda>s. Ret (None, s)))
              | (Some i2, s) \<Rightarrow> Ret (Some (i0, i1, i2), s))"

section \<open>Requests\<close>

text \<open>
  \<open>virtio_disk_rw\<close> up to its wait: the head of the chain it has put into the queue, or None if it
  sleeps for free descriptors and tries again.
\<close>

definition virtio_disk_rw :: "nat \<Rightarrow> bool \<Rightarrow> 'a vd_state_scheme \<Rightarrow> (nat option \<times> 'a vd_state_scheme) outcome" where
  "virtio_disk_rw b write s =
     (let sector = ucast (b_blockno (bcache s ! b) * 2) :: uint64
      in bindo (alloc3_desc s) (\<lambda>(idx, s). case idx of
           None \<Rightarrow> bindo (sleep ChDiskFree s) (\<lambda>s. Ret (None, s))
         | Some (i0, i1, i2) \<Rightarrow>
             let s = s\<lparr>vd_ops := (vd_ops s)(i0 := \<lparr>rq_type = (if write then 1 else 0), rq_reserved = 0, rq_sector = sector\<rparr>)\<rparr>;
                 s = s\<lparr>vd_desc := (vd_desc s)(i0 := \<lparr>vq_addr = VReq i0, vq_len = 16, vq_flags = VRING_DESC_F_NEXT, vq_next = of_nat i1\<rparr>)\<rparr>;
                 s = s\<lparr>vd_desc := (vd_desc s)(i1 := \<lparr>vq_addr = VData b, vq_len = of_nat BSIZE,
                        vq_flags = (if write then 0 else VRING_DESC_F_WRITE) OR VRING_DESC_F_NEXT, vq_next = of_nat i2\<rparr>)\<rparr>;
                 s = s\<lparr>vd_status := (vd_status s)(i0 := 0xff)\<rparr>;
                 s = s\<lparr>vd_desc := (vd_desc s)(i2 := \<lparr>vq_addr = VStatus i0, vq_len = 1, vq_flags = VRING_DESC_F_WRITE, vq_next = 0\<rparr>)\<rparr>;
                 s = s\<lparr>vd_owns := (vd_owns s)(b := True), vd_info_b := (vd_info_b s)(i0 := Some b)\<rparr>;
                 s = s\<lparr>vd_avail := (vd_avail s)(unat (vd_avail_idx s) mod NUM := of_nat i0)\<rparr>;
                 s = s\<lparr>vd_avail_idx := vd_avail_idx s + 1\<rparr>
             in Ret (Some i0, write_reg 0x050 0 s)))"

text \<open>From the wait on, each time the process runs.\<close>

definition virtio_disk_rw_done :: "nat \<Rightarrow> nat \<Rightarrow> 'a vd_state_scheme \<Rightarrow> 'a vd_state_scheme outcome" where
  "virtio_disk_rw_done b i0 s =
     (if vd_owns s b then Sleeps
      else free_chain i0 (s\<lparr>vd_info_b := (vd_info_b s)(i0 := None)\<rparr>))"

text \<open>The loop of the interrupt handler over the \<open>k\<close> entries the device has added to the used ring.\<close>

primrec intr_loop :: "nat \<Rightarrow> 'a vd_state_scheme \<Rightarrow> 'a vd_state_scheme outcome" where
  "intr_loop 0 s = Ret s"
| "intr_loop (Suc k) s =
     (let id = unat (vd_used s (unat (vd_seen s) mod NUM))
      in if vd_status s id \<noteq> 0 then Panic ''virtio_disk_intr status''
         else case vd_info_b s id of
                None \<Rightarrow> Undef
              | Some b \<Rightarrow>
                  let s = wakeup (ChBuf b) (s\<lparr>vd_owns := (vd_owns s)(b := False)\<rparr>)
                  in intr_loop k (s\<lparr>vd_seen := vd_seen s + 1\<rparr>))"

definition virtio_disk_intr :: "uint \<Rightarrow> 'a vd_state_scheme \<Rightarrow> 'a vd_state_scheme outcome" where
  "virtio_disk_intr status s =
     (let s = write_reg 0x064 (status AND 3) s
      in intr_loop (unat (vd_used_idx s - vd_seen s)) s)"

end
