(* ===== verification/Trap.thy ===== *)
theory Trap
  imports Virtio
begin

text \<open>
  Traps, \<^verbatim>\<open>kernel/trap.c\<close>, the interrupt controller, \<^verbatim>\<open>kernel/plic.c\<close>, and the start of the kernel,
  \<^verbatim>\<open>kernel/main.c\<close>. The state adds the supervisor registers of the CPU and the registers of the
  controller: \<open>plic_irq\<close> is what the claim register holds, \<open>plic_regs\<close> collects what is written.
\<close>

section \<open>Registers\<close>

record trap_state = vd_state +
  sstatus :: uint64
  sepc :: uint64
  scause :: uint64
  stval :: uint64
  stvec :: uint64
  satp :: uint64
  sip :: uint64
  hartid :: uint64
  plic_irq :: uint
  plic_regs :: "(uint64 \<times> uint) list"
  vd_irqstatus :: uint

abbreviation (input) SSTATUS_SIE :: uint64 where "SSTATUS_SIE \<equiv> 2"
abbreviation (input) SSTATUS_SPIE :: uint64 where "SSTATUS_SPIE \<equiv> 32"
abbreviation (input) SSTATUS_SPP :: uint64 where "SSTATUS_SPP \<equiv> 256"
abbreviation (input) UART0_IRQ :: nat where "UART0_IRQ \<equiv> 10"
abbreviation (input) VIRTIO0_IRQ :: nat where "VIRTIO0_IRQ \<equiv> 1"

definition MAKE_SATP :: "uint64 \<Rightarrow> uint64" where
  "MAKE_SATP pagetable = push_bit 60 8 OR drop_bit 12 pagetable"

definition intr_get :: "'a trap_state_scheme \<Rightarrow> bool" where
  "intr_get s \<longleftrightarrow> sstatus s AND SSTATUS_SIE \<noteq> 0"

definition intr_on :: "'a trap_state_scheme \<Rightarrow> 'a trap_state_scheme" where
  "intr_on s = s\<lparr>sstatus := sstatus s OR SSTATUS_SIE\<rparr>"

definition intr_off :: "'a trap_state_scheme \<Rightarrow> 'a trap_state_scheme" where
  "intr_off s = s\<lparr>sstatus := sstatus s AND NOT SSTATUS_SIE\<rparr>"

section \<open>The interrupt controller\<close>

definition plic_write :: "uint64 \<Rightarrow> uint \<Rightarrow> 'a trap_state_scheme \<Rightarrow> 'a trap_state_scheme" where
  "plic_write a v s = s\<lparr>plic_regs := plic_regs s @ [(a, v)]\<rparr>"

definition plicinit :: "'a trap_state_scheme \<Rightarrow> 'a trap_state_scheme" where
  "plicinit s = plic_write (PLIC + of_nat VIRTIO0_IRQ * 4) 1 (plic_write (PLIC + of_nat UART0_IRQ * 4) 1 s)"

definition plicinithart :: "'a trap_state_scheme \<Rightarrow> 'a trap_state_scheme" where
  "plicinithart s =
     plic_write (PLIC + 0x201000 + hartid s * 0x2000) 0
       (plic_write (PLIC + 0x2080 + hartid s * 0x100) (push_bit UART0_IRQ 1 OR push_bit VIRTIO0_IRQ 1) s)"

definition plic_claim :: "'a trap_state_scheme \<Rightarrow> uint" where
  "plic_claim s = plic_irq s"

definition plic_complete :: "uint \<Rightarrow> 'a trap_state_scheme \<Rightarrow> 'a trap_state_scheme" where
  "plic_complete irq s = plic_write (PLIC + 0x201004 + hartid s * 0x2000) irq s"

section \<open>Device interrupts\<close>

definition trapinithart :: "ksyms \<Rightarrow> 'a trap_state_scheme \<Rightarrow> 'a trap_state_scheme" where
  "trapinithart K s = s\<lparr>stvec := k_kernelvec K\<rparr>"

definition clockintr :: "'a proc_state_scheme \<Rightarrow> 'a proc_state_scheme" where
  "clockintr s = wakeup ChTicks (s\<lparr>ticks := ticks s + 1\<rparr>)"

definition devintr :: "'a trap_state_scheme \<Rightarrow> (nat \<times> 'a trap_state_scheme) outcome" where
  "devintr s =
     (if scause s AND 0x8000000000000000 \<noteq> 0 \<and> scause s AND 0xff = 9
      then let irq = plic_claim s
           in bindo (if irq = of_nat UART0_IRQ then uartintr s
                     else if irq = of_nat VIRTIO0_IRQ then virtio_disk_intr (vd_irqstatus s) s
                     else if irq \<noteq> 0 then printf (str ''unexpected interrupt irq=%d'' @ [0x0a, 0]) [Num (ucast irq)] s
                     else Ret s) (\<lambda>s.
                Ret (1, if irq \<noteq> 0 then plic_complete irq s else s))
      else if scause s = 0x8000000000000001
      then let s = (if hartid s = 0 then clockintr s else s)
           in Ret (2, s\<lparr>sip := sip s AND NOT 2\<rparr>)
      else Ret (0, s))"

section \<open>Traps from and to user space\<close>

text \<open>
  Where the CPU goes: back to user space with the given page table register, to the scheduler with
  the process gone, to the scheduler until the process is chosen again and then on with
  \<open>usertrapret\<close>, or to the scheduler in the middle of a system call.
\<close>

datatype trapret = ToUser uint64 | Exited | Yielded | Waiting

definition usertrapret :: "ksyms \<Rightarrow> 'a trap_state_scheme \<Rightarrow> (trapret \<times> 'a trap_state_scheme) outcome" where
  "usertrapret K s =
     (case myproc s of
        None \<Rightarrow> Undef
      | Some p \<Rightarrow>
          let s = intr_off s;
              s = s\<lparr>stvec := TRAMPOLINE + (k_uservec K - k_trampoline K)\<rparr>;
              s = tf_set p TF_kernel_satp (satp s) s;
              s = tf_set p TF_kernel_sp (p_kstack (procs s ! p) + PGSIZE) s;
              s = tf_set p TF_kernel_trap (k_usertrap K) s;
              s = tf_set p TF_kernel_hartid (hartid s) s;
              s = s\<lparr>sstatus := (sstatus s AND NOT SSTATUS_SPP) OR SSTATUS_SPIE\<rparr>;
              s = s\<lparr>sepc := tf_get p TF_epc s\<rparr>
          in Ret (ToUser (MAKE_SATP (p_pagetable (procs s ! p))), s))"

text \<open>The end of \<open>usertrap\<close>: a killed process exits, a timer interrupt gives up the CPU.\<close>

definition usertrap_end :: "ksyms \<Rightarrow> nat \<Rightarrow> nat \<Rightarrow> 'a trap_state_scheme \<Rightarrow> (trapret \<times> 'a trap_state_scheme) outcome" where
  "usertrap_end K p which_dev s =
     (if killed p s \<noteq> 0 then bindo (exit (- 1) s) (\<lambda>s. Ret (Exited, s))
      else if which_dev = 2 then bindo (yield s) (\<lambda>s. Ret (Yielded, s))
      else usertrapret K s)"

definition usertrap :: "ksyms \<Rightarrow> uchar list \<Rightarrow> 'a trap_state_scheme \<Rightarrow> (trapret \<times> 'a trap_state_scheme) outcome" where
  "usertrap K pad s =
     (if sstatus s AND SSTATUS_SPP \<noteq> 0 then Panic ''usertrap: not from user mode''
      else
        let s = s\<lparr>stvec := k_kernelvec K\<rparr>
        in case myproc s of
             None \<Rightarrow> Undef
           | Some p \<Rightarrow>
               let s = tf_set p TF_epc (sepc s) s
               in if scause s = 8
                  then if killed p s \<noteq> 0 then bindo (exit (- 1) s) (\<lambda>s. Ret (Exited, s))
                       else let s = intr_on (tf_set p TF_epc (tf_get p TF_epc s + 4) s)
                            in bindo (syscall K pad s) (\<lambda>(returned, s).
                                 if returned then usertrap_end K p 0 s
                                 else Ret (if p_state (procs s ! p) = ZOMBIE then Exited else Waiting, s))
                  else bindo (devintr s) (\<lambda>(which_dev, s).
                    if which_dev \<noteq> 0 then usertrap_end K p which_dev s
                    else bindo (printf (str ''usertrap(): unexpected scause %p pid=%d'' @ [0x0a, 0])
                                  [Num (scause s), Num (word_of_int (p_pid (procs s ! p)))] s) (\<lambda>s.
                         bindo (printf (str ''            sepc=%p stval=%p'' @ [0x0a, 0]) [Num (sepc s), Num (stval s)] s) (\<lambda>s.
                         usertrap_end K p 0 (setkilled p s)))))"

text \<open>
  \<open>kerneltrap\<close> returns to the interrupted code with \<open>sepc\<close> and \<open>sstatus\<close> as they were, or yields
  and does so when the process runs again.
\<close>

definition kerneltrap :: "'a trap_state_scheme \<Rightarrow> (bool \<times> 'a trap_state_scheme) outcome" where
  "kerneltrap s =
     (let epc = sepc s; status = sstatus s; cause = scause s
      in if status AND SSTATUS_SPP = 0 then Panic ''kerneltrap: not from supervisor mode''
         else if intr_get s then Panic ''kerneltrap: interrupts enabled''
         else bindo (devintr s) (\<lambda>(which_dev, s).
           if which_dev = 0
           then bindo (printf (str ''scause %p'' @ [0x0a, 0]) [Num cause] s) (\<lambda>s.
                bindo (printf (str ''sepc=%p stval=%p'' @ [0x0a, 0]) [Num (sepc s), Num (stval s)] s) (\<lambda>s.
                Panic ''kerneltrap''))
           else bindo (case myproc s of
                  None \<Rightarrow> Ret (False, s)
                | Some p \<Rightarrow> if which_dev = 2 \<and> p_state (procs s ! p) = RUNNING
                            then bindo (yield s) (\<lambda>s. Ret (True, s)) else Ret (False, s)) (\<lambda>(yielded, s).
                Ret (yielded, s\<lparr>sepc := epc, sstatus := status\<rparr>))))"

text \<open>The first switch to a process; \<open>first\<close> is the static variable of \<open>forkret\<close>.\<close>

definition forkret :: "ksyms \<Rightarrow> bool \<Rightarrow> 'a trap_state_scheme \<Rightarrow> (trapret \<times> 'a trap_state_scheme) outcome" where
  "forkret K first s = bindo (if first then fsinit ROOTDEV s else Ret s) (usertrapret K)"

section \<open>Starting the kernel\<close>

definition kvminithart :: "uint64 \<Rightarrow> 'a trap_state_scheme \<Rightarrow> 'a trap_state_scheme" where
  "kvminithart kernel_pagetable s = s\<lparr>satp := MAKE_SATP kernel_pagetable\<rparr>"

text \<open>
  The spin of the other CPUs on the volatile flag \<open>started\<close>, over the values they read in turn; one that has read
  only zeros so far is still spinning.
\<close>

fun wait_started :: "int list \<Rightarrow> int outcome" where
  "wait_started [] = Loops"
| "wait_started (v # vs) = (if v = 0 then wait_started vs else Ret v)"

text \<open>
  \<open>main\<close> up to its call of \<open>scheduler\<close>, on the first CPU and on the others, with the bounds of the kernel's image, the
  contents of the device registers, the values read of \<open>started\<close> and the global \<open>kernel_pagetable\<close>; the last two are
  returned as they are then. \<open>printfinit\<close>, \<open>trapinit\<close> and \<open>fileinit\<close> only initialise spin locks.
\<close>

definition kernel_main ::
  "ksyms \<Rightarrow> uint64 \<Rightarrow> (nat \<Rightarrow> uint) \<Rightarrow> uint \<Rightarrow> int list \<Rightarrow> uint64 \<Rightarrow> 'a trap_state_scheme \<Rightarrow> (uint64 \<times> int \<times> 'a trap_state_scheme) outcome" where
  "kernel_main K etext R fok started kernel_pagetable s =
     (if hartid s = 0
      then bindo (printf [0x0a, 0] [] (consoleinit s)) (\<lambda>s.
           bindo (printf (str ''xv6 kernel is booting'' @ [0x0a, 0]) [] s) (\<lambda>s.
           bindo (printf [0x0a, 0] [] s) (\<lambda>s.
           bindo (kinit s) (\<lambda>s.
           bindo (kvmmake etext (k_trampoline K) s) (\<lambda>(kpgtbl, s).
             let s = procinit (kvminithart kpgtbl s);
                 s = plicinithart (plicinit (trapinithart K s));
                 s = iinit (binit s)
             in bindo (virtio_disk_init R fok s) (\<lambda>s.
                bindo (userinit K s) (\<lambda>s. Ret (kpgtbl, 1, s))))))))
      else bindo (wait_started started) (\<lambda>v.
           bindo (printf (str ''hart %d starting'' @ [0x0a, 0]) [Num (hartid s)] s) (\<lambda>s.
           Ret (kernel_pagetable, v, plicinithart (trapinithart K (kvminithart kernel_pagetable s))))))"

end
