(* ===== verification/Spinlock.thy ===== *)
theory Spinlock
  imports Xv6_Prelude
begin

text \<open>
  Spin locks, \<^verbatim>\<open>kernel/spinlock.c\<close>, at the grain of the memory accesses that other CPUs can see. The
  other theories take a critical section as one step; this theory justifies it: however the
  CPUs interleave, at most one of them is between \<open>acquire\<close> and \<open>release\<close> of a lock, and while it is,
  its interrupts are off. Locks and CPUs are named by numbers.
\<close>

section \<open>State and operations\<close>

record spinlock =
  lk_locked :: bool
  lk_cpu :: "nat option"

record cpu =
  c_noff :: int
  c_intena :: bool
  c_sie :: bool

record lock_state =
  locks :: "nat \<Rightarrow> spinlock"
  cpus :: "nat \<Rightarrow> cpu"

definition initlock :: "nat \<Rightarrow> 'a lock_state_scheme \<Rightarrow> 'a lock_state_scheme" where
  "initlock l s = s\<lparr>locks := (locks s)(l := \<lparr>lk_locked = False, lk_cpu = None\<rparr>)\<rparr>"

definition holding :: "nat \<Rightarrow> nat \<Rightarrow> 'a lock_state_scheme \<Rightarrow> bool" where
  "holding c l s \<longleftrightarrow> lk_locked (locks s l) \<and> lk_cpu (locks s l) = Some c"

definition push_off :: "nat \<Rightarrow> 'a lock_state_scheme \<Rightarrow> 'a lock_state_scheme" where
  "push_off c s =
     (let old = c_sie (cpus s c);
          x = (cpus s c)\<lparr>c_sie := False\<rparr>;
          x = (if c_noff x = 0 then x\<lparr>c_intena := old\<rparr> else x)
      in s\<lparr>cpus := (cpus s)(c := x\<lparr>c_noff := c_noff x + 1\<rparr>)\<rparr>)"

definition pop_off :: "nat \<Rightarrow> 'a lock_state_scheme \<Rightarrow> 'a lock_state_scheme outcome" where
  "pop_off c s =
     (if c_sie (cpus s c) then Panic ''pop_off - interruptible''
      else if c_noff (cpus s c) < 1 then Panic ''pop_off''
      else let x = (cpus s c)\<lparr>c_noff := c_noff (cpus s c) - 1\<rparr>
           in Ret (s\<lparr>cpus := (cpus s)(c := if c_noff x = 0 \<and> c_intena x then x\<lparr>c_sie := True\<rparr> else x)\<rparr>))"

text \<open>
  \<open>acquire\<close> in its parts: up to the loop, one round of the loop (the atomic swap, with the old value),
  and the note of the holder. \<open>release\<close>: up to the fence, and the atomic store with \<open>pop_off\<close>.
\<close>

definition acquire_enter :: "nat \<Rightarrow> nat \<Rightarrow> 'a lock_state_scheme \<Rightarrow> 'a lock_state_scheme outcome" where
  "acquire_enter c l s =
     (let s = push_off c s in if holding c l s then Panic ''acquire'' else Ret s)"

definition acquire_swap :: "nat \<Rightarrow> 'a lock_state_scheme \<Rightarrow> bool \<times> 'a lock_state_scheme" where
  "acquire_swap l s = (lk_locked (locks s l), s\<lparr>locks := (locks s)(l := (locks s l)\<lparr>lk_locked := True\<rparr>)\<rparr>)"

definition acquire_note :: "nat \<Rightarrow> nat \<Rightarrow> 'a lock_state_scheme \<Rightarrow> 'a lock_state_scheme" where
  "acquire_note c l s = s\<lparr>locks := (locks s)(l := (locks s l)\<lparr>lk_cpu := Some c\<rparr>)\<rparr>"

definition release_enter :: "nat \<Rightarrow> nat \<Rightarrow> 'a lock_state_scheme \<Rightarrow> 'a lock_state_scheme outcome" where
  "release_enter c l s =
     (if \<not> holding c l s then Panic ''release''
      else Ret (s\<lparr>locks := (locks s)(l := (locks s l)\<lparr>lk_cpu := None\<rparr>)\<rparr>))"

definition release_exit :: "nat \<Rightarrow> nat \<Rightarrow> 'a lock_state_scheme \<Rightarrow> 'a lock_state_scheme outcome" where
  "release_exit c l s = pop_off c (s\<lparr>locks := (locks s)(l := (locks s l)\<lparr>lk_locked := False\<rparr>)\<rparr>)"

text \<open>The two operations on a lock nobody else uses meanwhile.\<close>

definition acquire :: "nat \<Rightarrow> nat \<Rightarrow> 'a lock_state_scheme \<Rightarrow> 'a lock_state_scheme outcome" where
  "acquire c l s =
     bindo (acquire_enter c l s) (\<lambda>s.
       let (old, s) = acquire_swap l s in if old then Loops else Ret (acquire_note c l s))"

definition release :: "nat \<Rightarrow> nat \<Rightarrow> 'a lock_state_scheme \<Rightarrow> 'a lock_state_scheme outcome" where
  "release c l s = bindo (release_enter c l s) (release_exit c l)"

section \<open>Interleaving\<close>

text \<open>
  Where a CPU is: outside of \<open>acquire\<close> and \<open>release\<close>, in the loop of \<open>acquire\<close>, after the swap that
  found the lock free, or between the two halves of \<open>release\<close>. \<open>extra\<close> counts the calls of \<open>push_off\<close>
  by other code that have not been matched.
\<close>

datatype pc = Running | Spinning nat | Taken nat | Letting nat

record par_state = lock_state +
  pcs :: "nat \<Rightarrow> pc"
  extra :: "nat \<Rightarrow> nat"

inductive lock_step :: "par_state \<Rightarrow> par_state \<Rightarrow> bool" where
  acq_enter: "pcs s c = Running \<Longrightarrow> acquire_enter c l s = Ret s' \<Longrightarrow> lock_step s (s'\<lparr>pcs := (pcs s)(c := Spinning l)\<rparr>)"
| acq_spin: "pcs s c = Spinning l \<Longrightarrow> acquire_swap l s = (True, s') \<Longrightarrow> lock_step s s'"
| acq_take: "pcs s c = Spinning l \<Longrightarrow> acquire_swap l s = (False, s') \<Longrightarrow> lock_step s (s'\<lparr>pcs := (pcs s)(c := Taken l)\<rparr>)"
| acq_note: "pcs s c = Taken l \<Longrightarrow> lock_step s ((acquire_note c l s)\<lparr>pcs := (pcs s)(c := Running)\<rparr>)"
| rel_enter: "pcs s c = Running \<Longrightarrow> release_enter c l s = Ret s' \<Longrightarrow> lock_step s (s'\<lparr>pcs := (pcs s)(c := Letting l)\<rparr>)"
| rel_exit: "pcs s c = Letting l \<Longrightarrow> release_exit c l s = Ret s' \<Longrightarrow> lock_step s (s'\<lparr>pcs := (pcs s)(c := Running)\<rparr>)"
| push_call: "pcs s c = Running \<Longrightarrow> lock_step s ((push_off c s)\<lparr>extra := (extra s)(c := extra s c + 1)\<rparr>)"
| pop_call: "pcs s c = Running \<Longrightarrow> 0 < extra s c \<Longrightarrow> pop_off c s = Ret s' \<Longrightarrow>
    lock_step s (s'\<lparr>extra := (extra s)(c := extra s c - 1)\<rparr>)"
| intr_switch: "pcs s c = Running \<Longrightarrow> c_noff (cpus s c) = 0 \<Longrightarrow>
    lock_step s (s\<lparr>cpus := (cpus s)(c := (cpus s c)\<lparr>c_sie := on\<rparr>)\<rparr>)"

inductive_cases lock_stepE: "lock_step s t"

definition boot_locks :: par_state where
  "boot_locks = \<lparr>locks = (\<lambda>_. \<lparr>lk_locked = False, lk_cpu = None\<rparr>),
     cpus = (\<lambda>_. \<lparr>c_noff = 0, c_intena = False, c_sie = False\<rparr>), pcs = (\<lambda>_. Running), extra = (\<lambda>_. 0)\<rparr>"

text \<open>The CPU has the lock: from the successful swap to the store that frees it.\<close>

definition has :: "par_state \<Rightarrow> nat \<Rightarrow> nat \<Rightarrow> bool" where
  "has s c l \<longleftrightarrow> holding c l s \<or> pcs s c = Taken l \<or> pcs s c = Letting l"

definition pending :: "pc \<Rightarrow> int" where
  "pending x = (case x of Spinning _ \<Rightarrow> 1 | _ \<Rightarrow> 0)"

definition lock_inv :: "par_state \<Rightarrow> bool" where
  "lock_inv s \<longleftrightarrow>
     (\<forall>l. lk_locked (locks s l) \<longleftrightarrow> (\<exists>c. has s c l)) \<and>
     (\<forall>l c c'. has s c l \<longrightarrow> has s c' l \<longrightarrow> c = c') \<and>
     (\<forall>l c. lk_cpu (locks s l) = Some c \<longrightarrow> lk_locked (locks s l)) \<and>
     (\<forall>l c. pcs s c = Taken l \<or> pcs s c = Letting l \<longrightarrow> lk_cpu (locks s l) = None) \<and>
     (\<forall>c. finite {l. has s c l}) \<and>
     (\<forall>c. c_noff (cpus s c) = int (card {l. has s c l}) + pending (pcs s c) + int (extra s c)) \<and>
     (\<forall>c. 0 < c_noff (cpus s c) \<longrightarrow> \<not> c_sie (cpus s c))"

lemma lock_inv_boot: "lock_inv boot_locks"
  by (simp add: lock_inv_def boot_locks_def has_def holding_def pending_def)

lemma lock_invD:
  assumes "lock_inv s"
  shows "lk_locked (locks s l) \<longleftrightarrow> (\<exists>c. has s c l)" "has s c l \<Longrightarrow> has s c' l \<Longrightarrow> c = c'"
    "lk_cpu (locks s l) = Some c \<Longrightarrow> lk_locked (locks s l)"
    "pcs s c = Taken l \<Longrightarrow> lk_cpu (locks s l) = None" "pcs s c = Letting l \<Longrightarrow> lk_cpu (locks s l) = None"
    "finite {l. has s c l}" "c_noff (cpus s c) = int (card {l. has s c l}) + pending (pcs s c) + int (extra s c)"
    "0 < c_noff (cpus s c) \<Longrightarrow> \<not> c_sie (cpus s c)"
  using assms unfolding lock_inv_def by blast+

text \<open>A step after which every lock is with the CPU that had it before.\<close>

lemma lock_inv_same:
  assumes inv: "lock_inv s" and h: "\<And>d l. has t d l = has s d l"
    and lk: "\<And>l. lk_locked (locks t l) = lk_locked (locks s l)"
    and cpu: "\<And>l d. lk_cpu (locks t l) = Some d \<Longrightarrow> lk_locked (locks t l)"
    and pc: "\<And>d l. pcs t d = Taken l \<or> pcs t d = Letting l \<Longrightarrow> lk_cpu (locks t l) = None"
    and n: "\<And>d. c_noff (cpus t d) - pending (pcs t d) - int (extra t d) = c_noff (cpus s d) - pending (pcs s d) - int (extra s d)"
    and i: "\<And>d. 0 < c_noff (cpus t d) \<Longrightarrow> \<not> c_sie (cpus t d)"
  shows "lock_inv t"
proof -
  have "c_noff (cpus t d) = int (card {l. has t d l}) + pending (pcs t d) + int (extra t d)" for d
    using lock_invD(7)[OF inv, of d] n[of d] by (simp add: h)
  moreover have "lk_locked (locks t l) \<longleftrightarrow> (\<exists>c. has t c l)" "has t c l \<longrightarrow> has t c' l \<longrightarrow> c = c'" "finite {l. has t c l}" for l c c'
    using lock_invD(1,2,6)[OF inv] by (auto simp: h lk)
  ultimately show ?thesis using cpu pc i unfolding lock_inv_def by blast
qed

lemmas lock_op_defs = push_off_def pop_off_def acquire_enter_def acquire_swap_def acquire_note_def release_enter_def release_exit_def

lemma noff_nonneg: "lock_inv s \<Longrightarrow> 0 \<le> c_noff (cpus s c)"
  using lock_invD(7)[of s c] by (simp add: pending_def split: pc.split)

text \<open>Only the CPU itself moves from one place to another.\<close>

lemma has_eqI:
  assumes "\<And>d l. holding d l t = holding d l s" "\<And>d l. (pcs t d = Taken l) = (pcs s d = Taken l)" "\<And>d l. (pcs t d = Letting l) = (pcs s d = Letting l)"
  shows "has t d l = has s d l"
  using assms by (simp add: has_def)

lemma step_take:
  assumes inv: "lock_inv s" and pc: "pcs s c = Spinning l" and free: "\<not> lk_locked (locks s l)"
    and t: "t = s\<lparr>locks := (locks s)(l := (locks s l)\<lparr>lk_locked := True\<rparr>), pcs := (pcs s)(c := Taken l)\<rparr>"
  shows "lock_inv t"
proof -
  have no: "\<not> has s d l" for d using lock_invD(1)[OF inv, of l] free by blast
  have cn: "lk_cpu (locks s l) = None" using lock_invD(3)[OF inv, of l] free by (cases "lk_cpu (locks s l)") auto
  have h: "has t d k \<longleftrightarrow> has s d k \<or> d = c \<and> k = l" for d k
    using no[of d] pc cn by (auto simp: has_def holding_def t split: if_splits)
  have ks: "{k. has t d k} = (if d = c then insert l {k. has s d k} else {k. has s d k})" for d
    by (auto simp: h)
  have "c_noff (cpus t d) = int (card {k. has t d k}) + pending (pcs t d) + int (extra t d)" for d
  proof (cases "d = c")
    case True
    then show ?thesis using lock_invD(6,7)[OF inv, of c] no[of c] pc unfolding ks by (simp add: t pending_def)
  next
    case False
    then show ?thesis using lock_invD(7)[OF inv, of d] unfolding ks by (simp add: t)
  qed
  moreover have "finite {k. has t d k}" for d using lock_invD(6)[OF inv, of d] unfolding ks by auto
  moreover have "lk_locked (locks t k) \<longleftrightarrow> (\<exists>d. has t d k)" for k
    unfolding h using lock_invD(1)[OF inv, of k] by (cases "k = l") (auto simp: t)
  moreover have "has t d k \<longrightarrow> has t d' k \<longrightarrow> d = d'" for d d' k
    using lock_invD(2)[OF inv] no by (auto simp: h)
  moreover have "lk_cpu (locks t k) = Some d \<longrightarrow> lk_locked (locks t k)" for k d
    using lock_invD(3)[OF inv] by (simp add: t)
  moreover have "pcs t d = Taken k \<or> pcs t d = Letting k \<longrightarrow> lk_cpu (locks t k) = None" for d k
    using lock_invD(4,5)[OF inv] cn by (simp add: t)
  moreover have "0 < c_noff (cpus t d) \<longrightarrow> \<not> c_sie (cpus t d)" for d using lock_invD(8)[OF inv] by (simp add: t)
  ultimately show ?thesis unfolding lock_inv_def by blast
qed

lemma step_let_go:
  assumes inv: "lock_inv s" and pc: "pcs s c = Letting l" and e: "release_exit c l s = Ret s'"
    and t: "t = s'\<lparr>pcs := (pcs s)(c := Running)\<rparr>"
  shows "lock_inv t"
proof -
  have c: "has s c l" using pc by (simp add: has_def)
  have cn: "lk_cpu (locks s l) = None" using lock_invD(5)[OF inv pc] .
  have s': "locks s' = (locks s)(l := (locks s l)\<lparr>lk_locked := False\<rparr>)" "extra s' = extra s"
    "\<And>d. d \<noteq> c \<Longrightarrow> cpus s' d = cpus s d" "c_noff (cpus s' c) = c_noff (cpus s c) - 1" "\<not> c_sie (cpus s c)"
    "c_sie (cpus s' c) \<Longrightarrow> c_noff (cpus s' c) = 0"
    using e by (auto simp: release_exit_def pop_off_def Let_def split: if_splits)
  have h: "has t d k \<longleftrightarrow> has s d k \<and> \<not> (d = c \<and> k = l)" for d k
  proof (cases "k = l")
    case True
    have "\<not> has t d l"
    proof
      assume "has t d l"
      then have "d \<noteq> c" "pcs s d = Taken l \<or> pcs s d = Letting l" by (auto simp: has_def holding_def t s'(1) split: if_splits)
      then show False using lock_invD(2)[OF inv _ c, of d] by (auto simp: has_def)
    qed
    then show ?thesis using True lock_invD(2)[OF inv _ c, of d] by blast
  next
    case False
    then show ?thesis using pc by (auto simp: has_def holding_def t s'(1) split: if_splits)
  qed
  have ks: "{k. has t d k} = (if d = c then {k. has s d k} - {l} else {k. has s d k})" for d
    by (auto simp: h)
  have "c_noff (cpus t d) = int (card {k. has t d k}) + pending (pcs t d) + int (extra t d)" for d
  proof (cases "d = c")
    case True
    have "card {k. has s c k} = Suc (card ({k. has s c k} - {l}))"
      using lock_invD(6)[OF inv, of c] c by (intro card.remove) auto
    then show ?thesis using True lock_invD(7)[OF inv, of c] pc s'(2,4) unfolding ks by (simp add: t pending_def)
  next
    case False
    then show ?thesis using lock_invD(7)[OF inv, of d] s'(2,3) unfolding ks by (simp add: t)
  qed
  moreover have "finite {k. has t d k}" for d using lock_invD(6)[OF inv, of d] unfolding ks by auto
  moreover have "lk_locked (locks t k) \<longleftrightarrow> (\<exists>d. has t d k)" for k
  proof (cases "k = l")
    case True
    have "\<not> lk_locked (locks t l)" by (simp add: t s'(1))
    moreover have "\<not> has t d l" for d unfolding h using lock_invD(2)[OF inv _ c, of d] by blast
    ultimately show ?thesis using True by blast
  next
    case False
    then have "lk_locked (locks t k) = lk_locked (locks s k)" by (simp add: t s'(1))
    then show ?thesis using False lock_invD(1)[OF inv, of k] unfolding h by blast
  qed
  moreover have "has t d k \<longrightarrow> has t d' k \<longrightarrow> d = d'" for d d' k
    unfolding h using lock_invD(2)[OF inv] by blast
  moreover have "lk_cpu (locks t k) = Some d \<longrightarrow> lk_locked (locks t k)" for k d
    using lock_invD(3)[OF inv] cn by (simp add: t s'(1))
  moreover have "pcs t d = Taken k \<or> pcs t d = Letting k \<longrightarrow> lk_cpu (locks t k) = None" for d k
    using lock_invD(4,5)[OF inv] by (auto simp: t s'(1))
  moreover have "0 < c_noff (cpus t d) \<longrightarrow> \<not> c_sie (cpus t d)" for d
    using lock_invD(8)[OF inv, of d] s'(3,6) by (cases "d = c") (auto simp: t)
  ultimately show ?thesis unfolding lock_inv_def by blast
qed

lemma step_enter:
  assumes inv: "lock_inv s" and pc: "pcs s c = Running" and e: "acquire_enter c l s = Ret s'"
    and t: "t = s'\<lparr>pcs := (pcs s)(c := Spinning l)\<rparr>"
  shows "lock_inv t"
proof (rule lock_inv_same[OF inv])
  have s': "locks s' = locks s" "extra s' = extra s" "\<And>d. d \<noteq> c \<Longrightarrow> cpus s' d = cpus s d"
    "c_noff (cpus s' c) = c_noff (cpus s c) + 1" "\<not> c_sie (cpus s' c)"
    using e by (auto simp: acquire_enter_def push_off_def Let_def split: if_splits)
  show "has t d k = has s d k" for d k using pc by (auto simp: t has_def holding_def s')
  show "c_noff (cpus t d) - pending (pcs t d) - int (extra t d) = c_noff (cpus s d) - pending (pcs s d) - int (extra s d)" for d
    using pc s' by (cases "d = c") (auto simp: t pending_def)
  show "\<not> c_sie (cpus t d)" if "0 < c_noff (cpus t d)" for d
    using that s'(3,5) lock_invD(8)[OF inv, of d] by (cases "d = c") (auto simp: t)
  show "lk_locked (locks t k) = lk_locked (locks s k)" "lk_cpu (locks t k) = Some d \<Longrightarrow> lk_locked (locks t k)" for k d
    using lock_invD(3)[OF inv] by (auto simp: t s')
  show "lk_cpu (locks t k) = None" if "pcs t d = Taken k \<or> pcs t d = Letting k" for d k
    using that lock_invD(4,5)[OF inv] by (auto simp: t s' split: if_splits)
qed

lemma step_note:
  assumes inv: "lock_inv s" and pc: "pcs s c = Taken l" and t: "t = (acquire_note c l s)\<lparr>pcs := (pcs s)(c := Running)\<rparr>"
  shows "lock_inv t"
proof (rule lock_inv_same[OF inv])
  have h: "has s c l" using pc by (simp add: has_def)
  then have lk: "lk_locked (locks s l)" using lock_invD(1)[OF inv] by blast
  have cn: "lk_cpu (locks s l) = None" using lock_invD(4)[OF inv pc] .
  show "has t d k = has s d k" for d k
    using pc lk cn by (auto simp: t acquire_note_def has_def holding_def split: if_splits)
  show "c_noff (cpus t d) - pending (pcs t d) - int (extra t d) = c_noff (cpus s d) - pending (pcs s d) - int (extra s d)" for d
    using pc by (auto simp: t acquire_note_def pending_def)
  show "lk_cpu (locks t k) = None" if pk: "pcs t d = Taken k \<or> pcs t d = Letting k" for d k
  proof -
    have d: "d \<noteq> c" "pcs s d = Taken k \<or> pcs s d = Letting k" using pk by (auto simp: t split: if_splits)
    then have "has s d k" by (auto simp: has_def)
    then have "k \<noteq> l" using lock_invD(2)[OF inv h] d(1) by blast
    then show ?thesis using d(2) lock_invD(4,5)[OF inv, of d k] by (auto simp: t acquire_note_def)
  qed
  show "lk_locked (locks t k) = lk_locked (locks s k)" "lk_cpu (locks t k) = Some d \<Longrightarrow> lk_locked (locks t k)" for k d
    using lock_invD(3)[OF inv] lk by (auto simp: t acquire_note_def split: if_splits)
  show "\<not> c_sie (cpus t d)" if "0 < c_noff (cpus t d)" for d
    using that lock_invD(8)[OF inv, of d] by (simp add: t acquire_note_def)
qed

lemma step_leave:
  assumes inv: "lock_inv s" and pc: "pcs s c = Running" and e: "release_enter c l s = Ret s'"
    and t: "t = s'\<lparr>pcs := (pcs s)(c := Letting l)\<rparr>"
  shows "lock_inv t"
proof (rule lock_inv_same[OF inv])
  have hl: "holding c l s" and s': "s' = s\<lparr>locks := (locks s)(l := (locks s l)\<lparr>lk_cpu := None\<rparr>)\<rparr>"
    using e by (auto simp: release_enter_def split: if_splits)
  show "has t d k = has s d k" for d k
    using pc hl by (auto simp: t s' has_def holding_def split: if_splits)
  show "c_noff (cpus t d) - pending (pcs t d) - int (extra t d) = c_noff (cpus s d) - pending (pcs s d) - int (extra s d)" for d
    using pc by (auto simp: t s' pending_def)
  show "lk_locked (locks t k) = lk_locked (locks s k)" "lk_cpu (locks t k) = Some d \<Longrightarrow> lk_locked (locks t k)" for k d
    using lock_invD(3)[OF inv] by (auto simp: t s' split: if_splits)
  show "lk_cpu (locks t k) = None" if "pcs t d = Taken k \<or> pcs t d = Letting k" for d k
    using that lock_invD(4,5)[OF inv] by (auto simp: t s' split: if_splits)
  show "\<not> c_sie (cpus t d)" if "0 < c_noff (cpus t d)" for d
    using that lock_invD(8)[OF inv, of d] by (simp add: t s')
qed

text \<open>\<open>push_off\<close> and \<open>pop_off\<close> by other code, and switching interrupts outside of them.\<close>

lemma step_cpu:
  assumes inv: "lock_inv s" and l: "locks t = locks s" "pcs t = pcs s"
    and same: "\<And>d. d \<noteq> c \<Longrightarrow> cpus t d = cpus s d \<and> extra t d = extra s d"
    and n: "c_noff (cpus t c) - int (extra t c) = c_noff (cpus s c) - int (extra s c)"
    and i: "0 < c_noff (cpus t c) \<Longrightarrow> \<not> c_sie (cpus t c)"
  shows "lock_inv t"
proof (rule lock_inv_same[OF inv])
  show "has t d k = has s d k" for d k by (simp add: has_def holding_def l)
  show "c_noff (cpus t d) - pending (pcs t d) - int (extra t d) = c_noff (cpus s d) - pending (pcs s d) - int (extra s d)" for d
    using same[of d] n by (cases "d = c") (auto simp: l)
  show "\<not> c_sie (cpus t d)" if "0 < c_noff (cpus t d)" for d
    using that same[of d] i lock_invD(8)[OF inv, of d] by (cases "d = c") auto
qed (use lock_invD(3-5)[OF inv] in \<open>auto simp: l\<close>)

lemma lock_inv_step:
  assumes "lock_step s t" and inv: "lock_inv s"
  shows "lock_inv t"
  using assms(1)
proof (cases rule: lock_step.cases)
  case (acq_enter c l s')
  then show ?thesis using step_enter[OF inv] by blast
next
  case (acq_spin c l)
  then have "lk_locked (locks s l)" "t = s\<lparr>locks := (locks s)(l := (locks s l)\<lparr>lk_locked := True\<rparr>)\<rparr>"
    by (auto simp: acquire_swap_def)
  then have "t = s" by (cases "locks s l") (simp add: fun_upd_idem)
  then show ?thesis using inv by simp
next
  case (acq_take c l s')
  then show ?thesis using step_take[OF inv, of c l] by (auto simp: acquire_swap_def)
next
  case (acq_note c l)
  then show ?thesis using step_note[OF inv] by blast
next
  case (rel_enter c l s')
  then show ?thesis using step_leave[OF inv] by blast
next
  case (rel_exit c l s')
  then show ?thesis using step_let_go[OF inv] by blast
next
  case (push_call c)
  show ?thesis by (rule step_cpu[OF inv, of t c]) (auto simp: push_call(1) push_off_def Let_def)
next
  case (pop_call c s')
  then show ?thesis by (intro step_cpu[OF inv, of t c]) (auto simp: pop_off_def Let_def split: if_splits)
next
  case (intr_switch c on)
  then show ?thesis by (intro step_cpu[OF inv, of t c]) auto
qed

lemma lock_inv_reachable: "lock_step\<^sup>*\<^sup>* boot_locks s \<Longrightarrow> lock_inv s"
  by (induction rule: rtranclp_induct) (auto intro: lock_inv_boot lock_inv_step)

section \<open>Mutual exclusion\<close>

text \<open>
  C3. Spin locks exclude each other, however the CPUs interleave: in every state reachable from boot a
  lock is with at most one CPU, from the swap that took it to the store that frees it, and that CPU
  has its interrupts off.
\<close>

theorem spinlock_mutual_exclusion:
  assumes "lock_step\<^sup>*\<^sup>* boot_locks s" "has s c l" "has s c' l"
  shows "c' = c \<and> \<not> c_sie (cpus s c)"
proof -
  note inv = lock_inv_reachable[OF assms(1)]
  have "{l. has s c l} \<noteq> {}" using assms(2) by blast
  then have "0 < card {l. has s c l}" using lock_invD(6)[OF inv, of c] by (simp add: card_gt_0_iff)
  then have "0 < c_noff (cpus s c)" using lock_invD(7)[OF inv, of c] by (simp add: pending_def split: pc.split)
  then show ?thesis using lock_invD(2)[OF inv assms(3,2)] lock_invD(8)[OF inv] by blast
qed

text \<open>
  C21. Releasing a lock never panics: a CPU that holds a lock can leave it, and then the other half of
  \<open>release\<close>, with its \<open>pop_off\<close>, succeeds in every reachable state.
\<close>

theorem release_succeeds:
  assumes "lock_step\<^sup>*\<^sup>* boot_locks s"
  shows "(holding c l s \<longrightarrow> (\<exists>s'. release_enter c l s = Ret s')) \<and> (pcs s c = Letting l \<longrightarrow> (\<exists>s'. release_exit c l s = Ret s'))"
proof (intro conjI impI)
  note inv = lock_inv_reachable[OF assms]
  show "\<exists>s'. release_enter c l s = Ret s'" if "holding c l s" using that by (simp add: release_enter_def)
  assume "pcs s c = Letting l"
  then have "has s c l" by (simp add: has_def)
  then have "{l. has s c l} \<noteq> {}" by blast
  then have "0 < card {l. has s c l}" using lock_invD(6)[OF inv, of c] by (simp add: card_gt_0_iff)
  then have "0 < c_noff (cpus s c)" using lock_invD(7)[OF inv, of c] by (simp add: pending_def split: pc.split)
  then show "\<exists>s'. release_exit c l s = Ret s'" using lock_invD(8)[OF inv, of c] by (simp add: release_exit_def pop_off_def Let_def)
qed

text \<open>An execution in which CPU 0 takes lock 7.\<close>

lemma ex_taken: "\<exists>s. lock_step\<^sup>*\<^sup>* boot_locks s \<and> has s 0 7 \<and> holding 0 7 s"
proof -
  define s1 where "s1 = (push_off 0 boot_locks)\<lparr>pcs := (pcs boot_locks)(0 := Spinning 7)\<rparr>"
  have 1: "lock_step boot_locks s1" unfolding s1_def
    by (rule acq_enter) (simp_all add: boot_locks_def acquire_enter_def push_off_def holding_def Let_def)
  define s2 where "s2 = (snd (acquire_swap 7 s1))\<lparr>pcs := (pcs s1)(0 := Taken 7)\<rparr>"
  have 2: "lock_step s1 s2" unfolding s2_def
    by (rule acq_take) (simp_all add: s1_def boot_locks_def acquire_swap_def push_off_def Let_def)
  define s3 where "s3 = (acquire_note 0 7 s2)\<lparr>pcs := (pcs s2)(0 := Running)\<rparr>"
  have 3: "lock_step s2 s3" unfolding s3_def by (rule acq_note) (simp add: s2_def)
  have "lock_step\<^sup>*\<^sup>* boot_locks s3" using 1 2 3 by (meson converse_rtranclp_into_rtranclp rtranclp.rtrancl_refl)
  moreover have "holding 0 7 s3" by (simp add: s3_def s2_def acquire_note_def acquire_swap_def holding_def)
  ultimately show ?thesis by (auto simp: has_def)
qed

theorem spinlock_mutual_exclusion_witness:
  "\<exists>s. lock_step\<^sup>*\<^sup>* boot_locks s \<and> has s 0 7 \<and> \<not> has s 1 7 \<and> \<not> c_sie (cpus s 0)"
proof -
  obtain s where s: "lock_step\<^sup>*\<^sup>* boot_locks s" "has s 0 7" using ex_taken by blast
  then show ?thesis using spinlock_mutual_exclusion[OF s] spinlock_mutual_exclusion[OF s, of 1] by auto
qed

theorem release_succeeds_witness:
  "\<exists>s s'. lock_step\<^sup>*\<^sup>* boot_locks s \<and> holding 0 7 s \<and> release_enter 0 7 s = Ret s'"
proof -
  obtain s where s: "lock_step\<^sup>*\<^sup>* boot_locks s" "holding 0 7 s" using ex_taken by blast
  then show ?thesis using release_succeeds[OF s(1), of 0 7] by blast
qed

end
