(* ===== verification/Sleep_Wakeup.thy ===== *)
theory Sleep_Wakeup
  imports Proc
begin

text \<open>
  Sleeping and waking when the CPUs interleave: \<open>sleep\<close>, \<open>wakeup\<close>, \<open>kill\<close> and the switches of \<open>scheduler\<close>
  in \<^verbatim>\<open>kernel/proc.c\<close>, at the grain of the lock operations. The steps under \<open>p->lock\<close> are the functions of
  the sequential model: \<^const>\<open>sleep\<close> and \<^const>\<open>sleep_return\<close> store the channel and the state,
  \<^const>\<open>wake_one\<close> tests them, \<^const>\<open>kill_one\<close> is the body of \<open>kill\<close>. Nothing is assumed of the callers but
  that they hold the lock they pass to \<open>sleep\<close>. The result is that no wakeup is lost between the call of
  \<open>sleep\<close> and the moment the process is asleep.
\<close>

section \<open>Steps\<close>

text \<open>
  Where a process is; the comments name the \<open>p->lock\<close> it has. A caller of \<open>wakeup\<close> or \<open>kill\<close> that is no process
  of the table is an interrupt taken while a CPU runs none.
\<close>

datatype pplace =
    Outside
  | Sleep_called chan nat  \<comment> \<open>in sleep(chan, lk)\<close>
  | Sleep_both chan nat    \<comment> \<open>its own: acquired by sleep\<close>
  | Sleep_own chan nat     \<comment> \<open>its own: sleep has released lk\<close>
  | Sleep_set chan nat     \<comment> \<open>its own: the state is SLEEPING, on the way through sched\<close>
  | Switched chan nat      \<comment> \<open>none: the scheduler has released it\<close>
  | Resumed nat            \<comment> \<open>its own: the scheduler has switched back\<close>
  | Reacquiring nat        \<comment> \<open>none: sleep wants lk\<close>
  | Waking chan nat        \<comment> \<open>none: the loop of wakeup(chan) is at this process\<close>
  | Waking_lock chan nat   \<comment> \<open>that of this process\<close>
  | Killing int nat        \<comment> \<open>that of this process: kill looks at its pid\<close>

text \<open>
  The holders of the other spin locks and of the \<open>p->lock\<close>s, the process table, where everybody is, and how
  often each process has called \<open>sleep\<close> and each caller \<open>wakeup\<close>; the counters serve to tell one call from
  the next.
\<close>

record sw_state =
  lks :: "nat \<Rightarrow> nat option"
  plks :: "nat \<Rightarrow> nat option"
  ptab :: proc_state
  at :: "nat \<Rightarrow> pplace"
  sleeps :: "nat \<Rightarrow> nat"
  wakes :: "nat \<Rightarrow> nat"

definition go :: "nat \<Rightarrow> pplace \<Rightarrow> sw_state \<Rightarrow> sw_state" where
  "go p x s = s\<lparr>at := (at s)(p := x)\<rparr>"

text \<open>The state as the CPU that runs \<open>p\<close> has it: \<open>myproc()\<close> is \<open>p\<close>.\<close>

definition seen_by :: "nat \<Rightarrow> sw_state \<Rightarrow> proc_state" where
  "seen_by p s = (ptab s)\<lparr>cur := (if p < length (procs (ptab s)) then Some p else None)\<rparr>"

definition pr :: "sw_state \<Rightarrow> nat \<Rightarrow> proc" where
  "pr s p = procs (ptab s) ! p"

definition set_plk :: "nat \<Rightarrow> nat option \<Rightarrow> sw_state \<Rightarrow> sw_state" where
  "set_plk i h s = s\<lparr>plks := (plks s)(i := h)\<rparr>"

inductive sw_step :: "nat \<Rightarrow> sw_state \<Rightarrow> sw_state \<Rightarrow> bool" for n where
  lk_acquire: "at s p = Outside \<Longrightarrow> lks s l = None \<Longrightarrow> sw_step n s (s\<lparr>lks := (lks s)(l := Some p)\<rparr>)"
| lk_release: "at s p = Outside \<Longrightarrow> lks s l = Some p \<Longrightarrow> sw_step n s (s\<lparr>lks := (lks s)(l := None)\<rparr>)"
| sleep_call: "at s p = Outside \<Longrightarrow> p < n \<Longrightarrow> lks s l = Some p \<Longrightarrow>
    sw_step n s (go p (Sleep_called ch l) (s\<lparr>sleeps := (sleeps s)(p := sleeps s p + 1)\<rparr>))"
| sleep_lock: "at s p = Sleep_called ch l \<Longrightarrow> plks s p = None \<Longrightarrow> sw_step n s (go p (Sleep_both ch l) (set_plk p (Some p) s))"
| sleep_release: "at s p = Sleep_both ch l \<Longrightarrow> sw_step n s (go p (Sleep_own ch l) (s\<lparr>lks := (lks s)(l := None)\<rparr>))"
| sleep_state: "at s p = Sleep_own ch l \<Longrightarrow> sleep ch (seen_by p s) = Ret r \<Longrightarrow> sw_step n s (go p (Sleep_set ch l) (s\<lparr>ptab := r\<rparr>))"
| sched_off: "at s p = Sleep_set ch l \<Longrightarrow> sw_step n s (go p (Switched ch l) (set_plk p None s))"
| sched_on: "at s p = Switched ch l \<Longrightarrow> p_state (pr s p) = RUNNABLE \<Longrightarrow> plks s p = None \<Longrightarrow>
    sw_step n s (go p (Resumed l) (set_plk p (Some p) (s\<lparr>ptab := upd_proc p (\<lambda>x. x\<lparr>p_state := RUNNING\<rparr>) (ptab s)\<rparr>)))"
| sleep_tidy: "at s p = Resumed l \<Longrightarrow> sleep_return (seen_by p s) = Ret r \<Longrightarrow>
    sw_step n s (go p (Reacquiring l) (set_plk p None (s\<lparr>ptab := r\<rparr>)))"
| sleep_reacquire: "at s p = Reacquiring l \<Longrightarrow> lks s l = None \<Longrightarrow> sw_step n s (go p Outside (s\<lparr>lks := (lks s)(l := Some p)\<rparr>))"
| wakeup_call: "at s p = Outside \<Longrightarrow> sw_step n s (go p (Waking ch 0) (s\<lparr>wakes := (wakes s)(p := wakes s p + 1)\<rparr>))"
| wakeup_self: "at s p = Waking ch i \<Longrightarrow> i < n \<Longrightarrow> myproc (seen_by p s) = Some i \<Longrightarrow> sw_step n s (go p (Waking ch (i + 1)) s)"
| wakeup_lock: "at s p = Waking ch i \<Longrightarrow> i < n \<Longrightarrow> myproc (seen_by p s) \<noteq> Some i \<Longrightarrow> plks s i = None \<Longrightarrow>
    sw_step n s (go p (Waking_lock ch i) (set_plk i (Some p) s))"
| wakeup_one: "at s p = Waking_lock ch i \<Longrightarrow>
    sw_step n s (go p (Waking ch (i + 1)) (set_plk i None
      (s\<lparr>ptab := upd_proc i (\<lambda>x. wake_one (seen_by p s) ch (i, x)) (ptab s)\<rparr>)))"
| wakeup_end: "at s p = Waking ch n \<Longrightarrow> sw_step n s (go p Outside s)"
| kill_lock: "at s p = Outside \<Longrightarrow> i < n \<Longrightarrow> plks s i = None \<Longrightarrow> sw_step n s (go p (Killing pid i) (set_plk i (Some p) s))"
| kill_visit: "at s p = Killing pid i \<Longrightarrow>
    sw_step n s (go p Outside (set_plk i None
      (s\<lparr>ptab := upd_proc i (\<lambda>x. if p_pid x = pid then kill_one x else x) (ptab s)\<rparr>)))"

text \<open>At the start nobody is inside any of the functions and nobody sleeps.\<close>

definition sw_start :: "nat \<Rightarrow> sw_state \<Rightarrow> bool" where
  "sw_start n s \<longleftrightarrow> lks s = (\<lambda>_. None) \<and> plks s = (\<lambda>_. None) \<and> at s = (\<lambda>_. Outside) \<and> length (procs (ptab s)) = n"

section \<open>The locks and the channel\<close>

fun has_plk :: "nat \<Rightarrow> nat \<Rightarrow> pplace \<Rightarrow> bool" where
  "has_plk p i (Sleep_both _ _) = (i = p)" | "has_plk p i (Sleep_own _ _) = (i = p)" | "has_plk p i (Sleep_set _ _) = (i = p)"
| "has_plk p i (Resumed _) = (i = p)" | "has_plk p i (Waking_lock _ j) = (i = j)" | "has_plk p i (Killing _ j) = (i = j)"
| "has_plk p i _ = False"

text \<open>The process has called \<open>sleep(ch, lk)\<close> with this lock and the scheduler has not resumed it.\<close>

fun in_sleep :: "chan \<Rightarrow> nat \<Rightarrow> pplace \<Rightarrow> bool" where
  "in_sleep ch l (Sleep_called c k) = (c = ch \<and> k = l)" | "in_sleep ch l (Sleep_both c k) = (c = ch \<and> k = l)"
| "in_sleep ch l (Sleep_own c k) = (c = ch \<and> k = l)" | "in_sleep ch l (Sleep_set c k) = (c = ch \<and> k = l)"
| "in_sleep ch l (Switched c k) = (c = ch \<and> k = l)" | "in_sleep ch l _ = False"

text \<open>It still has \<open>lk\<close>; it has stored the channel.\<close>

fun before_release :: "pplace \<Rightarrow> bool" where
  "before_release (Sleep_called _ _) = True" | "before_release (Sleep_both _ _) = True" | "before_release _ = False"

fun has_stored :: "pplace \<Rightarrow> bool" where
  "has_stored (Sleep_set _ _) = True" | "has_stored (Switched _ _) = True" | "has_stored _ = False"

definition sw_inv :: "nat \<Rightarrow> sw_state \<Rightarrow> bool" where
  "sw_inv n s \<longleftrightarrow>
     (\<forall>p ch l. in_sleep ch l (at s p) \<longrightarrow> p < n \<and> (before_release (at s p) \<longrightarrow> lks s l = Some p) \<and>
        (has_stored (at s p) \<longrightarrow> p_chan (pr s p) = Some ch)) \<and>
     (\<forall>i p. plks s i = Some p \<longleftrightarrow> has_plk p i (at s p)) \<and>
     (\<forall>p l. at s p = Resumed l \<longrightarrow> p < n) \<and>
     (\<forall>p ch i. at s p = Waking_lock ch i \<longrightarrow> i < n \<and> i \<noteq> p) \<and> length (procs (ptab s)) = n"

lemma sw_invD:
  assumes "sw_inv n s"
  shows "in_sleep ch l (at s p) \<Longrightarrow> p < n" "in_sleep ch l (at s p) \<Longrightarrow> before_release (at s p) \<Longrightarrow> lks s l = Some p"
    "in_sleep ch l (at s p) \<Longrightarrow> has_stored (at s p) \<Longrightarrow> p_chan (pr s p) = Some ch"
    "plks s i = Some p \<longleftrightarrow> has_plk p i (at s p)" "at s p = Waking_lock ch i \<Longrightarrow> i < n \<and> i \<noteq> p" "length (procs (ptab s)) = n"
    "at s p = Resumed l \<Longrightarrow> p < n"
  using assms unfolding sw_inv_def by blast+

lemma sw_inv_start: "sw_start n s \<Longrightarrow> sw_inv n s"
  by (simp add: sw_inv_def sw_start_def)

lemma go_simps [simp]:
  "at (go p x s) = (at s)(p := x)" "lks (go p x s) = lks s" "plks (go p x s) = plks s" "ptab (go p x s) = ptab s"
  "sleeps (go p x s) = sleeps s" "wakes (go p x s) = wakes s" "pr (go p x s) = pr s"
  by (simp_all add: go_def pr_def fun_eq_iff)

lemma set_plk_simps [simp]:
  "at (set_plk i h s) = at s" "lks (set_plk i h s) = lks s" "plks (set_plk i h s) = (plks s)(i := h)" "ptab (set_plk i h s) = ptab s"
  "sleeps (set_plk i h s) = sleeps s" "wakes (set_plk i h s) = wakes s" "pr (set_plk i h s) = pr s"
  by (simp_all add: set_plk_def pr_def fun_eq_iff)

lemma sleep_stores:
  assumes "sleep ch (seen_by p s) = Ret r"
  shows "p < length (procs (ptab s))" "procs r = (procs (ptab s))[p := (pr s p)\<lparr>p_chan := Some ch, p_state := SLEEPING\<rparr>]"
  using assms by (auto simp: sleep_def myproc_def seen_by_def upd_proc_def pr_def split: if_splits)

lemma sleep_return_stores:
  assumes "sleep_return (seen_by p s) = Ret r"
  shows "p < length (procs (ptab s))" "procs r = (procs (ptab s))[p := (pr s p)\<lparr>p_chan := None\<rparr>]"
  using assms by (auto simp: sleep_return_def myproc_def seen_by_def upd_proc_def pr_def split: if_splits)

text \<open>
  A step of process \<open>p\<close> to the place \<open>y\<close> that gives it the process locks of \<open>y\<close>, keeps the channels of the
  others, and takes no lock from them.
\<close>

lemma sw_inv_move:
  assumes inv: "sw_inv n s" and at: "at t = (at s)(p := y)"
    and plk: "\<And>i. plks t i = (if has_plk p i y then Some p else if has_plk p i (at s p) then None else plks s i)"
    and plk_free: "\<And>i. has_plk p i y \<Longrightarrow> plks s i = None \<or> has_plk p i (at s p)"
    and lk: "\<And>l q. q \<noteq> p \<Longrightarrow> lks s l = Some q \<Longrightarrow> lks t l = Some q"
    and ch: "\<And>q. q \<noteq> p \<Longrightarrow> p_chan (pr t q) = p_chan (pr s q)" and len: "length (procs (ptab t)) = length (procs (ptab s))"
    and y: "\<And>c l. in_sleep c l y \<Longrightarrow> p < n \<and> (before_release y \<longrightarrow> lks t l = Some p) \<and> (has_stored y \<longrightarrow> p_chan (pr t p) = Some c)"
      "\<And>l. y = Resumed l \<Longrightarrow> p < n" "\<And>c i. y = Waking_lock c i \<Longrightarrow> i < n \<and> i \<noteq> p"
  shows "sw_inv n t"
proof -
  have "in_sleep c l (at t q) \<Longrightarrow> q < n \<and> (before_release (at t q) \<longrightarrow> lks t l = Some q) \<and>
      (has_stored (at t q) \<longrightarrow> p_chan (pr t q) = Some c)" for c l q
    using y(1) sw_invD(1-3)[OF inv, of c l q] lk ch by (cases "q = p") (auto simp: at)
  moreover have "plks t i = Some q \<longleftrightarrow> has_plk q i (at t q)" for i q
    using sw_invD(4)[OF inv, of i q] sw_invD(4)[OF inv, of i p] plk[of i] plk_free[of i] by (cases "q = p") (auto simp: at)
  moreover have "at t q = Resumed l \<Longrightarrow> q < n" for q l using y(2) sw_invD(7)[OF inv, of q l] by (cases "q = p") (auto simp: at)
  moreover have "at t q = Waking_lock c i \<Longrightarrow> i < n \<and> i \<noteq> q" for q c i
    using y(3) sw_invD(5)[OF inv, of q c i] by (cases "q = p") (auto simp: at)
  ultimately show ?thesis using len sw_invD(6)[OF inv] unfolding sw_inv_def by simp
qed

lemma pr_upd: "pr (s\<lparr>ptab := upd_proc i f (ptab s)\<rparr>) q = (if q = i \<and> i < length (procs (ptab s)) then f (pr s i) else pr s q)"
  by (cases "i < length (procs (ptab s))") (simp_all add: pr_def upd_proc_def list_update_beyond)

lemma length_upd: "length (procs (upd_proc i f x)) = length (procs x)"
  by (simp add: upd_proc_def)

lemma chan_kept [simp]: "p_chan (kill_one x) = p_chan x" "p_chan (wake_one v ch (i, x)) = p_chan x"
  by (simp_all add: kill_one_def Let_def)

lemmas sw_simps = pr_upd length_upd

lemma sw_inv_step:
  assumes step: "sw_step n s t" and inv: "sw_inv n s"
  shows "sw_inv n t"
  using step
proof (cases rule: sw_step.cases)
  case (lk_acquire p l)
  then show ?thesis using inv by (auto simp: sw_inv_def pr_def)
next
  case (lk_release p l)
  then show ?thesis using inv by (auto simp: sw_inv_def pr_def)
next
  case (sleep_call p l ch)
  then show ?thesis by (intro sw_inv_move[OF inv, of t p "Sleep_called ch l"]) (auto simp: pr_def)
next
  case (sleep_lock p ch l)
  then show ?thesis using sw_invD(1,2)[OF inv, of ch l p] by (intro sw_inv_move[OF inv, of t p "Sleep_both ch l"]) auto
next
  case (sleep_release p ch l)
  then show ?thesis using sw_invD(1,2)[OF inv, of ch l p] sw_invD(4)[OF inv, of p p]
    by (intro sw_inv_move[OF inv, of t p "Sleep_own ch l"]) (auto simp: pr_def)
next
  case (sleep_state p ch l r)
  note r = sleep_stores[OF sleep_state(3)]
  show ?thesis using sleep_state r sw_invD(6)[OF inv] sw_invD(4)[OF inv, of p p]
    by (intro sw_inv_move[OF inv, of t p "Sleep_set ch l"]) (auto simp: pr_def)
next
  case (sched_off p ch l)
  then show ?thesis using sw_invD(1,3)[OF inv, of ch l p] by (intro sw_inv_move[OF inv, of t p "Switched ch l"]) auto
next
  case (sched_on p ch l)
  then show ?thesis using sw_invD(1)[OF inv, of ch l p] by (intro sw_inv_move[OF inv, of t p "Resumed l"]) (auto simp: sw_simps)
next
  case (sleep_tidy p l r)
  note r = sleep_return_stores[OF sleep_tidy(3)]
  show ?thesis using sleep_tidy r by (intro sw_inv_move[OF inv, of t p "Reacquiring l"]) (auto simp: pr_def)
next
  case (sleep_reacquire p l)
  then show ?thesis by (intro sw_inv_move[OF inv, of t p Outside]) (auto simp: pr_def)
next
  case (wakeup_call p ch)
  then show ?thesis by (intro sw_inv_move[OF inv, of t p "Waking ch 0"]) (auto simp: pr_def)
next
  case (wakeup_self p ch i)
  then show ?thesis by (intro sw_inv_move[OF inv, of t p "Waking ch (i + 1)"]) auto
next
  case (wakeup_lock p ch i)
  then have "i \<noteq> p" using sw_invD(6)[OF inv] by (auto simp: myproc_def seen_by_def)
  then show ?thesis using wakeup_lock by (intro sw_inv_move[OF inv, of t p "Waking_lock ch i"]) auto
next
  case (wakeup_one p ch i)
  then show ?thesis by (intro sw_inv_move[OF inv, of t p "Waking ch (i + 1)"]) (auto simp: sw_simps)
next
  case (wakeup_end p ch)
  then show ?thesis by (intro sw_inv_move[OF inv, of t p Outside]) auto
next
  case (kill_lock p i pid)
  then show ?thesis by (intro sw_inv_move[OF inv, of t p "Killing pid i"]) auto
next
  case (kill_visit p pid i)
  then show ?thesis by (intro sw_inv_move[OF inv, of t p Outside]) (auto simp: sw_simps)
qed

lemma sw_inv_reachable: "(sw_step n)\<^sup>*\<^sup>* s t \<Longrightarrow> sw_inv n s \<Longrightarrow> sw_inv n t"
  by (induction rule: rtranclp_induct) (auto intro: sw_inv_step)

section \<open>No wakeup is lost\<close>

text \<open>
  The process has called \<open>sleep\<close> and depends on being woken: it has not come to the store of its state, or its
  state is SLEEPING.
\<close>

definition waiting :: "sw_state \<Rightarrow> nat \<Rightarrow> bool" where
  "waiting s p \<longleftrightarrow> (\<exists>ch l. in_sleep ch l (at s p)) \<and> (has_stored (at s p) \<longrightarrow> p_state (pr s p) = SLEEPING)"

text \<open>The loop of \<open>wakeup(ch)\<close> has not passed \<open>p\<close>.\<close>

definition not_past :: "chan \<Rightarrow> nat \<Rightarrow> pplace \<Rightarrow> bool" where
  "not_past ch p x \<longleftrightarrow> (\<exists>i \<le> p. x = Waking ch i \<or> x = Waking_lock ch i)"

text \<open>
  What holds from the call of \<open>wakeup(ch)\<close> by \<open>q\<close> on, with \<open>k\<close> and \<open>w\<close> the counts of calls at that moment:
  while \<open>p\<close> waits in the sleep it was in, it has released the lock, and the loop has not passed it.
\<close>

definition owed :: "chan \<Rightarrow> nat \<Rightarrow> nat \<Rightarrow> nat \<Rightarrow> nat \<Rightarrow> sw_state \<Rightarrow> bool" where
  "owed ch p q k w t \<longleftrightarrow> k \<le> sleeps t p \<and> w \<le> wakes t q \<and>
     (sleeps t p = k \<longrightarrow> wakes t q = w \<longrightarrow> waiting t p \<longrightarrow>
        (\<exists>l. in_sleep ch l (at t p)) \<and> \<not> before_release (at t p) \<and> not_past ch p (at t q))"

text \<open>A step that leaves \<open>q\<close> where it is and does not make \<open>p\<close> wait.\<close>

lemma owed_other:
  assumes o: "owed ch p q k w s" and c: "sleeps s p \<le> sleeps t p" "wakes s q \<le> wakes t q"
    and q: "wakes t q = wakes s q \<Longrightarrow> not_past ch p (at s q) \<Longrightarrow> not_past ch p (at t q)"
    and p: "sleeps t p = sleeps s p \<Longrightarrow> waiting t p \<Longrightarrow>
      waiting s p \<and> (\<not> before_release (at s p) \<longrightarrow> \<not> before_release (at t p)) \<and> (\<forall>l. in_sleep ch l (at s p) \<longrightarrow> in_sleep ch l (at t p))"
  shows "owed ch p q k w t"
  using assms unfolding owed_def by (metis dual_order.trans order_antisym)

lemma state_kept: "p_state (wake_one v ch (i, x)) = SLEEPING \<Longrightarrow> p_state x = SLEEPING" "p_state (kill_one x) = SLEEPING \<Longrightarrow> False"
  by (auto simp: wake_one_def kill_one_def Let_def split: if_splits)

lemma owed_step:
  assumes step: "sw_step n s t" and inv: "sw_inv n s" and o: "owed ch p q k w s" and pq: "p \<noteq> q"
  shows "owed ch p q k w t"
  using step
proof (cases rule: sw_step.cases)
  case (wakeup_one r c i)
  show ?thesis
  proof (cases "r = q \<and> c = ch \<and> i = p")
    case True
    have "plks s p = Some q" using wakeup_one True sw_invD(4)[OF inv, of p q] by simp
    then have "\<not> has_plk p p (at s p)" using sw_invD(4)[OF inv, of p p] pq by simp
    moreover have "p < n" using sw_invD(5)[OF inv, of q ch p] wakeup_one True by simp
    ultimately have "\<not> waiting t p" if "waiting s p" "in_sleep ch l (at s p)" "\<not> before_release (at s p)" for l
      using that wakeup_one True sw_invD(3)[OF inv that(2)] sw_invD(6)[OF inv] pq
      by (cases "at s p") (auto simp: waiting_def sw_simps wake_one_def myproc_def seen_by_def)
    moreover have "waiting s p" if "waiting t p"
      using that wakeup_one True pq by (auto simp: waiting_def sw_simps dest: state_kept split: if_splits)
    ultimately show ?thesis using o wakeup_one unfolding owed_def by auto
  next
    case False
    then show ?thesis using wakeup_one sw_invD(5)[OF inv, of r c i]
      by (intro owed_other[OF o]) (auto simp: waiting_def not_past_def sw_simps dest: state_kept split: if_splits)
  qed
next
  case (sleep_state r c l x)
  note x = sleep_stores[OF sleep_state(3)]
  show ?thesis using sleep_state x pq
    by (intro owed_other[OF o]) (auto simp: waiting_def not_past_def pr_def nth_list_update split: if_splits)
next
  case (sleep_tidy r l x)
  note x = sleep_return_stores[OF sleep_tidy(3)]
  show ?thesis using sleep_tidy x pq
    by (intro owed_other[OF o]) (auto simp: waiting_def not_past_def pr_def nth_list_update split: if_splits)
next
  case (sched_on r c l)
  then show ?thesis using pq
    by (intro owed_other[OF o]) (auto simp: waiting_def not_past_def sw_simps split: if_splits)
next
  case (kill_visit r pid i)
  then show ?thesis
    by (intro owed_other[OF o]) (auto simp: waiting_def not_past_def sw_simps dest: state_kept split: if_splits)
next
  case (wakeup_self r c i)
  moreover from this have "i = r" by (auto simp: myproc_def seen_by_def split: if_splits)
  ultimately show ?thesis using pq
    by (intro owed_other[OF o]) (auto simp: waiting_def not_past_def pr_def Suc_le_eq le_less split: if_splits)
next
  case (wakeup_end r c)
  then have "waiting t p \<Longrightarrow> waiting s p" "p \<noteq> r \<Longrightarrow> at t p = at s p" by (auto simp: waiting_def split: if_splits)
  then show ?thesis using o wakeup_end sw_invD(1)[OF inv, of ch _ p] pq
    unfolding owed_def by (cases "q = r") (fastforce simp: not_past_def waiting_def)+
qed (intro owed_other[OF o]; use pq in \<open>auto simp: waiting_def not_past_def sw_simps pr_def split: if_splits\<close>)+

text \<open>
  C6. No wakeup is lost. Suppose that \<open>q\<close> holds the lock \<open>l\<close> and calls \<open>wakeup(ch)\<close> at a moment when \<open>p\<close>,
  anywhere from its call of \<open>sleep(ch, l)\<close> on, waits to be woken. Then in every state that any interleaving
  of \<open>sleep\<close>, \<open>wakeup\<close>, \<open>kill\<close> and the scheduler reaches after the loop of that \<open>wakeup\<close> has passed \<open>p\<close>, or the call has
  returned, and while \<open>p\<close> has not called \<open>sleep\<close> again, \<open>p\<close> no longer waits: it has been made runnable.
\<close>

theorem no_lost_wakeup:
  assumes "sw_start n s0" "(sw_step n)\<^sup>*\<^sup>* s0 s" and q: "at s q = Outside" "lks s l = Some q"
    and p: "in_sleep ch l (at s p)" "waiting s p"
    and call: "s1 = go q (Waking ch 0) (s\<lparr>wakes := (wakes s)(q := wakes s q + 1)\<rparr>)" and run: "(sw_step n)\<^sup>*\<^sup>* s1 t"
    and same: "sleeps t p = sleeps s p" "wakes t q = wakes s1 q"
    and past: "\<forall>i \<le> p. at t q \<noteq> Waking ch i \<and> at t q \<noteq> Waking_lock ch i"
  shows "\<not> waiting t p"
proof -
  have inv: "sw_inv n s" by (rule sw_inv_reachable[OF assms(2) sw_inv_start[OF assms(1)]])
  have pq: "p \<noteq> q" using p(1) q(1) by auto
  have "\<not> before_release (at s p)" using sw_invD(2)[OF inv p(1)] q(2) pq by auto
  then have o1: "owed ch p q (sleeps s p) (wakes s1 q) s1"
    using p pq by (auto simp: owed_def call not_past_def)
  have i1: "sw_inv n s1" using sw_inv_step[OF wakeup_call[OF q(1)] inv] call by simp
  from run have "sw_inv n t \<and> owed ch p q (sleeps s p) (wakes s1 q) t"
    by (induction rule: rtranclp_induct) (use i1 o1 sw_inv_step owed_step[OF _ _ _ pq] in blast)+
  then show ?thesis using same past by (auto simp: owed_def not_past_def)
qed

text \<open>Process 1 goes to sleep on the tick counter and process 0 wakes it.\<close>

definition ex_table :: "procstate \<Rightarrow> chan option \<Rightarrow> proc_state" where
  "ex_table x c = \<lparr>mem = (\<lambda>_. 0), freelist = 0, kend = 0x80022000,
     procs = [zero_proc\<lparr>p_state := RUNNING\<rparr>, zero_proc\<lparr>p_state := x, p_chan := c\<rparr>], nextpid = 3, initproc = Some 0, cur = None, ticks = 0\<rparr>"

definition ex_sw :: "nat option \<Rightarrow> nat option \<Rightarrow> proc_state \<Rightarrow> pplace \<Rightarrow> pplace \<Rightarrow> nat \<Rightarrow> nat \<Rightarrow> sw_state" where
  "ex_sw h ph tab x y k w = \<lparr>lks = (\<lambda>_. None)(0 := h), plks = (\<lambda>_. None)(1 := ph), ptab = tab, at = (\<lambda>_. Outside)(0 := x, 1 := y),
     sleeps = (\<lambda>_. 0)(1 := k), wakes = (\<lambda>_. 0)(0 := w)\<rparr>"

lemma ex_sw_simps [simp]:
  "lks (ex_sw h ph tab x y k w) = (\<lambda>_. None)(0 := h)" "plks (ex_sw h ph tab x y k w) = (\<lambda>_. None)(1 := ph)"
  "ptab (ex_sw h ph tab x y k w) = tab" "at (ex_sw h ph tab x y k w) = (\<lambda>_. Outside)(0 := x, 1 := y)"
  "sleeps (ex_sw h ph tab x y k w) = (\<lambda>_. 0)(1 := k)" "wakes (ex_sw h ph tab x y k w) = (\<lambda>_. 0)(0 := w)"
  by (simp_all add: ex_sw_def)

lemma ex_falls_asleep:
  "(sw_step 2)\<^sup>*\<^sup>* (ex_sw None None (ex_table RUNNING None) Outside Outside 0 0)
     (ex_sw (Some 0) None (ex_table SLEEPING (Some ChTicks)) Outside (Switched ChTicks 0) 1 0)"
proof -
  let ?r = "ex_table RUNNING None" and ?z = "ex_table SLEEPING (Some ChTicks)" and ?c = "ChTicks"
  have s1: "sw_step 2 (ex_sw None None ?r Outside Outside 0 0) (ex_sw (Some 1) None ?r Outside Outside 0 0)"
    using lk_acquire[of "ex_sw None None ?r Outside Outside 0 0" 1 0 2] by (simp add: ex_sw_def)
  have s2: "sw_step 2 (ex_sw (Some 1) None ?r Outside Outside 0 0) (ex_sw (Some 1) None ?r Outside (Sleep_called ?c 0) 1 0)"
    using sleep_call[of "ex_sw (Some 1) None ?r Outside Outside 0 0" 1 2 0 ?c] by (simp add: ex_sw_def go_def)
  have s3: "sw_step 2 (ex_sw (Some 1) None ?r Outside (Sleep_called ?c 0) 1 0) (ex_sw (Some 1) (Some 1) ?r Outside (Sleep_both ?c 0) 1 0)"
    using sleep_lock[of "ex_sw (Some 1) None ?r Outside (Sleep_called ?c 0) 1 0" 1 ?c 0 2] by (simp add: ex_sw_def go_def set_plk_def)
  have s4: "sw_step 2 (ex_sw (Some 1) (Some 1) ?r Outside (Sleep_both ?c 0) 1 0) (ex_sw None (Some 1) ?r Outside (Sleep_own ?c 0) 1 0)"
    using sleep_release[of "ex_sw (Some 1) (Some 1) ?r Outside (Sleep_both ?c 0) 1 0" 1 ?c 0 2] by (simp add: ex_sw_def go_def)
  have "sleep ?c (seen_by 1 (ex_sw None (Some 1) ?r Outside (Sleep_own ?c 0) 1 0)) = Ret ?z"
    by (simp add: sleep_def seen_by_def myproc_def ex_table_def upd_proc_def)
  then have s5: "sw_step 2 (ex_sw None (Some 1) ?r Outside (Sleep_own ?c 0) 1 0) (ex_sw None (Some 1) ?z Outside (Sleep_set ?c 0) 1 0)"
    using sleep_state[of "ex_sw None (Some 1) ?r Outside (Sleep_own ?c 0) 1 0" 1 ?c 0 ?z 2] by (simp add: ex_sw_def go_def)
  have s6: "sw_step 2 (ex_sw None (Some 1) ?z Outside (Sleep_set ?c 0) 1 0) (ex_sw None None ?z Outside (Switched ?c 0) 1 0)"
    using sched_off[of "ex_sw None (Some 1) ?z Outside (Sleep_set ?c 0) 1 0" 1 ?c 0 2] by (simp add: ex_sw_def go_def set_plk_def)
  have s7: "sw_step 2 (ex_sw None None ?z Outside (Switched ?c 0) 1 0) (ex_sw (Some 0) None ?z Outside (Switched ?c 0) 1 0)"
    using lk_acquire[of "ex_sw None None ?z Outside (Switched ?c 0) 1 0" 0 0 2] by (simp add: ex_sw_def)
  note into = converse_rtranclp_into_rtranclp[where r = "sw_step 2"]
  show ?thesis
    by (rule into[OF s1], rule into[OF s2], rule into[OF s3], rule into[OF s4], rule into[OF s5], rule into[OF s6], rule into[OF s7])
      (rule rtranclp.rtrancl_refl)
qed

lemma ex_wakes:
  "(sw_step 2)\<^sup>*\<^sup>* (ex_sw (Some 0) None (ex_table SLEEPING (Some ChTicks)) (Waking ChTicks 0) (Switched ChTicks 0) 1 1)
     (ex_sw (Some 0) None (ex_table RUNNABLE (Some ChTicks)) Outside (Switched ChTicks 0) 1 1)"
proof -
  let ?z = "ex_table SLEEPING (Some ChTicks)" and ?w = "ex_table RUNNABLE (Some ChTicks)" and ?c = "ChTicks"
  let ?p = "Switched ?c 0"
  have s1: "sw_step 2 (ex_sw (Some 0) None ?z (Waking ?c 0) ?p 1 1) (ex_sw (Some 0) None ?z (Waking ?c 1) ?p 1 1)"
    using wakeup_self[of "ex_sw (Some 0) None ?z (Waking ?c 0) ?p 1 1" 0 ?c 0 2]
    by (simp add: ex_sw_def go_def myproc_def seen_by_def ex_table_def fun_upd_twist)
  have s2: "sw_step 2 (ex_sw (Some 0) None ?z (Waking ?c 1) ?p 1 1) (ex_sw (Some 0) (Some 0) ?z (Waking_lock ?c 1) ?p 1 1)"
    using wakeup_lock[of "ex_sw (Some 0) None ?z (Waking ?c 1) ?p 1 1" 0 ?c 1 2]
    by (simp add: ex_sw_def go_def set_plk_def myproc_def seen_by_def ex_table_def fun_upd_twist)
  have u: "upd_proc 1 (\<lambda>x. wake_one (seen_by 0 (ex_sw (Some 0) (Some 0) ?z (Waking_lock ?c 1) ?p 1 1)) ?c (1, x)) ?z = ?w"
    by (simp add: upd_proc_def wake_one_def seen_by_def myproc_def ex_table_def)
  have s3: "sw_step 2 (ex_sw (Some 0) (Some 0) ?z (Waking_lock ?c 1) ?p 1 1) (ex_sw (Some 0) None ?w (Waking ?c 2) ?p 1 1)"
    using wakeup_one[of "ex_sw (Some 0) (Some 0) ?z (Waking_lock ?c 1) ?p 1 1" 0 ?c 1 2, simplified ex_sw_simps u]
    by (simp add: ex_sw_def go_def set_plk_def fun_upd_twist numeral_2_eq_2)
  have s4: "sw_step 2 (ex_sw (Some 0) None ?w (Waking ?c 2) ?p 1 1) (ex_sw (Some 0) None ?w Outside ?p 1 1)"
    using wakeup_end[of "ex_sw (Some 0) None ?w (Waking ?c 2) ?p 1 1" 0 ?c 2] by (simp add: ex_sw_def go_def fun_upd_twist)
  note into = converse_rtranclp_into_rtranclp[where r = "sw_step 2"]
  show ?thesis by (rule into[OF s1], rule into[OF s2], rule into[OF s3], rule into[OF s4]) (rule rtranclp.rtrancl_refl)
qed

theorem no_lost_wakeup_witness:
  "waiting (ex_sw (Some 0) None (ex_table SLEEPING (Some ChTicks)) Outside (Switched ChTicks 0) 1 0) 1 \<and>
   \<not> waiting (ex_sw (Some 0) None (ex_table RUNNABLE (Some ChTicks)) Outside (Switched ChTicks 0) 1 1) 1"
proof -
  let ?start = "ex_sw None None (ex_table RUNNING None) Outside Outside 0 0"
  let ?s = "ex_sw (Some 0) None (ex_table SLEEPING (Some ChTicks)) Outside (Switched ChTicks 0) 1 0"
  let ?call = "ex_sw (Some 0) None (ex_table SLEEPING (Some ChTicks)) (Waking ChTicks 0) (Switched ChTicks 0) 1 1"
  have start: "sw_start 2 ?start" by (simp add: sw_start_def ex_table_def fun_eq_iff)
  have w: "waiting ?s 1" by (auto simp: waiting_def pr_def ex_table_def)
  have call: "?call = go 0 (Waking ChTicks 0) (?s\<lparr>wakes := (wakes ?s)(0 := wakes ?s 0 + 1)\<rparr>)"
    by (simp add: go_def ex_sw_def fun_upd_twist)
  show ?thesis using w no_lost_wakeup[OF start ex_falls_asleep _ _ _ w call ex_wakes, of 0] by simp
qed

end
