(* ===== verification/Ulib.thy ===== *)
theory Ulib
  imports Kstring Printf
begin

text \<open>
  The user library \<^verbatim>\<open>user/ulib.c\<close>, and what the user programs see of the kernel when they read a
  file, a pipe or the console. A C string is the list of the bytes from the pointer to the end of
  the object it points into; running off the object is \<^const>\<open>Undef\<close>. The main results are that
  \<open>strcmp\<close> is the lexicographic order of strings and that \<open>atoi\<close> reads back what \<open>printf\<close> prints.
\<close>

section \<open>Reading\<close>

text \<open>
  What the successive \<open>read\<close> calls on a descriptor can return: bytes arrive in pieces (a line typed
  at the console, what a pipe holds, what is left of a file), or the call fails. A call for at most
  \<open>k\<close> bytes takes them from the first piece; when nothing is left, or the piece is empty, it
  returns 0 bytes.
\<close>

type_synonym arrivals = "uchar list option list"

fun uread :: "nat \<Rightarrow> arrivals \<Rightarrow> uchar list option \<times> arrivals" where
  "uread k [] = (Some [], [])"
| "uread k (None # cs) = (None, cs)"
| "uread k (Some c # cs) = (Some (take k c), if length c \<le> k then cs else Some (drop k c) # cs)"

text \<open>The number of bytes and pieces still to come.\<close>

definition pending :: "arrivals \<Rightarrow> nat" where
  "pending rs = (\<Sum>r\<leftarrow>rs. case r of None \<Rightarrow> 1 | Some c \<Rightarrow> Suc (length c))"

lemma uread_pending:
  assumes "uread k rs = (Some c, rs')" "c \<noteq> []"
  shows "pending rs' < pending rs"
  using assms by (cases "(k, rs)" rule: uread.cases) (auto simp: pending_def split: if_splits)

section \<open>String routines\<close>

fun strcpy_stores :: "uchar list \<Rightarrow> uchar list outcome" where
  "strcpy_stores [] = Undef"
| "strcpy_stores (c # t) = (if c = 0 then Ret [0] else bindo (strcpy_stores t) (\<lambda>r. Ret (c # r)))"

definition strcpy :: "uchar list \<Rightarrow> uchar list \<Rightarrow> uchar list outcome" where
  "strcpy s t = bindo (strcpy_stores t) (\<lambda>w. if length w \<le> length s then Ret (overwrite s 0 w) else Undef)"

fun strcmp :: "uchar list \<Rightarrow> uchar list \<Rightarrow> int outcome" where
  "strcmp (a # p) (b # q) = (if a \<noteq> 0 \<and> a = b then strcmp p q else Ret (uint a - uint b))"
| "strcmp _ _ = Undef"

fun ulib_strlen :: "uchar list \<Rightarrow> nat outcome" where
  "ulib_strlen [] = Undef"
| "ulib_strlen (c # s) = (if c = 0 then Ret 0 else bindo (ulib_strlen s) (\<lambda>n. Ret (Suc n)))"

definition ulib_memset :: "memory \<Rightarrow> uint64 \<Rightarrow> uchar \<Rightarrow> uint \<Rightarrow> memory" where
  "ulib_memset m dst c n = memset_loop m dst c 0 (unat n)"

text \<open>The offset of the first occurrence of \<open>c\<close>, or None for the null pointer.\<close>

fun strchr :: "uchar list \<Rightarrow> uchar \<Rightarrow> nat option outcome" where
  "strchr [] c = Undef"
| "strchr (a # s) c =
     (if a = 0 then Ret None else if a = c then Ret (Some 0)
      else bindo (strchr s c) (\<lambda>r. Ret (map_option Suc r)))"

text \<open>The loop of \<open>gets\<close>, with the number of bytes there is still room for and the bytes it has stored; it returns them and what is left to read.\<close>

fun gets_loop :: "nat \<Rightarrow> arrivals \<Rightarrow> uchar list \<Rightarrow> uchar list \<times> arrivals" where
  "gets_loop 0 rs got = (got, rs)"
| "gets_loop (Suc left) rs got =
     (case uread 1 rs of
        (Some [c], rs') \<Rightarrow>
          if c = 0x0a \<or> c = 0x0d then (got @ [c], rs') else gets_loop left rs' (got @ [c])
      | (_, rs') \<Rightarrow> (got, rs'))"

definition gets :: "uchar list \<Rightarrow> nat \<Rightarrow> arrivals \<Rightarrow> (uchar list \<times> arrivals) outcome" where
  "gets buf n rs =
     (let (got, rs') = gets_loop (n - 1) rs [] in
      if length got < length buf then Ret (overwrite buf 0 (got @ [0]), rs') else Undef)"

definition is_digit :: "uchar \<Rightarrow> bool" where
  "is_digit c \<longleftrightarrow> 0x30 \<le> c \<and> c \<le> 0x39"

abbreviation (input) INT_MAX :: int where "INT_MAX \<equiv> 0x7fffffff"

fun atoi_loop :: "int \<Rightarrow> uchar list \<Rightarrow> int outcome" where
  "atoi_loop n [] = Undef"
| "atoi_loop n (c # s) =
     (if \<not> is_digit c then Ret n
      else if n * 10 + uint c > INT_MAX then Undef
      else atoi_loop (n * 10 + uint c - 0x30) s)"

definition atoi :: "uchar list \<Rightarrow> int outcome" where
  "atoi s = atoi_loop 0 s"

fun ulib_memcmp :: "uchar list \<Rightarrow> uchar list \<Rightarrow> nat \<Rightarrow> int outcome" where
  "ulib_memcmp s1 s2 0 = Ret 0"
| "ulib_memcmp (a # s1) (b # s2) (Suc n) =
     (if a \<noteq> b then Ret (uint a - uint b) else ulib_memcmp s1 s2 n)"
| "ulib_memcmp _ _ (Suc n) = Undef"

definition ulib_memcpy :: "memory \<Rightarrow> uint64 \<Rightarrow> uint64 \<Rightarrow> uint \<Rightarrow> memory" where
  "ulib_memcpy m dst src n = ulib_memmove m dst src (sint n)"

section \<open>Comparison\<close>

text \<open>The lexicographic order of byte strings, a proper prefix being smaller.\<close>

fun lex_less :: "uchar list \<Rightarrow> uchar list \<Rightarrow> bool" where
  "lex_less p [] \<longleftrightarrow> False"
| "lex_less [] (b # q) \<longleftrightarrow> True"
| "lex_less (a # p) (b # q) \<longleftrightarrow> a < b \<or> a = b \<and> lex_less p q"

lemma strcmp_order:
  assumes "0 \<notin> set p" "0 \<notin> set q"
  shows "\<exists>r. strcmp (p @ 0 # p') (q @ 0 # q') = Ret r \<and> (r < 0 \<longleftrightarrow> lex_less p q) \<and> (r = 0 \<longleftrightarrow> p = q)"
  using assms
proof (induction p q rule: lex_less.induct)
  case (1 p)
  show ?case
  proof (cases p)
    case (Cons a u)
    then have "a \<noteq> 0" using 1 by auto
    then have "0 < uint a" using unsigned_eq_0_iff[of a] by (simp add: order_less_le)
    then show ?thesis using Cons \<open>a \<noteq> 0\<close> by simp
  qed simp
next
  case (2 b q)
  then have "b \<noteq> 0" by auto
  then have "0 < uint b" using unsigned_eq_0_iff[of b] by (simp add: order_less_le)
  then show ?case by simp
next
  case (3 a p b q)
  then have "a \<noteq> 0" by auto
  show ?case
  proof (cases "a = b")
    case True
    then show ?thesis using 3 \<open>a \<noteq> 0\<close> by simp
  next
    case False
    then have "uint a \<noteq> uint b" by (simp add: word_uint_eq_iff)
    then show ?thesis using False by (simp add: word_less_def)
  qed
qed

section \<open>Reading a number\<close>

lemma uint_digit:
  assumes "d < 10"
  shows "digit upper_digits d = word_of_nat (0x30 + d)"
proof -
  have "\<forall>d \<in> set [0..<10]. digit upper_digits d = word_of_nat (0x30 + d)" by code_simp
  then show ?thesis using assms by simp
qed

lemma atoi_loop_digit:
  assumes "d < 10" "0 \<le> n" "n * 10 + int d + 0x30 \<le> INT_MAX"
  shows "atoi_loop n (digit upper_digits d # s) = atoi_loop (n * 10 + int d) s"
proof -
  have u: "uint (digit upper_digits d) = 0x30 + int d"
  proof -
    have "uint (word_of_nat (0x30 + d) :: uchar) = int (0x30 + d)"
      using assms(1) by (simp only: unsigned_of_nat take_bit_nat_eq_self) (simp add: take_bit_nat_eq_self)
    then show ?thesis using assms(1) by (simp add: uint_digit)
  qed
  then have "is_digit (digit upper_digits d)"
    using assms(1) by (simp add: is_digit_def word_le_def)
  then show ?thesis using u assms by simp
qed

lemma digits_val_less:
  fixes ds :: "nat list"
  shows "v * base ^ length ds \<le> foldl (\<lambda>v d. v * base + d) v ds"
proof (induction ds arbitrary: v)
  case (Cons d ds)
  have "v * base ^ length (d # ds) = (v * base) * base ^ length ds" by (simp add: mult.assoc)
  also have "\<dots> \<le> (v * base + d) * base ^ length ds" by simp
  also have "\<dots> \<le> foldl (\<lambda>v d. v * base + d) v (d # ds)" using Cons by simp
  finally show ?case .
qed simp

lemma atoi_loop_digits:
  assumes "\<forall>d \<in> set ds. d < 10" "\<not> is_digit c"
    and "int (foldl (\<lambda>v d. v * 10 + d) v ds) + 0x30 \<le> INT_MAX"
  shows "atoi_loop (int v) (map (digit upper_digits) ds @ c # s) = Ret (int (foldl (\<lambda>v d. v * 10 + d) v ds))"
  using assms(1,3)
proof (induction ds arbitrary: v)
  case Nil
  then show ?case using assms(2) by simp
next
  case (Cons d ds)
  let ?w = "foldl (\<lambda>v d. v * 10 + d) (v * 10 + d) ds"
  have "v * 10 + d \<le> (v * 10 + d) * 10 ^ length ds" by simp
  also have "\<dots> \<le> ?w" using digits_val_less[of "v * 10 + d" 10 ds] by simp
  finally have "int v * 10 + int d + 0x30 \<le> INT_MAX" using Cons.prems(2) by simp
  then have "atoi_loop (int v) (map (digit upper_digits) (d # ds) @ c # s) =
      atoi_loop (int (v * 10 + d)) (map (digit upper_digits) ds @ c # s)"
    using Cons.prems(1) atoi_loop_digit[of d "int v"] by (simp del: atoi_loop.simps)
  moreover have "atoi_loop (int (v * 10 + d)) (map (digit upper_digits) ds @ c # s) = Ret (int ?w)"
    using Cons by (intro Cons.IH) simp_all
  ultimately show ?case by simp
qed

text \<open>
  C30. The string comparison of the user library orders strings lexicographically by unsigned bytes: on two
  terminated strings it returns a negative number exactly when the first one is smaller, and 0
  exactly when they are equal, whatever follows the terminators.
\<close>

theorem strcmp_lexicographic:
  assumes "0 \<notin> set p" "0 \<notin> set q"
  shows "\<exists>r. strcmp (p @ 0 # p') (q @ 0 # q') = Ret r \<and> (r < 0 \<longleftrightarrow> lex_less p q) \<and> (r = 0 \<longleftrightarrow> p = q)"
  by (rule strcmp_order[OF assms])

theorem strcmp_lexicographic_witness:
  "strcmp (str ''cat'' @ [0]) (str ''cats'' @ [0]) = Ret (- 115) \<and> lex_less (str ''cat'') (str ''cats'')"
proof -
  have "\<exists>r. strcmp (str ''cat'' @ [0]) (str ''cats'' @ [0]) = Ret r \<and>
      (r < 0 \<longleftrightarrow> lex_less (str ''cat'') (str ''cats'')) \<and> (r = 0 \<longleftrightarrow> str ''cat'' = str ''cats'')"
    by (rule strcmp_lexicographic) (simp_all add: str_def)
  moreover have "strcmp (str ''cat'' @ [0]) (str ''cats'' @ [0]) = Ret (- 115)" by code_simp
  ultimately show ?thesis by auto
qed

text \<open>
  C29. What \<open>atoi\<close> makes of a number printed by \<open>printf\<close> in decimal, followed by any character but a digit: for
  \<open>0 \<le> n \<le> INT_MAX - 48\<close> it is \<open>n\<close>. For a negative \<open>n\<close> but the smallest \<open>int\<close>, which is not printed, it is 0, since
  \<open>atoi\<close> knows no sign. For a larger \<open>n\<close> nothing is claimed: the intermediate sum of \<open>atoi\<close>, formed before the code of
  the digit zero is subtracted, exceeds \<open>int\<close>.
\<close>

theorem atoi_printint:
  assumes "INT_MIN < n" "n \<le> INT_MAX - 0x30" "\<not> is_digit c"
  shows "bindo (uprintint n 10 True) (\<lambda>out. atoi (out @ c # s)) = Ret (if 0 \<le> n then n else 0)"
proof (cases "0 \<le> n")
  case True
  let ?ds = "rev (digits_of 10 (nat n))"
  have n: "unat (word_of_int n :: uint) = nat n"
    using True assms(2) by (simp add: unsigned_of_int take_bit_int_eq_self)
  have "length (digits_of 10 (nat n)) \<le> 10"
    using assms by (intro digits_of_length) auto
  then have out: "uprintint n 10 True = Ret (map (digit upper_digits) ?ds)"
    using True n by (simp add: uprintint_def print_num_def rev_map)
  have "foldl (\<lambda>v d. v * 10 + d) 0 ?ds = nat n"
    using digits_of_correct(1)[of 10 "nat n"] by (simp add: digits_val_def)
  then have "atoi_loop (int 0) (map (digit upper_digits) ?ds @ c # s) = Ret n"
    using atoi_loop_digits[of ?ds c 0 s] digits_of_correct(2)[of 10 "nat n"] assms True by simp
  then show ?thesis using out True by (simp add: atoi_def)
next
  case False
  have "length (digits_of 10 (nat (- n))) \<le> 10"
    using assms(1) by (intro digits_of_length) auto
  then have "uprintint n 10 True = Ret (0x2d # map (digit upper_digits) (rev (digits_of 10 (nat (- n)))))"
    using False assms(1) by (simp add: uprintint_def print_num_def rev_map)
  then show ?thesis using False by (simp add: atoi_def is_digit_def)
qed

theorem atoi_printint_witness:
  "bindo (uprintint 2048 10 True) (\<lambda>out. atoi (out @ [0])) = Ret 2048 \<and> bindo (uprintint (- 7) 10 True) (\<lambda>out. atoi (out @ [0])) = Ret 0"
  using atoi_printint[of 2048 0 "[]"] atoi_printint[of "- 7" 0 "[]"] by (simp add: is_digit_def)

end
