(* ===== verification/Grep.thy ===== *)
theory Grep
  imports Ulib
begin

text \<open>
  The pattern search program \<^verbatim>\<open>user/grep.c\<close>: the matcher \<open>match\<close>, \<open>matchhere\<close>, \<open>matchstar\<close> and
  the buffered loop \<open>grep\<close>. The matcher is shown equivalent to the language a pattern denotes, and
  the loop to selecting the lines of the input that match, however the input arrives.
\<close>

section \<open>The matcher\<close>

abbreviation (input) star :: uchar where "star \<equiv> 0x2a"
abbreviation (input) dot :: uchar where "dot \<equiv> 0x2e"
abbreviation (input) dollar :: uchar where "dollar \<equiv> 0x24"
abbreviation (input) caret :: uchar where "caret \<equiv> 0x5e"
abbreviation (input) newline :: uchar where "newline \<equiv> 0x0a"

text \<open>The character a pointer points to.\<close>

definition deref :: "uchar list \<Rightarrow> uchar outcome" where
  "deref s = (case s of [] \<Rightarrow> Undef | c # _ \<Rightarrow> Ret c)"

function (sequential) matchhere :: "uchar list \<Rightarrow> uchar list \<Rightarrow> bool outcome"
  and matchstar :: "uchar \<Rightarrow> uchar list \<Rightarrow> uchar list \<Rightarrow> bool outcome"
where
  "matchhere [] tx = Undef"
| "matchhere (r # re) tx =
     (if r = 0 then Ret True
      else case re of
        [] \<Rightarrow> Undef
      | r1 # re2 \<Rightarrow>
          if r1 = star then matchstar r re2 tx
          else if r = dollar \<and> r1 = 0 then bindo (deref tx) (\<lambda>t. Ret (t = 0))
          else case tx of
            [] \<Rightarrow> Undef
          | t # tx1 \<Rightarrow> if t \<noteq> 0 \<and> (r = dot \<or> r = t) then matchhere re tx1 else Ret False)"
| "matchstar c re tx =
     bindo (matchhere re tx) (\<lambda>found.
       if found then Ret True
       else case tx of
         [] \<Rightarrow> Undef
       | t # tx1 \<Rightarrow> if t \<noteq> 0 \<and> (t = c \<or> c = dot) then matchstar c re tx1 else Ret False)"
  by pat_completeness auto
termination
  by (relation "inv_image (less_than <*lex*> less_than <*lex*> less_than)
       (\<lambda>x. case x of Inl (re, tx) \<Rightarrow> (length re, length tx, 0)
                     | Inr (c, re, tx) \<Rightarrow> (length re, length tx, 1 :: nat))") auto

declare matchhere.simps(2) [simp del] matchstar.simps [simp del]

text \<open>The \<open>do\<close> loop of \<open>match\<close>.\<close>

fun match_from :: "uchar list \<Rightarrow> uchar list \<Rightarrow> bool outcome" where
  "match_from re tx =
     bindo (matchhere re tx) (\<lambda>found.
       if found then Ret True
       else case tx of
         [] \<Rightarrow> Undef
       | t # tx1 \<Rightarrow> if t \<noteq> 0 then match_from re tx1 else Ret False)"

declare match_from.simps [simp del]

definition match :: "uchar list \<Rightarrow> uchar list \<Rightarrow> bool outcome" where
  "match re tx = bindo (deref re) (\<lambda>r. if r = caret then matchhere (tl re) tx else match_from re tx)"

section \<open>The search loop\<close>

text \<open>
  The inner loop over the lines in the buffer, from offset \<open>p\<close>: it returns the buffer, the offset
  behind the last complete line, and the calls to \<open>write\<close>.
\<close>

function grep_lines :: "uchar list \<Rightarrow> uchar list \<Rightarrow> nat \<Rightarrow> uchar list list
    \<Rightarrow> (uchar list \<times> nat \<times> uchar list list) outcome" where
  "grep_lines pattern buf p out =
     bindo (strchr (drop p buf) newline) (\<lambda>q. case q of
        None \<Rightarrow> Ret (buf, p, out)
      | Some i \<Rightarrow>
          let q = p + i; buf0 = buf[q := 0] in
          bindo (match pattern (drop p buf0)) (\<lambda>found.
            if found
            then let buf1 = buf0[q := newline] in
                 grep_lines pattern buf1 (q + 1) (out @ [take (q + 1 - p) (drop p buf1)])
            else grep_lines pattern buf0 (q + 1) out))"
  by pat_completeness auto

lemma strchr_Some:
  "strchr s c = Ret (Some i) \<Longrightarrow> i < length s \<and> s ! i = c \<and> c \<noteq> 0"
proof (induction s arbitrary: i)
  case (Cons a s)
  show ?case
  proof (cases "a = 0 \<or> a = c")
    case True
    then show ?thesis using Cons.prems by (auto split: if_splits)
  next
    case False
    then obtain j where "strchr s c = Ret (Some j)" "i = Suc j"
      using Cons.prems by (auto simp: bindo_Ret_iff)
    then show ?thesis using Cons.IH by simp
  qed
qed simp

termination grep_lines
  by (relation "measure (\<lambda>(pattern, buf, p, out). length buf - p)") (auto dest!: strchr_Some)

declare grep_lines.simps [simp del]

text \<open>
  The outer loop, with the buffer and the \<open>m\<close> bytes carried over; it returns the calls to \<open>write\<close>.
  The buffer has 1024 bytes, the last one kept for the terminator.
\<close>

function grep_loop :: "uchar list \<Rightarrow> uchar list \<Rightarrow> nat \<Rightarrow> arrivals \<Rightarrow> uchar list list
    \<Rightarrow> uchar list list outcome" where
  "grep_loop pattern buf m rs out =
     (case uread (1024 - m - 1) rs of
        (None, rs') \<Rightarrow> Ret out
      | (Some c, rs') \<Rightarrow>
          if c = [] then Ret out
          else let m1 = m + length c; buf1 = (overwrite buf m c)[m1 := 0] in
            bindo (grep_lines pattern buf1 0 out) (\<lambda>(buf2, p, out).
              if m1 > 0
              then let m2 = m1 - p in
                   grep_loop pattern (overwrite buf2 0 (take m2 (drop p buf2))) m2 rs' out
              else grep_loop pattern buf2 m1 rs' out))"
  by pat_completeness auto
termination
  by (relation "measure (\<lambda>(pattern, buf, m, rs, out). pending rs)")
     (auto dest: uread_pending[OF sym])

declare grep_loop.simps [simp del]

definition grep :: "uchar list \<Rightarrow> arrivals \<Rightarrow> uchar list \<Rightarrow> uchar list list outcome" where
  "grep pattern rs buf = grep_loop pattern buf 0 rs []"

section \<open>What a pattern denotes\<close>

datatype item = One uchar | Many uchar

text \<open>A pattern after an initial caret, as a list of items and whether it ends in an end anchor.\<close>

fun parse_re :: "uchar list \<Rightarrow> item list \<times> bool" where
  "parse_re [] = ([], False)"
| "parse_re [r] = (if r = dollar then ([], True) else ([One r], False))"
| "parse_re (r # r1 # re) =
     (if r1 = star then let (is, e) = parse_re re in (Many r # is, e)
      else let (is, e) = parse_re (r1 # re) in (One r # is, e))"

definition accepts :: "uchar \<Rightarrow> uchar \<Rightarrow> bool" where
  "accepts r t \<longleftrightarrow> r = dot \<or> r = t"

text \<open>The strings that a list of items denotes.\<close>

fun lang :: "item list \<Rightarrow> uchar list set" where
  "lang [] = {[]}"
| "lang (One r # is) = {t # u | t u. accepts r t \<and> u \<in> lang is}"
| "lang (Many r # is) = {v @ u | v u. (\<forall>t \<in> set v. accepts r t) \<and> u \<in> lang is}"

text \<open>A pattern matches a text: some part of the text, at the anchored ends, is in its language.\<close>

definition begins :: "item list \<times> bool \<Rightarrow> uchar list \<Rightarrow> bool" where
  "begins p tx \<longleftrightarrow> (\<exists>u v. tx = u @ v \<and> u \<in> lang (fst p) \<and> (snd p \<longrightarrow> v = []))"

definition denotes :: "uchar list \<Rightarrow> uchar list \<Rightarrow> bool" where
  "denotes re tx \<longleftrightarrow>
     (if re \<noteq> [] \<and> hd re = caret then begins (parse_re (tl re)) tx
      else \<exists>u w. tx = u @ w \<and> begins (parse_re re) w)"

section \<open>The matcher decides the language\<close>

lemma begins_Nil: "begins ([], e) tx \<longleftrightarrow> (e \<longrightarrow> tx = [])"
  by (auto simp: begins_def)

lemma begins_One:
  "begins (One r # is, e) tx \<longleftrightarrow> (\<exists>t w. tx = t # w \<and> accepts r t \<and> begins (is, e) w)"
  unfolding begins_def lang.simps fst_conv snd_conv mem_Collect_eq by (metis append_Cons)

lemma begins_Many_iff:
  "begins (Many r # is, e) tx \<longleftrightarrow>
     (\<exists>v u w. tx = v @ u @ w \<and> (\<forall>t \<in> set v. accepts r t) \<and> u \<in> lang is \<and> (e \<longrightarrow> w = []))"
  (is "?l \<longleftrightarrow> ?r")
proof
  assume ?l
  then obtain v u w where "tx = (v @ u) @ w" "\<forall>t \<in> set v. accepts r t" "u \<in> lang is" "e \<longrightarrow> w = []"
    unfolding begins_def lang.simps fst_conv snd_conv by blast
  then show ?r unfolding append_assoc by blast
next
  assume ?r
  then obtain v u w where *: "tx = v @ u @ w" "\<forall>t \<in> set v. accepts r t" "u \<in> lang is" "e \<longrightarrow> w = []" by blast
  then have "v @ u \<in> lang (Many r # is)" by auto
  moreover have "tx = (v @ u) @ w" using *(1) by simp
  ultimately show ?l unfolding begins_def fst_conv snd_conv using *(4) by blast
qed

lemma begins_Many:
  "begins (Many r # is, e) tx \<longleftrightarrow>
     begins (is, e) tx \<or> (\<exists>t w. tx = t # w \<and> accepts r t \<and> begins (Many r # is, e) w)"
  (is "?l \<longleftrightarrow> ?r")
proof
  assume ?l
  then obtain v u w where vuw: "tx = v @ u @ w" "\<forall>t \<in> set v. accepts r t" "u \<in> lang is" "e \<longrightarrow> w = []"
    unfolding begins_Many_iff by blast
  show ?r
  proof (cases v)
    case Nil
    then show ?thesis using vuw by (auto simp: begins_def)
  next
    case (Cons t v')
    then have "tx = t # (v' @ u @ w)" "accepts r t" "\<forall>t \<in> set v'. accepts r t" using vuw by auto
    then show ?thesis using vuw(3,4) unfolding begins_Many_iff by blast
  qed
next
  assume ?r
  then show ?l
  proof
    assume "begins (is, e) tx"
    then obtain u w where "tx = [] @ u @ w" "u \<in> lang is" "e \<longrightarrow> w = []" by (auto simp: begins_def)
    then show ?l unfolding begins_Many_iff by (metis empty_iff list.set(1))
  next
    assume "\<exists>t w. tx = t # w \<and> accepts r t \<and> begins (Many r # is, e) w"
    then obtain t v u w where "tx = t # v @ u @ w" "accepts r t" "\<forall>t \<in> set v. accepts r t"
      "u \<in> lang is" "e \<longrightarrow> w = []" unfolding begins_Many_iff by blast
    then have "tx = (t # v) @ u @ w" "\<forall>t \<in> set (t # v). accepts r t" "u \<in> lang is" "e \<longrightarrow> w = []"
      by auto
    then show ?l unfolding begins_Many_iff by blast
  qed
qed

lemma matchstar_correct:
  assumes "\<And>tx. 0 \<notin> set tx \<Longrightarrow> matchhere re (tx @ 0 # y) = Ret (begins (is, e) tx)"
    and "0 \<notin> set tx"
  shows "matchstar c re (tx @ 0 # y) = Ret (begins (Many c # is, e) tx)"
  using assms(2)
proof (induction tx)
  case Nil
  have "matchstar c re (0 # y) = Ret (begins (is, e) [])"
    using assms(1)[of "[]"] by (simp add: matchstar.simps)
  then show ?case using begins_Many[of c "is" e "[]"] by simp
next
  case (Cons t tx)
  then have t: "t \<noteq> 0" by auto
  have "matchhere re (t # tx @ 0 # y) = Ret (begins (is, e) (t # tx))"
    using assms(1)[of "t # tx"] Cons.prems by simp
  then show ?case
    using Cons t begins_Many[of c "is" e "t # tx"]
    by (auto simp: matchstar.simps[of c re "t # tx @ 0 # y"] accepts_def)
qed

lemma matchhere_correct:
  assumes "0 \<notin> set re" "0 \<notin> set tx"
  shows "matchhere (re @ 0 # x) (tx @ 0 # y) = Ret (begins (parse_re re) tx)"
  using assms
proof (induction re arbitrary: tx rule: parse_re.induct)
  case 1
  show ?case by (simp add: matchhere.simps(2) begins_Nil)
next
  case (2 r)
  then show ?case
    by (cases tx) (auto simp: matchhere.simps(2) begins_Nil begins_One deref_def accepts_def)
next
  case (3 r r1 re)
  obtain "is" e where p: "parse_re (r1 # re) = (is, e)" by (cases "parse_re (r1 # re)")
  obtain is2 e2 where p2: "parse_re re = (is2, e2)" by (cases "parse_re re")
  have r: "r \<noteq> 0" "r1 \<noteq> 0" "0 \<notin> set re" using 3(3) by auto
  show ?case
  proof (cases "r1 = star")
    case True
    have "matchstar r (re @ 0 # x) (tx @ 0 # y) = Ret (begins (Many r # is2, e2) tx)"
      using 3(1)[OF True] r(3) p2 3(4) by (intro matchstar_correct) auto
    then show ?thesis using True r p2 by (simp add: matchhere.simps(2))
  next
    case False
    then have IH: "matchhere (r1 # re @ 0 # x) (w @ 0 # y) = Ret (begins (is, e) w)" if "0 \<notin> set w" for w
      using 3(2)[OF False] 3(3) that p by simp
    show ?thesis
    proof (cases tx)
      case Nil
      then show ?thesis using False r p begins_One[of r "is" e "[]"] by (simp add: matchhere.simps(2)[of r])
    next
      case (Cons t w)
      then show ?thesis using False r p 3(4) IH[of w] begins_One[of r "is" e "t # w"]
        by (auto simp: matchhere.simps(2)[of r] accepts_def)
    qed
  qed
qed

lemma match_from_correct:
  assumes "0 \<notin> set re" "0 \<notin> set tx"
  shows "match_from (re @ 0 # x) (tx @ 0 # y) = Ret (\<exists>u w. tx = u @ w \<and> begins (parse_re re) w)"
  using assms(2)
proof (induction tx)
  case Nil
  then show ?case using matchhere_correct[OF assms(1), of "[]" x y] by (simp add: match_from.simps)
next
  case (Cons t tx)
  have "(\<exists>u w. t # tx = u @ w \<and> begins (parse_re re) w) \<longleftrightarrow>
      begins (parse_re re) (t # tx) \<or> (\<exists>u w. tx = u @ w \<and> begins (parse_re re) w)"
    by (auto simp: Cons_eq_append_conv)
  moreover have "match_from (re @ 0 # x) (t # tx @ 0 # y) =
      (if begins (parse_re re) (t # tx) then Ret True else match_from (re @ 0 # x) (tx @ 0 # y))"
    using Cons.prems matchhere_correct[OF assms(1) Cons.prems, of x y]
    by (simp add: match_from.simps[of _ "t # tx @ 0 # y"])
  ultimately show ?case using Cons by auto
qed

lemma match_correct:
  assumes "0 \<notin> set re" "0 \<notin> set tx"
  shows "match (re @ 0 # x) (tx @ 0 # y) = Ret (denotes re tx)"
proof (cases re)
  case Nil
  then show ?thesis using match_from_correct[of "[]" tx x y] assms
    by (simp add: match_def deref_def denotes_def)
next
  case (Cons r re')
  then show ?thesis using match_from_correct[OF assms, of x y] matchhere_correct[of re' tx x y] assms
    by (auto simp: match_def deref_def denotes_def)
qed

section \<open>The loop selects lines\<close>

text \<open>The complete lines of a text, each with its newline, and what follows the last one.\<close>

function text_lines :: "uchar list \<Rightarrow> uchar list list" where
  "text_lines s =
     (if newline \<in> set s
      then let l = takeWhile (\<lambda>c. c \<noteq> newline) s in (l @ [newline]) # text_lines (drop (Suc (length l)) s)
      else [])"
  by pat_completeness auto
termination
  by (relation "measure length") (auto intro: diff_less simp: length_pos_if_in_set)

declare text_lines.simps [simp del]

definition text_rest :: "uchar list \<Rightarrow> uchar list" where
  "text_rest s = drop (length (concat (text_lines s))) s"

lemma text_lines_line:
  assumes "newline \<notin> set l"
  shows "text_lines (l @ newline # s) = (l @ [newline]) # text_lines s"
proof -
  have "takeWhile (\<lambda>c. c \<noteq> newline) (l @ newline # s) = l" using assms by (subst takeWhile_append2) auto
  then show ?thesis by (subst text_lines.simps) simp
qed

lemma text_lines_none: "newline \<notin> set s \<Longrightarrow> text_lines s = []"
  by (subst text_lines.simps) simp

lemma text_induct [case_names none line]:
  assumes "\<And>s. newline \<notin> set s \<Longrightarrow> P s"
    and "\<And>l s. newline \<notin> set l \<Longrightarrow> P s \<Longrightarrow> P (l @ newline # s)"
  shows "P s"
proof (induction s rule: length_induct)
  case (1 s)
  show ?case
  proof (cases "newline \<in> set s")
    case True
    then obtain l s' where "s = l @ newline # s'" "newline \<notin> set l" by (auto dest: split_list_first)
    then show ?thesis using 1 assms(2) by simp
  qed (rule assms(1))
qed

lemma text_rest_line: "newline \<notin> set l \<Longrightarrow> text_rest (l @ newline # s) = text_rest s"
  by (simp add: text_rest_def text_lines_line)

lemma text_rest_none: "newline \<notin> set s \<Longrightarrow> text_rest s = s"
  by (simp add: text_rest_def text_lines_none)

lemmas text_simps = text_lines_line text_lines_none text_rest_line text_rest_none

lemma text_split: "concat (text_lines s) @ text_rest s = s"
  by (induction s rule: text_induct) (simp_all add: text_simps)

lemma text_rest_newline: "newline \<notin> set (text_rest s)"
  by (induction s rule: text_induct) (simp_all add: text_simps)

lemma text_lines_append: "text_lines (a @ b) = text_lines a @ text_lines (text_rest a @ b)"
  by (induction a rule: text_induct) (simp_all add: text_simps)

lemma strchr_line:
  "0 \<notin> set l \<Longrightarrow> newline \<notin> set l \<Longrightarrow> strchr (l @ newline # s) newline = Ret (Some (length l))"
  by (induction l) auto

lemma strchr_none: "0 \<notin> set l \<Longrightarrow> newline \<notin> set l \<Longrightarrow> strchr (l @ 0 # s) newline = Ret None"
  by (induction l) auto

text \<open>The lines that match.\<close>

definition selected :: "uchar list \<Rightarrow> uchar list list \<Rightarrow> uchar list list" where
  "selected re ls = filter (\<lambda>l. denotes re (butlast l)) ls"

lemma grep_lines_selects:
  assumes "0 \<notin> set re" "0 \<notin> set data"
  shows "\<exists>pre. grep_lines (re @ 0 # x) (bs @ data @ 0 # y) (length bs) out =
      Ret (pre @ text_rest data @ 0 # y, length pre, out @ selected re (text_lines data)) \<and>
    length pre = length bs + length (concat (text_lines data))"
  using assms(2)
proof (induction data arbitrary: bs out rule: text_induct)
  case (none s)
  then show ?case
    by (simp add: grep_lines.simps[of _ _ "length bs"] strchr_none text_simps selected_def)
next
  case (line l s)
  let ?re = "re @ 0 # x"
  have q: "strchr (l @ newline # s @ 0 # y) newline = Ret (Some (length l))"
    using line by (intro strchr_line) auto
  have m: "match ?re (l @ 0 # s @ 0 # y) = Ret (denotes re l)"
    using line.prems assms(1) by (intro match_correct) auto
  define c where "c = (if denotes re l then newline else 0)"
  define out' where "out' = out @ selected re [l @ [newline]]"
  have "grep_lines ?re (bs @ (l @ newline # s) @ 0 # y) (length bs) out =
      grep_lines ?re ((bs @ l @ [c]) @ s @ 0 # y) (length (bs @ l @ [c])) out'"
    by (subst grep_lines.simps) (simp add: q m list_update_append c_def out'_def selected_def)
  moreover obtain pre where "grep_lines ?re ((bs @ l @ [c]) @ s @ 0 # y) (length (bs @ l @ [c])) out' =
      Ret (pre @ text_rest s @ 0 # y, length pre, out' @ selected re (text_lines s))"
    "length pre = length (bs @ l @ [c]) + length (concat (text_lines s))"
    using line.IH[of "bs @ l @ [c]" out'] line.prems by auto
  ultimately show ?case
    using line.hyps by (auto simp: text_simps out'_def selected_def)
qed

lemma uread_pieces:
  assumes "\<forall>c \<in> set cs. c \<noteq> []" "cs \<noteq> []" "0 < k"
  obtains c cs' where "uread k (map Some cs) = (Some c, map Some cs')" "c \<noteq> []" "length c \<le> k"
    "concat cs = c @ concat cs'" "\<forall>c \<in> set cs'. c \<noteq> []"
proof -
  obtain d ds where cs: "cs = d # ds" using assms(2) by (cases cs) auto
  show ?thesis
  proof (cases "length d \<le> k")
    case True
    then show ?thesis using that[of d ds] assms(1) cs by simp
  next
    case False
    then show ?thesis using that[of "take k d" "drop k d # ds"] assms(1,3) cs by simp
  qed
qed

lemma short_lines:
  assumes "newline \<notin> set r" "1023 \<le> length r" "\<forall>l \<in> set (text_lines (r @ s)). length l \<le> 1023"
  shows "text_lines (r @ s) = []"
proof (cases "newline \<in> set s")
  case True
  then obtain l s' where "s = l @ newline # s'" "newline \<notin> set l" by (auto dest: split_list_first)
  then have "text_lines (r @ s) = ((r @ l) @ [newline]) # text_lines s'"
    using assms(1) text_lines_line[of "r @ l" s'] by simp
  then show ?thesis using assms(2,3) by simp
qed (use assms(1) in \<open>simp add: text_lines_none\<close>)

lemma grep_loop_step:
  assumes re: "0 \<notin> set re" and buf: "length buf = 1024" "take m buf = r" "length r = m"
    and c: "uread (1024 - m - 1) rs = (Some c, rs')" "c \<noteq> []" "m + length c \<le> 1023" "0 \<notin> set (r @ c)"
  defines "R \<equiv> text_rest (r @ c)"
  shows "\<exists>buf2. grep_loop (re @ 0 # x) buf m rs out =
      grep_loop (re @ 0 # x) buf2 (length R) rs' (out @ selected re (text_lines (r @ c))) \<and>
    length buf2 = 1024 \<and> take (length R) buf2 = R"
proof -
  define y where "y = drop (Suc (m + length c)) buf"
  have "overwrite buf m c = (r @ c) @ buf ! (m + length c) # y"
    using buf c(3) by (simp add: overwrite_def y_def Cons_nth_drop_Suc)
  then have buf1: "(overwrite buf m c)[m + length c := 0] = (r @ c) @ 0 # y"
    using buf(3) by (simp add: list_update_append)
  obtain pre where pre: "grep_lines (re @ 0 # x) ((r @ c) @ 0 # y) 0 out =
      Ret (pre @ R @ 0 # y, length pre, out @ selected re (text_lines (r @ c)))"
    "length pre = length (concat (text_lines (r @ c)))"
    using grep_lines_selects[OF re c(4), of x "[]" y out] unfolding R_def by auto
  have len: "length pre + length R = m + length c"
    using arg_cong[OF text_split[of "r @ c"], of length] pre(2) buf(3) unfolding R_def by simp
  define buf2 where "buf2 = overwrite (pre @ R @ 0 # y) 0 R"
  have "take (m + length c - length pre) (drop (length pre) (pre @ R @ 0 # y)) = R"
    "m + length c - length pre = length R" using len by auto
  then have "grep_loop (re @ 0 # x) buf m rs out =
      grep_loop (re @ 0 # x) buf2 (length R) rs' (out @ selected re (text_lines (r @ c)))"
    using c(1,2) pre(1) buf1 by (subst grep_loop.simps) (simp add: buf2_def Let_def)
  moreover have "length (pre @ R @ 0 # y) = 1024" using len buf(1) c(3) by (simp add: y_def)
  then have "length buf2 = 1024" by (simp add: buf2_def)
  moreover have "take (length R) buf2 = R" by (simp add: buf2_def overwrite_def)
  ultimately show ?thesis by blast
qed

lemma grep_loop_selects:
  assumes re: "0 \<notin> set re"
    and "length buf = 1024" "take m buf = r" "length r = m" "newline \<notin> set r"
    and "\<forall>c \<in> set cs. c \<noteq> []" "0 \<notin> set (r @ concat cs)"
    and "\<forall>l \<in> set (text_lines (r @ concat cs)). length l \<le> 1023"
  shows "grep_loop (re @ 0 # x) buf m (map Some cs) out = Ret (out @ selected re (text_lines (r @ concat cs)))"
  using assms(2-)
proof (induction "pending (map Some cs)" arbitrary: cs buf m r out rule: less_induct)
  case less
  show ?case
  proof (cases "cs = [] \<or> 1023 \<le> m")
    case True
    then have "text_lines (r @ concat cs) = []"
      using short_lines[of r "concat cs"] less.prems by (auto simp: text_lines_none)
    moreover obtain rs where "uread (1024 - m - 1) (map Some cs) = (Some [], rs)"
      using True by (cases cs) auto
    ultimately show ?thesis by (subst grep_loop.simps) (simp add: selected_def)
  next
    case False
    then have "cs \<noteq> []" "0 < 1024 - m - 1" by auto
    then obtain c cs' where c: "uread (1024 - m - 1) (map Some cs) = (Some c, map Some cs')" "c \<noteq> []"
        "length c \<le> 1024 - m - 1" "concat cs = c @ concat cs'" "\<forall>c \<in> set cs'. c \<noteq> []"
      using uread_pieces[OF less.prems(5)] by metis
    define R where "R = text_rest (r @ c)"
    have 0: "0 \<notin> set (r @ c)" "0 \<notin> set (concat cs')" and len: "m + length c \<le> 1023"
      using less.prems(6) c(3,4) False by auto
    obtain buf2 where step: "grep_loop (re @ 0 # x) buf m (map Some cs) out =
        grep_loop (re @ 0 # x) buf2 (length R) (map Some cs') (out @ selected re (text_lines (r @ c)))"
      "length buf2 = 1024" "take (length R) buf2 = R"
      using grep_loop_step[OF re less.prems(1-3) c(1,2) len 0(1)] unfolding R_def by blast
    have split: "text_lines (r @ concat cs) = text_lines (r @ c) @ text_lines (R @ concat cs')"
      using text_lines_append[of "r @ c" "concat cs'"] by (simp add: c(4) R_def)
    have "set R \<subseteq> set (r @ c)" using text_split[of "r @ c"] unfolding R_def by (metis Un_upper2 set_append)
    then have "0 \<notin> set (R @ concat cs')" using 0 by auto
    moreover have "\<forall>l \<in> set (text_lines (R @ concat cs')). length l \<le> 1023"
      using less.prems(7) unfolding split by simp
    ultimately have "grep_loop (re @ 0 # x) buf2 (length R) (map Some cs') (out @ selected re (text_lines (r @ c))) =
        Ret ((out @ selected re (text_lines (r @ c))) @ selected re (text_lines (R @ concat cs')))"
      using less.hyps[OF uread_pending[OF c(1,2)] step(2,3) refl _ c(5)] text_rest_newline
      unfolding R_def by blast
    then show ?thesis unfolding step(1) split by (simp add: selected_def)
  qed
qed

text \<open>
  C7. The matcher of \<open>grep\<close> decides the language of its pattern: on a terminated pattern and a
  terminated text, \<open>match\<close> returns (it always terminates and never reads beyond the terminators)
  whether some part of the text belongs to the pattern's language, where a leading caret anchors
  the part at the start, a final dollar at the end, a dot stands for any character and a star
  repeats the character before it.
\<close>

theorem match_decides_pattern:
  assumes "0 \<notin> set re" "0 \<notin> set tx"
  shows "match (re @ 0 # x) (tx @ 0 # y) = Ret (denotes re tx)"
  by (rule match_correct[OF assms])

theorem match_decides_pattern_witness:
  "denotes (str ''^ab*c$'') (str ''abbbc'') \<and> \<not> denotes (str ''^ab*c$'') (str ''abbbcd'')"
proof -
  have "match (str ''^ab*c$'' @ [0]) (str ''abbbc'' @ [0]) = Ret (denotes (str ''^ab*c$'') (str ''abbbc''))"
    by (rule match_decides_pattern) (simp_all add: str_def)
  moreover have "match (str ''^ab*c$'' @ [0]) (str ''abbbcd'' @ [0]) = Ret (denotes (str ''^ab*c$'') (str ''abbbcd''))"
    by (rule match_decides_pattern) (simp_all add: str_def)
  moreover have "match (str ''^ab*c$'' @ [0]) (str ''abbbc'' @ [0]) = Ret True" by code_simp
  moreover have "match (str ''^ab*c$'' @ [0]) (str ''abbbcd'' @ [0]) = Ret False" by code_simp
  ultimately show ?thesis by simp
qed

text \<open>
  C19. \<open>grep\<close> prints exactly the complete lines that match, in order, however the input arrives: for an
  input without NUL bytes whose lines, newline included, fit the 1023 usable bytes of its buffer,
  the loop ends and the calls it makes to \<open>write\<close> are the lines of the input selected by the
  pattern's language. Pieces may break anywhere, also inside a line.
\<close>

theorem grep_selects_lines:
  assumes "0 \<notin> set re" "length buf = 1024" "\<forall>c \<in> set cs. c \<noteq> []" "0 \<notin> set (concat cs)"
    and "\<forall>l \<in> set (text_lines (concat cs)). length l \<le> 1023"
  shows "grep (re @ 0 # x) (map Some cs) buf =
    Ret (filter (\<lambda>l. denotes re (butlast l)) (text_lines (concat cs)))"
  using grep_loop_selects[of re buf 0 "[]" cs x "[]"] assms by (simp add: grep_def selected_def)

theorem grep_selects_lines_witness:
  "grep (str ''a.c'' @ [0]) [Some (str ''abc'' @ [10, 97]), Some (str ''bb'' @ [10]), Some (str ''xa'')] (replicate 1024 0) =
     Ret [str ''abc'' @ [10]]"
proof -
  let ?cs = "[str ''abc'' @ [10, 97], str ''bb'' @ [10], str ''xa'']"
  have ls: "text_lines (concat ?cs) = [str ''abc'' @ [10], str ''abb'' @ [10]]" by code_simp
  have "grep (str ''a.c'' @ 0 # []) (map Some ?cs) (replicate 1024 0) =
      Ret (filter (\<lambda>l. denotes (str ''a.c'') (butlast l)) (text_lines (concat ?cs)))"
    unfolding ls by (rule grep_selects_lines[of _ _ ?cs, unfolded ls]) (simp_all add: str_def)
  moreover have "match (str ''a.c'' @ 0 # []) (str ''abc'' @ 0 # []) = Ret (denotes (str ''a.c'') (str ''abc''))"
    "match (str ''a.c'' @ 0 # []) (str ''abb'' @ 0 # []) = Ret (denotes (str ''a.c'') (str ''abb''))"
    by (rule match_correct; simp add: str_def)+
  moreover have "match (str ''a.c'' @ 0 # []) (str ''abc'' @ 0 # []) = Ret True"
    "match (str ''a.c'' @ 0 # []) (str ''abb'' @ 0 # []) = Ret False" by code_simp+
  ultimately show ?thesis unfolding ls by simp
qed

end
