(* ===== verification/Fs_Laws.thy ===== *)
theory Fs_Laws
  imports Fs Fslog_Txn Console_Laws
begin

text \<open>
  The file system inside a transaction: the block allocator as a set of free blocks, inodes on disk,
  and the contents of a file as a byte list that \<open>readi\<close> reads and \<open>writei\<close> overwrites and extends.
  The block contents are those the transaction sees (\<open>view\<close>), through the interface \<open>wal\<close> of the log.
\<close>

section \<open>Steps of the file system\<close>

text \<open>
  What every file system operation inside a transaction leaves alone: the disk, the place of the
  log, the superblock, the memory, the buffers the caller holds. \<open>fstep_but X\<close> may release the
  buffers of the blocks \<open>X\<close>.
\<close>

definition p_ident :: "proc \<Rightarrow> int \<times> uint64" where
  "p_ident p = (p_pid p, p_pagetable p)"

lemma p_ident_state [simp]: "p_ident (p_state_update f p) = p_ident p"
  by (simp add: p_ident_def)

definition fstep_but :: "uint set \<Rightarrow> 'a fs_state_scheme \<Rightarrow> 'a fs_state_scheme \<Rightarrow> bool" where
  "fstep_but X s s' \<longleftrightarrow> fsb s' = fsb s \<and> log_region (klog s') = log_region (klog s) \<and>
     l_outstanding (klog s') = l_outstanding (klog s) \<and> l_committing (klog s') = l_committing (klog s) \<and>
     disk s' = disk s \<and> dwrites s' = dwrites s \<and> set (logged (klog s)) \<subseteq> set (logged (klog s')) \<and>
     mem s' = mem s \<and> freelist s' = freelist s \<and> kend s' = kend s \<and> panicked s' = panicked s \<and> cur s' = cur s \<and>
     map p_ident (procs s') = map p_ident (procs s) \<and>
     (\<forall>b bn. bn \<notin> X \<longrightarrow> handle s b bn \<longrightarrow> handle s' b bn)"

abbreviation fstep :: "'a fs_state_scheme \<Rightarrow> 'a fs_state_scheme \<Rightarrow> bool" where
  "fstep \<equiv> fstep_but {}"

lemmas fstep_def = fstep_but_def

lemma fstep_refl [simp]: "fstep_but X s s"
  by (simp add: fstep_def)

lemma fstep_but_trans: "fstep_but X s t \<Longrightarrow> fstep_but Y t u \<Longrightarrow> fstep_but (X \<union> Y) s u"
  by (auto simp: fstep_def)

lemma fstep_trans: "fstep s t \<Longrightarrow> fstep t u \<Longrightarrow> fstep s u"
  using fstep_but_trans[of "{}" s t "{}" u] by simp

text \<open>A block that is not held may be released.\<close>

lemma fstep_free:
  assumes "txn H k s" "fstep_but X s s'" "X \<inter> H = {}"
  shows "fstep s s'"
proof -
  have "\<not> handle s b bn" if "bn \<in> X" for b bn
    using handle_views(8)[of s b bn] that assms(1,3) by (auto simp: txn_def log_inv_def)
  then show ?thesis using assms(2) unfolding fstep_def by blast
qed

lemma fstepD:
  assumes "fstep s s'"
  shows "fsb s' = fsb s" "log_region (klog s') = log_region (klog s)" "panicked s' = panicked s" "mem s' = mem s"
    "handle s b bn \<Longrightarrow> handle s' b bn"
  using assms by (auto simp: fstep_def)

lemma fstep_proc:
  assumes "fstep_but X s s'" "cur s = Some i" "i < length (procs s)"
  shows "p_pid (procs s' ! i) = p_pid (procs s ! i)" "p_pagetable (procs s' ! i) = p_pagetable (procs s ! i)"
    "cur s' = Some i" "i < length (procs s')"
proof -
  have m: "map p_ident (procs s') = map p_ident (procs s)" using assms(1) by (simp add: fstep_def)
  then show l: "i < length (procs s')" using assms(3) by (metis length_map)
  have "p_ident (procs s' ! i) = p_ident (procs s ! i)" using m l assms(3) by (metis nth_map)
  then show "p_pid (procs s' ! i) = p_pid (procs s ! i)" "p_pagetable (procs s' ! i) = p_pagetable (procs s ! i)"
    by (simp_all add: p_ident_def)
  show "cur s' = Some i" using assms(1,2) by (simp add: fstep_def)
qed

lemma holdingsleep_fstep:
  assumes "fstep_but X s s'" "running s"
  shows "holdingsleep lk s' = holdingsleep lk s"
  using assms(2) fstep_proc[OF assms(1)] by (auto simp: running_def holdingsleep_def mypid_def myproc_def)

lemma more_fs:
  fixes s s' :: "'a fs_state_scheme"
  assumes "log_state.more s' = log_state.more s"
  shows "fsb s' = fsb s" "itable s' = itable s" "panicked s' = panicked s" "idle_count s' = idle_count s"
  using assms by (cases s; cases s'; simp add: log_state.defs dev_state.defs fs_state.defs idle_count_def)+

lemma txn_step_more:
  fixes s s' :: "'a fs_state_scheme"
  assumes "txn_step X s s'"
  shows "fstep_but X s s'" "itable s' = itable s" "idle_count s' = idle_count s"
proof -
  have b: "bio_frame (upd_log (\<lambda>_. klog s') s) s'" using assms by (simp add: txn_step_def bstep_def)
  then have "bio_state.more s' = bio_state.more (upd_log (\<lambda>_. klog s') s)" by (simp add: bio_frame_def)
  then have m: "log_state.more s' = log_state.more s"
    by (cases s; cases s') (simp add: bio_state.defs log_state.defs upd_log_def)
  have "map p_ident (map (p_state_update (\<lambda>_. RUNNING)) (procs s')) =
      map p_ident (map (p_state_update (\<lambda>_. RUNNING)) (procs s))"
    using b by (simp add: bio_frame_def upd_log_def)
  then have "map p_ident (procs s') = map p_ident (procs s)" by (simp add: comp_def)
  then show "fstep_but X s s'"
    using assms b more_fs[OF m] txn_step_region[OF assms] txn_step_handle[OF assms]
    by (auto simp: fstep_def txn_step_def bio_frame_def upd_log_def)
  show "itable s' = itable s" "idle_count s' = idle_count s" using more_fs[OF m] by auto
qed

text \<open>The cache and the log depend on these fields only.\<close>

lemma cache_same:
  fixes s s' :: "'a log_state_scheme"
  assumes "bcache s' = bcache s" "disk s' = disk s" "klog s' = klog s" "procs s' = procs s" "cur s' = cur s"
  shows "view s' = view s" "handle s' = handle s" "txn H k s' = txn H k s" "cache_inv s' = cache_inv s"
    "dwrites s' = dwrites s \<Longrightarrow> cabs s' = cabs s" "bdata b s' = bdata b s"
proof -
  have h: "holds s' = holds s" using assms by (simp add: holds_def fun_eq_iff)
  have sl: "slot s' = slot s" by (simp add: slot_def h fun_eq_iff)
  have "holdingsleep lk s' = holdingsleep lk s" for lk
    using assms by (simp add: holdingsleep_def mypid_def myproc_def split: option.split)
  then show "handle s' = handle s" using assms by (simp add: handle_def h fun_eq_iff)
  show v: "view s' = view s" unfolding view_def sl using assms by (simp cong: option.case_cong if_cong)
  have rb: "refs s' = refs s" "blocked s' = blocked s"
    unfolding refs_def blocked_def sl using assms by (simp_all cong: option.case_cong if_cong)
  then show "cabs s' = cabs s" if "dwrites s' = dwrites s" using that v assms by (simp add: cabs_def)
  show "bdata b s' = bdata b s" using assms by (simp add: bdata_def)
  show c: "cache_inv s' = cache_inv s" using assms by (simp add: cache_inv_def uniq_def h running_def)
  from rb c show "txn H k s' = txn H k s" using assms by (simp add: txn_def log_inv_def)
qed

lemma upd_inode_simps [simp]:
  "txn H k (upd_inode ip f s) = txn H k s" "view (upd_inode ip f s) = view s" "fsb (upd_inode ip f s) = fsb s"
  "klog (upd_inode ip f s) = klog s" "itable (upd_inode ip f s) = (itable s)[ip := f (itable s ! ip)]"
  "panicked (upd_inode ip f s) = panicked s" "idle_count (upd_inode ip f s) = idle_count s"
  "handle (upd_inode ip f s) = handle s" "disk (upd_inode ip f s) = disk s"
  using cache_same[of "upd_inode ip f s" s] by (simp_all add: upd_inode_def idle_count_def)

lemma fstep_upd_inode [simp]: "fstep s (upd_inode ip f s)"
  by (simp add: fstep_def) (simp add: upd_inode_def)

section \<open>The layout of the disk\<close>

text \<open>
  The layout \<^verbatim>\<open>mkfs\<close> gives the disk: boot block, superblock, log, inode blocks, bitmap blocks, data
  blocks. \<open>data_start\<close> is the number of the first data block.
\<close>

definition data_start :: "superblock \<Rightarrow> nat" where
  "data_start sb = unat (sb_bmapstart sb) + unat (sb_size sb) div BPB + 1"

definition fs_layout :: "superblock \<Rightarrow> uint set \<Rightarrow> bool" where
  "fs_layout sb reg \<longleftrightarrow>
     (\<forall>x \<in> reg. unat x < unat (sb_inodestart sb)) \<and>
     unat (sb_inodestart sb) + unat (sb_ninodes sb) div IPB < unat (sb_bmapstart sb) \<and>
     data_start sb \<le> unat (sb_size sb)"

lemma unat_BBLOCK:
  assumes "fs_layout sb reg" "unat b < unat (sb_size sb)"
  shows "unat (BBLOCK b sb) = unat b div BPB + unat (sb_bmapstart sb)"
proof -
  have "unat b div BPB \<le> unat (sb_size sb) div BPB" using assms(2) by (simp add: div_le_mono)
  then have "unat b div BPB + unat (sb_bmapstart sb) < 2 ^ 32"
    using assms(1) unsigned_less[where 'b = 32 and 'a = nat, of "sb_size sb"] by (simp add: fs_layout_def data_start_def)
  then show ?thesis by (simp add: BBLOCK_def unat_word_ariths unat_div)
qed

lemma BBLOCK_bounds:
  assumes "fs_layout sb reg" "unat b < unat (sb_size sb)"
  shows "unat (sb_bmapstart sb) \<le> unat (BBLOCK b sb)" "unat (BBLOCK b sb) < data_start sb" "BBLOCK b sb \<notin> reg"
proof -
  have "unat b div BPB \<le> unat (sb_size sb) div BPB" using assms(2) by (simp add: div_le_mono)
  then show "unat (BBLOCK b sb) < data_start sb" by (simp add: unat_BBLOCK[OF assms] data_start_def)
  show le: "unat (sb_bmapstart sb) \<le> unat (BBLOCK b sb)" by (simp add: unat_BBLOCK[OF assms])
  show "BBLOCK b sb \<notin> reg" using le assms(1) by (force simp: fs_layout_def)
qed

text \<open>Two blocks whose bits are in the same bitmap block.\<close>

lemma BBLOCK_eq:
  assumes "fs_layout sb reg" "unat a < unat (sb_size sb)" "unat b < unat (sb_size sb)"
  shows "BBLOCK a sb = BBLOCK b sb \<longleftrightarrow> unat a div BPB = unat b div BPB"
  using unat_BBLOCK[OF assms(1,2)] unat_BBLOCK[OF assms(1,3)] by (metis add_right_cancel word_unat_eq_iff)

lemma same_bit:
  assumes "fs_layout sb reg" "unat a < unat (sb_size sb)" "unat b < unat (sb_size sb)"
    "BBLOCK a sb = BBLOCK b sb" "unat a mod BPB = unat b mod BPB"
  shows "a = b"
  using assms BBLOCK_eq[OF assms(1-3)] div_mult_mod_eq[of "unat a" BPB] div_mult_mod_eq[of "unat b" BPB]
  by (metis word_unat_eq_iff)

section \<open>The bitmap\<close>

lemma bit_free_iff: "bit_free d bi \<longleftrightarrow> \<not> bit (d ! (bi div 8)) (bi mod 8)"
  by (simp add: bit_free_def push_bit_eq_mult and_exp_eq_0_iff_not_bit)

lemma bit_free_mark:
  assumes "bi < 8 * length d" "bj < 8 * length d"
  shows "bit_free (mark_used d bi) bj \<longleftrightarrow> bit_free d bj \<and> bj \<noteq> bi"
    "bit_free (mark_free d bi) bj \<longleftrightarrow> bit_free d bj \<or> bj = bi"
proof -
  have i: "bi div 8 < length d" "bj div 8 < length d" using assms by auto
  have e: "bj = bi \<longleftrightarrow> bj div 8 = bi div 8 \<and> bj mod 8 = bi mod 8" by (metis div_mult_mod_eq)
  show "bit_free (mark_used d bi) bj \<longleftrightarrow> bit_free d bj \<and> bj \<noteq> bi"
    "bit_free (mark_free d bi) bj \<longleftrightarrow> bit_free d bj \<or> bj = bi"
    using i by (auto simp: bit_free_iff mark_used_def mark_free_def nth_list_update e bit_simps)
qed

text \<open>The free blocks, as the bitmap has them.\<close>

definition free_blocks :: "'a fs_state_scheme \<Rightarrow> uint set" where
  "free_blocks s = {b. unat b < unat (sb_size (fsb s)) \<and> bit_free (view s (BBLOCK b (fsb s))) (unat b mod BPB)}"

text \<open>The file system is well-formed: its layout is that of \<^verbatim>\<open>mkfs\<close> and only data blocks are free.\<close>

definition fs_ok :: "'a fs_state_scheme \<Rightarrow> bool" where
  "fs_ok s \<longleftrightarrow> fs_layout (fsb s) (log_region (klog s)) \<and> (\<forall>b \<in> free_blocks s. data_start (fsb s) \<le> unat b)"

lemma free_data:
  assumes "fs_ok s" "b \<in> free_blocks s"
  shows "b \<notin> log_region (klog s)" "unat b < unat (sb_size (fsb s))" "b \<noteq> 0"
    "unat c < unat (sb_size (fsb s)) \<Longrightarrow> b \<noteq> BBLOCK c (fsb s)"
proof -
  have l: "fs_layout (fsb s) (log_region (klog s))" and d: "data_start (fsb s) \<le> unat b"
    using assms by (auto simp: fs_ok_def)
  show "unat b < unat (sb_size (fsb s))" using assms(2) by (simp add: free_blocks_def)
  show "b \<notin> log_region (klog s)" using l d by (fastforce simp: fs_layout_def data_start_def)
  show "b \<noteq> 0" using d by (auto simp: data_start_def)
  show "b \<noteq> BBLOCK c (fsb s)" if "unat c < unat (sb_size (fsb s))"
    using BBLOCK_bounds(2)[OF l that] d by auto
qed

lemma free_blocks_cong: "view s' = view s \<Longrightarrow> fsb s' = fsb s \<Longrightarrow> free_blocks s' = free_blocks s"
  by (simp add: free_blocks_def)

lemma fs_ok_cong:
  "fs_ok s \<Longrightarrow> fsb s' = fsb s \<Longrightarrow> log_region (klog s') = log_region (klog s) \<Longrightarrow>
   free_blocks s' \<subseteq> free_blocks s \<Longrightarrow> fs_ok s'"
  by (auto simp: fs_ok_def)

section \<open>Allocating and freeing blocks\<close>

text \<open>A step that also leaves the inode table and the console alone.\<close>

definition quiet :: "'a fs_state_scheme \<Rightarrow> 'a fs_state_scheme \<Rightarrow> bool" where
  "quiet s s' \<longleftrightarrow> fstep s s' \<and> itable s' = itable s \<and> idle_count s' = idle_count s"

lemma quiet_refl [simp]: "quiet s s"
  by (simp add: quiet_def)

lemma quiet_trans: "quiet s t \<Longrightarrow> quiet t u \<Longrightarrow> quiet s u"
  by (auto simp: quiet_def intro: fstep_trans)

lemma quietD:
  assumes "quiet s s'"
  shows "fstep s s'" "itable s' = itable s" "idle_count s' = idle_count s" "fsb s' = fsb s"
    "log_region (klog s') = log_region (klog s)" "panicked s' = panicked s"
    "handle s b bn \<Longrightarrow> handle s' b bn"
  using assms by (auto simp: quiet_def fstep_def)

lemma txn_quiet: "txn_step {} s s' \<Longrightarrow> quiet s s'"
  using txn_step_more by (auto simp: quiet_def)

text \<open>\<open>wal.peek\<close> and \<open>wal.modify\<close> for the file system.\<close>

lemma fs_peek:
  assumes "txn H k s" "bn \<notin> H" "card H \<le> k"
  shows "\<exists>b s1 s2. bread ROOTDEV bn s = Ret (b, s1) \<and> bdata b s1 = view s bn \<and> quiet s s1 \<and>
    brelse b s1 = Ret s2 \<and> txn H k s2 \<and> view s2 = view s \<and> quiet s s2"
  using wal.peek[OF assms] txn_quiet by metis

lemma fs_modify:
  assumes "txn H (Suc k) s" "bn \<notin> H" "bn \<notin> log_region (klog s)" "card H \<le> Suc k" "length (f (view s bn)) = BSIZE"
  shows "\<exists>b s1 s2 s3. bread ROOTDEV bn s = Ret (b, s1) \<and> bdata b s1 = view s bn \<and> quiet s s1 \<and>
    log_write b (set_bdata b (f (view s bn)) s1) = Ret s2 \<and> brelse b s2 = Ret s3 \<and>
    txn H k s3 \<and> view s3 = (view s)(bn := f (view s bn)) \<and> quiet s s3"
proof -
  from wal.modify[where f = f, OF assms] obtain b s1 s2 s3 where r: "bread ROOTDEV bn s = Ret (b, s1)"
    "bdata b s1 = view s bn" "view s1 = view s" "txn_step {} s s1"
    "log_write b (set_bdata b (f (bdata b s1)) s1) = Ret s2" "brelse b s2 = Ret s3"
    "txn H (if bn \<in> set (logged (klog s)) then Suc k else k) s3" "view s3 = (view s)(bn := f (view s bn))"
    "txn_step {} s s3" by blast
  have "txn H k s3" using r(7) wal.T_less[of H "Suc k" s3 k] by (auto split: if_splits)
  then show ?thesis using r txn_quiet by metis
qed

lemma bzero_zeroes:
  assumes "txn H (Suc k) s" "bn \<notin> H" "bn \<notin> log_region (klog s)" "card H \<le> Suc k"
  shows "\<exists>s'. bzero ROOTDEV bn s = Ret s' \<and> txn H k s' \<and> view s' = (view s)(bn := replicate BSIZE 0) \<and> quiet s s'"
proof -
  have "length (replicate BSIZE 0) = BSIZE" by simp
  from fs_modify[where f = "\<lambda>_. replicate BSIZE 0", OF assms this] obtain b s1 s2 s3 where
    r: "bread ROOTDEV bn s = Ret (b, s1)" "log_write b (set_bdata b (replicate BSIZE 0) s1) = Ret s2"
      "brelse b s2 = Ret s3" "txn H k s3" "view s3 = (view s)(bn := replicate BSIZE 0)" "quiet s s3" by blast
  then show ?thesis by (simp add: bzero_def)
qed

lemma unat_of_nat32: "n < 2 ^ 32 \<Longrightarrow> unat (of_nat n :: uint) = n"
  by (simp only: unsigned_of_nat) (simp add: take_bit_nat_eq_self)

text \<open>The blocks of the bitmap, and the state in which a block has been allocated.\<close>

definition bitmap_blocks :: "'a fs_state_scheme \<Rightarrow> uint set" where
  "bitmap_blocks s = {BBLOCK b (fsb s) | b. unat b < unat (sb_size (fsb s))}"

definition allocated :: "uint \<Rightarrow> 'a fs_state_scheme \<Rightarrow> 'a fs_state_scheme \<Rightarrow> bool" where
  "allocated a s s' \<longleftrightarrow> a \<in> free_blocks s \<and> free_blocks s' = free_blocks s - {a} \<and> view s' a = replicate BSIZE 0 \<and>
     (\<forall>x. x \<noteq> a \<longrightarrow> x \<notin> bitmap_blocks s \<longrightarrow> view s' x = view s x)"

lemma mod_BPB: "b mod BPB < 8 * BSIZE"
  by simp

lemma allocated_view:
  assumes ok: "fs_ok s" and a: "a \<in> free_blocks s" and len: "\<And>x. length (view s x) = BSIZE" and sb: "fsb s' = fsb s"
    and v: "view s' = (view s)(BBLOCK a (fsb s) := mark_used (view s (BBLOCK a (fsb s))) (unat a mod BPB),
      a := replicate BSIZE 0)"
  shows "allocated a s s'"
proof -
  let ?sb = "fsb s"
  have l: "fs_layout ?sb (log_region (klog s))" using ok by (simp add: fs_ok_def)
  note d = free_data[OF ok a]
  have "bit_free (view s' (BBLOCK b ?sb)) (unat b mod BPB) \<longleftrightarrow>
      bit_free (view s (BBLOCK b ?sb)) (unat b mod BPB) \<and> b \<noteq> a" if b: "unat b < unat (sb_size ?sb)" for b
  proof (cases "BBLOCK b ?sb = BBLOCK a ?sb")
    case True
    have "view s' (BBLOCK b ?sb) = mark_used (view s (BBLOCK a ?sb)) (unat a mod BPB)"
      using d(4)[OF d(2)] True by (simp add: v)
    then show ?thesis
      using bit_free_mark(1)[of "unat a mod BPB" "view s (BBLOCK a ?sb)" "unat b mod BPB"] len
        same_bit[OF l b d(2) True] True by auto
  next
    case False
    then show ?thesis using d(4)[OF b] by (auto simp: v)
  qed
  then have "free_blocks s' = free_blocks s - {a}" by (auto simp: free_blocks_def sb)
  moreover have "BBLOCK a ?sb \<in> bitmap_blocks s" using d(2) by (auto simp: bitmap_blocks_def)
  ultimately show ?thesis using a by (auto simp: allocated_def v)
qed

text \<open>The blocks whose bits the outer loop of \<open>balloc\<close> looks at in its turn for \<open>b\<close>.\<close>

lemma bitmap_turn:
  assumes l: "fs_layout sb reg" and j: "j * BPB + i < unat (sb_size sb)" "i < BPB"
  shows "BBLOCK (of_nat (j * BPB)) sb = BBLOCK (of_nat (j * BPB + i)) sb"
    "unat (of_nat (j * BPB + i) :: uint) = j * BPB + i"
proof -
  have "j * BPB + i < 2 ^ 32" "j * BPB < 2 ^ 32"
    using j(1) unsigned_less[where 'b = 32 and 'a = nat, of "sb_size sb"] by auto
  then show u: "unat (of_nat (j * BPB + i) :: uint) = j * BPB + i" using unat_of_nat32 by blast
  have u0: "unat (of_nat (j * BPB) :: uint) = j * BPB" using \<open>j * BPB < 2 ^ 32\<close> by (rule unat_of_nat32)
  have "(j * BPB + i) div BPB = j" using j(2) by simp
  then show "BBLOCK (of_nat (j * BPB)) sb = BBLOCK (of_nat (j * BPB + i)) sb"
    using BBLOCK_eq[OF l, of "of_nat (j * BPB)" "of_nat (j * BPB + i)"] j u u0 by simp
qed

lemma balloc_loop_found:
  assumes "txn H (Suc (Suc k)) s" "fs_ok s" "H \<inter> (free_blocks s \<union> bitmap_blocks s) = {}" "card H \<le> Suc k"
    and "\<forall>j \<in> set js. j * BPB < unat (sb_size (fsb s))"
    and "\<exists>b \<in> free_blocks s. unat b div BPB \<in> set js"
  shows "\<exists>a s'. balloc_loop (map (\<lambda>j. j * BPB) js) ROOTDEV s = Ret (a, s') \<and> txn H k s' \<and> allocated a s s' \<and> quiet s s'"
  using assms
proof (induction js arbitrary: s)
  case (Cons j js)
  let ?sb = "fsb s" and ?bn = "BBLOCK (of_nat (j * BPB)) (fsb s)"
  let ?is = "[0..<min BPB (unat (sb_size ?sb) - j * BPB)]"
  have l: "fs_layout ?sb (log_region (klog s))" using Cons.prems(2) by (simp add: fs_ok_def)
  have j: "j * BPB + 0 < unat (sb_size ?sb)" using Cons.prems(5) by simp
  note j0 = bitmap_turn(2)[OF l j, simplified]
  have bn: "?bn \<in> bitmap_blocks s" using j j0 by (auto simp: bitmap_blocks_def)
  have reg: "?bn \<notin> log_region (klog s)" using BBLOCK_bounds(3)[OF l, of "of_nat (j * BPB)"] j j0 by simp
  have c: "?bn \<notin> H" using bn Cons.prems(3) by auto
  have len: "length (view s x) = BSIZE" for x by (rule wal.T_len[OF Cons.prems(1)])
  show ?case
  proof (cases "find (bit_free (view s ?bn)) ?is")
    case (Some i)
    then have i: "i < BPB" "j * BPB + i < unat (sb_size ?sb)" "bit_free (view s ?bn) i"
      using find_SomeD[OF Some] by auto
    note t = bitmap_turn[OF l i(2,1)]
    let ?a = "of_nat (j * BPB + i) :: uint"
    have m: "unat ?a mod BPB = i" using t(2) i(1) by (simp add: mod_mult_self3)
    have a: "?a \<in> free_blocks s" using i t m by (simp add: free_blocks_def)
    note d = free_data[OF Cons.prems(2) a]
    have mu: "length (mark_used (view s ?bn) i) = BSIZE" "card H \<le> Suc (Suc k)"
      using len Cons.prems(4) by (simp_all add: mark_used_def)
    from fs_modify[where f = "\<lambda>d. mark_used d i", OF Cons.prems(1) c reg mu(2,1)]
    obtain b s1 s2 s3 where r: "bread ROOTDEV ?bn s = Ret (b, s1)" "bdata b s1 = view s ?bn" "quiet s s1"
        "log_write b (set_bdata b (mark_used (view s ?bn) i) s1) = Ret s2" "brelse b s2 = Ret s3"
        "txn H (Suc k) s3" "view s3 = (view s)(?bn := mark_used (view s ?bn) i)" "quiet s s3" by blast
    have "?a \<notin> H" using a Cons.prems(3) by auto
    then obtain s4 where s4: "bzero ROOTDEV ?a s3 = Ret s4" "txn H k s4" "view s4 = (view s3)(?a := replicate BSIZE 0)"
        "quiet s3 s4"
      using bzero_zeroes[OF r(6), of ?a] d(1) quietD(5)[OF r(8)] Cons.prems(4) by auto
    have "balloc_loop (map (\<lambda>j. j * BPB) (j # js)) ROOTDEV s = Ret (?a, s4)"
      using r(1,2,4,5) s4(1) Some quietD(4)[OF r(3)] by simp
    moreover have "view s4 = (view s)(BBLOCK ?a ?sb := mark_used (view s (BBLOCK ?a ?sb)) (unat ?a mod BPB),
        ?a := replicate BSIZE 0)" by (simp only: s4(3) r(7) t(1) m)
    then have "allocated ?a s s4"
      using quietD(4)[OF quiet_trans[OF r(8) s4(4)]] by (intro allocated_view[OF Cons.prems(2) a len])
    ultimately show ?thesis using s4(2) quiet_trans[OF r(8) s4(4)] by blast
  next
    case None
    have "card H \<le> Suc (Suc k)" using Cons.prems(4) by simp
    from fs_peek[OF Cons.prems(1) c this]
    obtain b s1 s2 where r: "bread ROOTDEV ?bn s = Ret (b, s1)" "bdata b s1 = view s ?bn" "quiet s s1"
        "brelse b s1 = Ret s2" "txn H (Suc (Suc k)) s2" "view s2 = view s" "quiet s s2" by blast
    note q = quietD[OF r(7)]
    have f: "free_blocks s2 = free_blocks s" by (rule free_blocks_cong) (simp_all add: r(6) q)
    have "unat b div BPB \<noteq> j" if "b \<in> free_blocks s" for b
    proof
      assume e: "unat b div BPB = j"
      then have b: "j * BPB + unat b mod BPB = unat b" by (metis div_mult_mod_eq)
      have "unat b < unat (sb_size ?sb)" "bit_free (view s (BBLOCK b ?sb)) (unat b mod BPB)"
        using that by (auto simp: free_blocks_def)
      moreover have "BBLOCK b ?sb = ?bn"
        using bitmap_turn(1)[OF l, of j "unat b mod BPB"] b calculation(1) by simp
      ultimately have "unat b mod BPB \<in> set ?is \<and> bit_free (view s ?bn) (unat b mod BPB)"
        using b by auto
      then show False using None by (auto simp: find_None_iff)
    qed
    then have "\<exists>b \<in> free_blocks s2. unat b div BPB \<in> set js" using Cons.prems(6) f by auto
    moreover have "fs_ok s2" by (rule fs_ok_cong[OF Cons.prems(2)]) (simp_all add: q f)
    moreover have "bitmap_blocks s2 = bitmap_blocks s" by (simp add: bitmap_blocks_def q)
    ultimately obtain a s' where s': "balloc_loop (map (\<lambda>j. j * BPB) js) ROOTDEV s2 = Ret (a, s')" "txn H k s'"
        "allocated a s2 s'" "quiet s2 s'"
      using Cons.IH[OF r(5)] Cons.prems(3-5) f q(4) by auto
    have "balloc_loop (map (\<lambda>j. j * BPB) (j # js)) ROOTDEV s = Ret (a, s')"
      using r(1,2,4) s'(1) None quietD(4)[OF r(3)] by simp
    moreover have "allocated a s s'" using s'(3) f r(6) \<open>bitmap_blocks s2 = bitmap_blocks s\<close> by (simp add: allocated_def)
    ultimately show ?thesis using s'(2) quiet_trans[OF r(7) s'(4)] by blast
  qed
qed simp

lemma balloc_found:
  assumes "txn H (Suc (Suc k)) s" "fs_ok s" "H \<inter> (free_blocks s \<union> bitmap_blocks s) = {}" "card H \<le> Suc k"
    and "free_blocks s \<noteq> {}"
  shows "\<exists>a s'. balloc ROOTDEV s = Ret (a, s') \<and> txn H k s' \<and> allocated a s s' \<and> quiet s s'"
proof -
  let ?n = "unat (sb_size (fsb s))" and ?js = "[0..<(unat (sb_size (fsb s)) + BPB - 1) div BPB]"
  have "j * BPB < ?n" if "j \<in> set ?js" for j
  proof -
    have "Suc j \<le> (?n + BPB - 1) div BPB" using that by simp
    then have "Suc j * BPB \<le> ?n + BPB - 1" by (metis div_times_less_eq_dividend mult_le_mono1 order_trans)
    then show ?thesis by simp
  qed
  moreover have "unat b div BPB \<in> set ?js" if "b \<in> free_blocks s" for b
  proof -
    have "unat b < ?n" using that by (simp add: free_blocks_def)
    then have "unat b + BPB \<le> ?n + BPB - 1" by simp
    then have "(unat b + BPB) div BPB \<le> (?n + BPB - 1) div BPB" by (rule div_le_mono)
    then show ?thesis by simp
  qed
  ultimately show ?thesis
    using balloc_loop_found[OF assms(1-4), of ?js] assms(5) unfolding balloc_def by blast
qed

text \<open>The state in which a block has been freed.\<close>

definition freed :: "uint \<Rightarrow> 'a fs_state_scheme \<Rightarrow> 'a fs_state_scheme \<Rightarrow> bool" where
  "freed a s s' \<longleftrightarrow> free_blocks s' = insert a (free_blocks s) \<and> (\<forall>x. x \<notin> bitmap_blocks s \<longrightarrow> view s' x = view s x)"

lemma bfree_frees:
  assumes T: "txn H (Suc k) s" and l: "fs_layout (fsb s) (log_region (klog s))" and a: "unat a < unat (sb_size (fsb s))"
    "a \<notin> free_blocks s" and H: "BBLOCK a (fsb s) \<notin> H" "card H \<le> Suc k"
  shows "\<exists>s'. bfree ROOTDEV a s = Ret s' \<and> txn H k s' \<and> freed a s s' \<and> quiet s s'"
proof -
  let ?sb = "fsb s" and ?bn = "BBLOCK a (fsb s)" and ?i = "unat a mod BPB"
  have len: "length (view s x) = BSIZE" for x by (rule wal.T_len[OF T])
  then have m: "length (mark_free (view s ?bn) ?i) = BSIZE" by (simp add: mark_free_def)
  note b = BBLOCK_bounds[OF l a(1)]
  from fs_modify[where f = "\<lambda>d. mark_free d ?i", OF T H(1) b(3) H(2) m]
  obtain b s1 s2 s3 where r: "bread ROOTDEV ?bn s = Ret (b, s1)" "bdata b s1 = view s ?bn" "quiet s s1"
    "log_write b (set_bdata b (mark_free (view s ?bn) ?i) s1) = Ret s2" "brelse b s2 = Ret s3"
    "txn H k s3" "view s3 = (view s)(?bn := mark_free (view s ?bn) ?i)" "quiet s s3" by blast
  have "\<not> bit_free (view s ?bn) ?i" using a by (simp add: free_blocks_def)
  then have "bfree ROOTDEV a s = Ret s3" using r by (simp add: bfree_def Let_def)
  moreover have "bit_free (view s3 (BBLOCK c ?sb)) (unat c mod BPB) \<longleftrightarrow>
      bit_free (view s (BBLOCK c ?sb)) (unat c mod BPB) \<or> c = a" if c: "unat c < unat (sb_size ?sb)" for c
    using bit_free_mark(2)[of ?i "view s ?bn" "unat c mod BPB"] len same_bit[OF l c a(1)] by (auto simp: r(7))
  then have "free_blocks s3 = insert a (free_blocks s)"
    using a(1) quietD(4)[OF r(8)] by (auto simp: free_blocks_def)
  moreover have "?bn \<in> bitmap_blocks s" using a(1) by (auto simp: bitmap_blocks_def)
  ultimately show ?thesis using r(6,8) by (auto simp: freed_def r(7))
qed

end
