(* ===== verification/Fs_Inode.thy ===== *)
theory Fs_Inode
  imports Fs_Laws
begin

text \<open>
  Inodes: their 64 bytes on disk as a record, \<open>iupdate\<close> and \<open>ilock\<close> as writing and reading that record,
  and \<open>bmap\<close> as the map from the blocks of a file to the blocks of the disk.
\<close>

section \<open>The record in its block\<close>

lemma get32_same:
  assumes "length d' = length d" "p + 4 \<le> length d" "\<And>j. p \<le> j \<Longrightarrow> j < p + 4 \<Longrightarrow> d' ! j = d ! j"
  shows "get32 d' p = get32 d p"
proof -
  have "take 4 (drop p d') = take 4 (drop p d)" using assms by (intro nth_equalityI) auto
  then show ?thesis by (simp add: get32_def)
qed

lemma get16_same:
  assumes "length d' = length d" "p + 2 \<le> length d" "\<And>j. p \<le> j \<Longrightarrow> j < p + 2 \<Longrightarrow> d' ! j = d ! j"
  shows "get16 d' p = get16 d p"
proof -
  have "take 2 (drop p d') = take 2 (drop p d)" using assms by (intro nth_equalityI) auto
  then show ?thesis by (simp add: get16_def)
qed

lemma nth_overwrite_outside:
  assumes "i + length cs \<le> length bs" "j < i \<or> i + length cs \<le> j"
  shows "overwrite bs i cs ! j = bs ! j"
proof (cases "j < i")
  case True
  then show ?thesis using assms(1) by (simp add: overwrite_def nth_append)
next
  case False
  then have "\<not> j - i < length cs" "i + (length cs + (j - i - length cs)) = j" using assms by linarith+
  then show ?thesis using assms False by (simp add: overwrite_def nth_append add.assoc)
qed

lemma nth_put:
  "p + 4 \<le> length d \<Longrightarrow> j < p \<or> p + 4 \<le> j \<Longrightarrow> put32 d p w ! j = d ! j"
  "p + 2 \<le> length d \<Longrightarrow> j < p \<or> p + 2 \<le> j \<Longrightarrow> put16 d p v ! j = d ! j"
  unfolding put32_def put16_def by (rule nth_overwrite_outside; simp)+

definition put_addrs :: "block \<Rightarrow> nat \<Rightarrow> uint list \<Rightarrow> nat \<Rightarrow> block" where
  "put_addrs d p as n = fold (\<lambda>k d. put32 d (p + 4 * k) (as ! k)) [0..<n] d"

lemma put_addrs_props:
  assumes "p + 4 * n \<le> length d"
  shows "length (put_addrs d p as n) = length d \<and>
    (\<forall>j. j < p \<or> p + 4 * n \<le> j \<longrightarrow> put_addrs d p as n ! j = d ! j) \<and>
    (\<forall>k < n. get32 (put_addrs d p as n) (p + 4 * k) = as ! k)"
  using assms
proof (induction n)
  case (Suc n)
  let ?d = "put_addrs d p as n"
  have e: "put_addrs d p as (Suc n) = put32 ?d (p + 4 * n) (as ! n)" by (simp add: put_addrs_def)
  have IH: "length ?d = length d" "\<And>j. j < p \<or> p + 4 * n \<le> j \<Longrightarrow> ?d ! j = d ! j"
    "\<And>k. k < n \<Longrightarrow> get32 ?d (p + 4 * k) = as ! k" using Suc by auto
  have "get32 (put32 ?d (p + 4 * n) (as ! n)) (p + 4 * k) = as ! k" if "k < Suc n" for k
    using that IH(1,3) Suc.prems by (cases "k = n") (simp_all add: get32_put32_same get32_put32_other)
  then show ?case using IH(1,2) Suc.prems by (auto simp: e nth_put)
qed (simp add: put_addrs_def)

lemmas put_addrs_length = put_addrs_props[THEN conjunct1]
lemmas put_addrs_outside = put_addrs_props[THEN conjunct2, THEN conjunct1, rule_format]
lemmas put_addrs_inside = put_addrs_props[THEN conjunct2, THEN conjunct2, rule_format]

text \<open>Only the 64 bytes of the record are written, and they are read back.\<close>

lemma put_dinode_eq:
  "put_dinode d i x = put_addrs (put32 (put16 (put16 (put16 (put16 d i (di_type x)) (i + 2) (di_major x))
     (i + 4) (di_minor x)) (i + 6) (di_nlink x)) (i + 8) (di_size x)) (i + 12) (di_addrs x) (NDIRECT + 1)"
  by (simp add: put_dinode_def put_addrs_def Let_def)

lemma put_dinode_outside:
  assumes "i + 64 \<le> length d"
  shows "length (put_dinode d i x) = length d" "j < i \<or> i + 64 \<le> j \<Longrightarrow> put_dinode d i x ! j = d ! j"
  using assms by (auto simp: put_dinode_eq put_addrs_length put_addrs_outside nth_put)

lemma get_put_dinode:
  assumes "i + 64 \<le> length d" "length (di_addrs x) = NDIRECT + 1"
  shows "get_dinode (put_dinode d i x) i = x"
proof -
  let ?d = "put32 (put16 (put16 (put16 (put16 d i (di_type x)) (i + 2) (di_major x))
     (i + 4) (di_minor x)) (i + 6) (di_nlink x)) (i + 8) (di_size x)"
  have len: "length ?d = length d" using assms(1) by simp
  have out: "put_dinode d i x ! j = ?d ! j" if "j < i + 12" for j
    using that assms(1) len by (simp add: put_dinode_eq put_addrs_outside)
  have l: "length (put_dinode d i x) = length ?d" using put_dinode_outside(1)[OF assms(1)] len by simp
  have f: "get16 (put_dinode d i x) (i + a) = get16 ?d (i + a)" if "a + 2 \<le> 12" for a
    using that len assms(1) out by (intro get16_same[OF l]) auto
  have "get32 (put_dinode d i x) (i + 8) = get32 ?d (i + 8)"
    using len assms(1) out by (intro get32_same[OF l]) auto
  moreover have "map (\<lambda>k. get32 (put_dinode d i x) (i + 12 + 4 * k)) [0..<NDIRECT + 1] = di_addrs x"
  proof (rule nth_equalityI)
    fix k assume "k < length (map (\<lambda>k. get32 (put_dinode d i x) (i + 12 + 4 * k)) [0..<NDIRECT + 1])"
    then have k: "k < NDIRECT + 1" by simp
    have "i + 12 + 4 * (NDIRECT + 1) \<le> length ?d" using assms(1) len by simp
    from put_addrs_inside[OF this k] have "get32 (put_dinode d i x) (i + 12 + 4 * k) = di_addrs x ! k"
      by (simp only: put_dinode_eq)
    moreover have "map g [0..<NDIRECT + 1] ! k = g k" for g :: "nat \<Rightarrow> uint" using k by (rule nth_map_upt0)
    ultimately show "map (\<lambda>k. get32 (put_dinode d i x) (i + 12 + 4 * k)) [0..<NDIRECT + 1] ! k = di_addrs x ! k" by metis
  qed (use assms(2) in simp)
  ultimately show ?thesis
    using assms(1) f[of 0] f[of 2] f[of 4] f[of 6]
    by (simp add: get_dinode_def get16_put16_same get16_put16_other get16_put32_other get32_put32_same)
qed

lemma get_dinode_cong:
  assumes "length d' = length d" "i + 64 \<le> length d" "\<And>j. i \<le> j \<Longrightarrow> j < i + 64 \<Longrightarrow> d' ! j = d ! j"
  shows "get_dinode d' i = get_dinode d i"
  using assms by (auto simp: get_dinode_def intro!: get16_same get32_same)

lemma dinode_off_bound: "dinode_off n + 64 \<le> BSIZE"
proof -
  have "unat n mod IPB < 16" by simp
  then have "64 * (unat n mod IPB) \<le> 64 * 15" by (simp only: mult_le_mono2 less_Suc_eq_le)
  then show ?thesis by (simp add: dinode_off_def)
qed

section \<open>Inode blocks\<close>

lemma unat_IBLOCK:
  assumes "fs_layout sb reg" "unat n < unat (sb_ninodes sb)"
  shows "unat (IBLOCK n sb) = unat n div IPB + unat (sb_inodestart sb)"
proof -
  have "unat n div IPB \<le> unat (sb_ninodes sb) div IPB" using assms(2) by (simp add: div_le_mono)
  then have "unat n div IPB + unat (sb_inodestart sb) < 2 ^ 32"
    using assms(1) unsigned_less[where 'b = 32 and 'a = nat, of "sb_size sb"] by (simp add: fs_layout_def data_start_def)
  then show ?thesis by (simp add: IBLOCK_def unat_word_ariths unat_div)
qed

lemma IBLOCK_bounds:
  assumes "fs_layout sb reg" "unat n < unat (sb_ninodes sb)"
  shows "unat (IBLOCK n sb) < unat (sb_bmapstart sb)" "unat (IBLOCK n sb) < data_start sb" "IBLOCK n sb \<notin> reg"
    "unat b < unat (sb_size sb) \<Longrightarrow> IBLOCK n sb \<noteq> BBLOCK b sb"
proof -
  have "unat n div IPB \<le> unat (sb_ninodes sb) div IPB" using assms(2) by (simp add: div_le_mono)
  then show lt: "unat (IBLOCK n sb) < unat (sb_bmapstart sb)"
    using assms(1) by (simp add: unat_IBLOCK[OF assms] fs_layout_def)
  then show "unat (IBLOCK n sb) < data_start sb" by (simp add: data_start_def)
  have "unat (sb_inodestart sb) \<le> unat (IBLOCK n sb)" by (simp add: unat_IBLOCK[OF assms])
  then show "IBLOCK n sb \<notin> reg" using assms(1) by (force simp: fs_layout_def)
  show "IBLOCK n sb \<noteq> BBLOCK b sb" if "unat b < unat (sb_size sb)"
    using BBLOCK_bounds(1)[OF assms(1) that] lt by auto
qed

lemma IBLOCK_same:
  assumes "fs_layout sb reg" "unat m < unat (sb_ninodes sb)" "unat n < unat (sb_ninodes sb)"
    and "IBLOCK m sb = IBLOCK n sb" "dinode_off m = dinode_off n"
  shows "m = n"
proof -
  have "unat m div IPB = unat n div IPB"
    using unat_IBLOCK[OF assms(1,2)] unat_IBLOCK[OF assms(1,3)] assms(4) by simp
  moreover have "unat m mod IPB = unat n mod IPB" using assms(5) by (simp add: dinode_off_def)
  ultimately have "unat m = unat n" by (metis div_mult_mod_eq)
  then show ?thesis by (simp add: word_unat_eq_iff)
qed

text \<open>The inode \<open>n\<close> on disk, and the part of an inode in memory that is kept on disk.\<close>

definition dinode_at :: "'a fs_state_scheme \<Rightarrow> uint \<Rightarrow> dinode" where
  "dinode_at s n = get_dinode (view s (IBLOCK n (fsb s))) (dinode_off n)"

definition dinode_of :: "inode \<Rightarrow> dinode" where
  "dinode_of x = \<lparr>di_type = i_type x, di_major = i_major x, di_minor = i_minor x, di_nlink = i_nlink x,
     di_size = i_size x, di_addrs = i_addrs x\<rparr>"

lemma off_apart:
  "dinode_off m = dinode_off n \<or> dinode_off m + 64 \<le> dinode_off n \<or> dinode_off n + 64 \<le> dinode_off m"
  by (auto simp: dinode_off_def)

lemma iupdate_writes:
  assumes T: "txn H (Suc k) s" and l: "fs_layout (fsb s) (log_region (klog s))"
    and x: "x = itable s ! ip" "i_dev x = ROOTDEV" "unat (i_inum x) < unat (sb_ninodes (fsb s))"
      "length (i_addrs x) = NDIRECT + 1"
    and H: "IBLOCK (i_inum x) (fsb s) \<notin> H" "card H \<le> Suc k"
  shows "\<exists>s'. iupdate ip s = Ret s' \<and> txn H k s' \<and> quiet s s' \<and>
     (\<forall>n. unat n < unat (sb_ninodes (fsb s)) \<longrightarrow>
        dinode_at s' n = (if n = i_inum x then dinode_of x else dinode_at s n)) \<and>
     (\<forall>bn. bn \<noteq> IBLOCK (i_inum x) (fsb s) \<longrightarrow> view s' bn = view s bn)"
proof -
  let ?bn = "IBLOCK (i_inum x) (fsb s)" and ?o = "dinode_off (i_inum x)"
  let ?f = "\<lambda>d. put_dinode d ?o (dinode_of x)"
  have len: "length (view s b) = BSIZE" for b by (rule wal.T_len[OF T])
  have o: "?o + 64 \<le> length (view s ?bn)" using dinode_off_bound len by metis
  have m: "length (?f (view s ?bn)) = BSIZE" using put_dinode_outside(1)[OF o] len by metis
  from fs_modify[where f = ?f, OF T H(1) IBLOCK_bounds(3)[OF l x(3)] H(2) m]
  obtain b s1 s2 s3 where r: "bread ROOTDEV ?bn s = Ret (b, s1)" "bdata b s1 = view s ?bn" "quiet s s1"
    "log_write b (set_bdata b (?f (view s ?bn)) s1) = Ret s2" "brelse b s2 = Ret s3"
    "txn H k s3" "view s3 = (view s)(?bn := ?f (view s ?bn))" "quiet s s3" by blast
  have "iupdate ip s = Ret s3"
    using r(1,2,4,5) x(2) by (simp add: iupdate_def Let_def x(1)[symmetric] dinode_of_def)
  moreover have "dinode_at s3 n = (if n = i_inum x then dinode_of x else dinode_at s n)"
    if n: "unat n < unat (sb_ninodes (fsb s))" for n
  proof (cases "IBLOCK n (fsb s) = ?bn")
    case True
    have sb: "fsb s3 = fsb s" by (rule quietD(4)[OF r(8)])
    show ?thesis
    proof (cases "n = i_inum x")
      case True
      then show ?thesis using get_put_dinode[OF o, of "dinode_of x"] x(4) sb
        by (simp add: dinode_at_def r(7)) (simp add: dinode_of_def)
    next
      case False
      then have "dinode_off n \<noteq> ?o" using IBLOCK_same[OF l n x(3) True] by blast
      then have "get_dinode (?f (view s ?bn)) (dinode_off n) = get_dinode (view s ?bn) (dinode_off n)"
        using off_apart[of n "i_inum x"] put_dinode_outside[OF o] dinode_off_bound[of n] len
        by (intro get_dinode_cong) (metis, metis, force)
      then show ?thesis using False True sb by (simp add: dinode_at_def r(7))
    qed
  next
    case False
    then show ?thesis using quietD(4)[OF r(8)] by (auto simp: dinode_at_def r(7))
  qed
  ultimately show ?thesis using r(6,8) by (auto simp: r(7))
qed

lemma ilock_loads:
  assumes T: "txn H k s" and x: "x = itable s ! ip" "ip < length (itable s)" "i_dev x = ROOTDEV" "1 \<le> i_ref x"
      "\<not> sl_locked (i_lock x)" "\<not> i_valid x"
    and ty: "di_type (dinode_at s (i_inum x)) \<noteq> 0" and H: "IBLOCK (i_inum x) (fsb s) \<notin> H" "card H \<le> k"
  shows "\<exists>s' y. ilock (Some ip) s = Ret s' \<and> txn H k s' \<and> fstep s s' \<and> view s' = view s \<and>
     itable s' = (itable s)[ip := y] \<and> dinode_of y = dinode_at s (i_inum x) \<and> i_valid y \<and>
     holdingsleep (i_lock y) s' = Ret True \<and> i_dev y = i_dev x \<and> i_inum y = i_inum x \<and> i_ref y = i_ref x"
proof -
  let ?bn = "IBLOCK (i_inum x) (fsb s)" and ?di = "dinode_at s (i_inum x)"
  have run: "running s" using T by (simp add: txn_def log_inv_def cache_inv_def)
  from acquiresleep_free[OF run x(5)] obtain lk where lk: "acquiresleep (i_lock x) s = Ret lk" "sl_locked lk"
    "holdingsleep lk s = Ret True" by blast
  let ?s1 = "upd_inode ip (\<lambda>x. x\<lparr>i_lock := lk\<rparr>) s"
  have T1: "txn H k ?s1" using T by simp
  from wal.rd_law[OF T1 H] obtain b s2 where r: "bread ROOTDEV ?bn ?s1 = Ret (b, s2)" "txn (insert ?bn H) k s2"
    "handle s2 b ?bn" "view s2 = view ?s1" "txn_step {} ?s1 s2" "set (logged (klog s2)) = set (logged (klog ?s1))"
    "(\<lambda>bn. view s2 bn = disk s2 bn) = (\<lambda>bn. view ?s1 bn = disk ?s1 bn)" by metis
  have d: "bdata b s2 = view s ?bn" using wal.T_hnd[OF r(2,3)] r(4) by simp
  note q = quietD[OF txn_quiet[OF r(5)]]
  define g where "g = (\<lambda>x. x\<lparr>i_type := di_type ?di, i_major := di_major ?di, i_minor := di_minor ?di,
    i_nlink := di_nlink ?di, i_size := di_size ?di, i_addrs := di_addrs ?di\<rparr> :: inode)"
  let ?s3 = "upd_inode ip g s2"
  have T3: "txn (insert ?bn H) k ?s3" "handle ?s3 b ?bn" using r(2,3) by simp_all
  have "?bn \<in> set (logged (klog ?s1)) \<or> view ?s1 ?bn = disk ?s1 ?bn" by (rule wal.T_clean[OF T1 H(1)])
  then have "?bn \<in> set (logged (klog ?s3)) \<or> view ?s3 ?bn = disk ?s3 ?bn"
    using r(6) fun_cong[OF r(7), of ?bn] by simp
  from wal.rel_law[OF T3 this] obtain s4 where s4: "brelse b ?s3 = Ret s4" "txn (insert ?bn H - {?bn}) k s4"
    "view s4 = view ?s3" "txn_step {?bn} ?s3 s4" by blast
  let ?y = "g (x\<lparr>i_lock := lk\<rparr>)\<lparr>i_valid := True\<rparr>"
  let ?s5 = "upd_inode ip (\<lambda>x. x\<lparr>i_valid := True\<rparr>) s4"
  have it: "itable s4 = (itable s)[ip := g (x\<lparr>i_lock := lk\<rparr>)]"
    using x(2) by (simp add: txn_step_more(2)[OF s4(4)] q(2) x(1)[symmetric])
  have di: "?di = get_dinode (bdata b s2) (dinode_off (i_inum x))" using d by (simp add: dinode_at_def)
  have "ilock (Some ip) s = Ret ?s5"
    using x lk(1) r(1) s4(1) ty it
    by (simp add: ilock_def Let_def x(1)[symmetric] g_def[symmetric] di[symmetric] q) (simp add: g_def)
  moreover have "fstep s s4"
    using fstep_but_trans[OF fstep_trans[OF fstep_trans[OF fstep_upd_inode q(1)] fstep_upd_inode] txn_step_more(1)[OF s4(4)]] H(1)
    by (intro fstep_free[OF T]) auto
  then have "fstep s ?s5" by (rule fstep_trans) simp
  moreover have "holdingsleep lk ?s5 = Ret True"
    using holdingsleep_fstep[OF calculation(2) run] lk(3) by simp
  ultimately show ?thesis using s4(2,3) r(4) H(1) it x(2)
    by (intro exI[of _ ?s5] exI[of _ ?y]) (auto simp: dinode_of_def g_def x(1)[symmetric])
qed

section \<open>The blocks of a file\<close>

text \<open>
  The disk block of block \<open>bn\<close> of the file, 0 if it has none; the blocks a file owns, its indirect
  block included; and the byte of the file at offset \<open>k\<close>, 0 in a block that is not there.
\<close>

definition indirect :: "'a fs_state_scheme \<Rightarrow> nat \<Rightarrow> uint" where
  "indirect s ip = i_addrs (itable s ! ip) ! NDIRECT"

definition fblock :: "'a fs_state_scheme \<Rightarrow> nat \<Rightarrow> nat \<Rightarrow> uint" where
  "fblock s ip bn =
     (if bn < NDIRECT then i_addrs (itable s ! ip) ! bn
      else if indirect s ip = 0 then 0 else get32 (view s (indirect s ip)) (4 * (bn - NDIRECT)))"

definition file_blocks :: "'a fs_state_scheme \<Rightarrow> nat \<Rightarrow> uint set" where
  "file_blocks s ip = insert (indirect s ip) (fblock s ip ` {..<MAXFILE}) - {0}"

definition fbyte :: "'a fs_state_scheme \<Rightarrow> nat \<Rightarrow> nat \<Rightarrow> uchar" where
  "fbyte s ip k =
     (let a = fblock s ip (k div BSIZE) in if a = 0 then 0 else view s a ! (k mod BSIZE))"

text \<open>
  A file is well-formed: its inode is in the table and on the root device, its blocks are allocated
  data blocks, and no block is used twice.
\<close>

definition file_ok :: "'a fs_state_scheme \<Rightarrow> nat \<Rightarrow> bool" where
  "file_ok s ip \<longleftrightarrow>
     ip < length (itable s) \<and> i_dev (itable s ! ip) = ROOTDEV \<and>
     unat (i_inum (itable s ! ip)) < unat (sb_ninodes (fsb s)) \<and> length (i_addrs (itable s ! ip)) = NDIRECT + 1 \<and>
     (\<forall>b \<in> file_blocks s ip. data_start (fsb s) \<le> unat b \<and> unat b < unat (sb_size (fsb s)) \<and> b \<notin> free_blocks s) \<and>
     (\<forall>m < MAXFILE. \<forall>n < MAXFILE. fblock s ip m = fblock s ip n \<longrightarrow> fblock s ip m \<noteq> 0 \<longrightarrow> m = n) \<and>
     (\<forall>m < MAXFILE. fblock s ip m \<noteq> 0 \<longrightarrow> fblock s ip m \<noteq> indirect s ip)"

lemma file_block_facts:
  assumes "fs_ok s" "file_ok s ip" "b \<in> file_blocks s ip"
  shows "b \<noteq> 0" "b \<notin> free_blocks s" "b \<notin> log_region (klog s)" "b \<notin> bitmap_blocks s"
    "unat n < unat (sb_ninodes (fsb s)) \<Longrightarrow> b \<noteq> IBLOCK n (fsb s)"
proof -
  have l: "fs_layout (fsb s) (log_region (klog s))" using assms(1) by (simp add: fs_ok_def)
  have d: "data_start (fsb s) \<le> unat b" "b \<notin> free_blocks s" using assms(2,3) by (auto simp: file_ok_def)
  show "b \<noteq> 0" using assms(3) by (simp add: file_blocks_def)
  show "b \<notin> free_blocks s" by (rule d(2))
  show "b \<notin> log_region (klog s)" using l d(1) by (fastforce simp: fs_layout_def data_start_def)
  show "b \<notin> bitmap_blocks s" using d(1) BBLOCK_bounds(2)[OF l] by (fastforce simp: bitmap_blocks_def)
  show "b \<noteq> IBLOCK n (fsb s)" if "unat n < unat (sb_ninodes (fsb s))" using IBLOCK_bounds(2)[OF l that] d(1) by auto
qed

lemma fblock_in: "bn < MAXFILE \<Longrightarrow> fblock s ip bn \<noteq> 0 \<Longrightarrow> fblock s ip bn \<in> file_blocks s ip"
  by (auto simp: file_blocks_def)

lemma indirect_in: "indirect s ip \<noteq> 0 \<Longrightarrow> indirect s ip \<in> file_blocks s ip"
  by (auto simp: file_blocks_def)

text \<open>
  \<open>grown bn s s'\<close>: the file has got at most a new block for \<open>bn\<close> and a new indirect block, both taken
  from the free blocks and zero; nothing else has changed but the bitmap and the indirect block.
\<close>

definition grown :: "nat \<Rightarrow> nat \<Rightarrow> 'a fs_state_scheme \<Rightarrow> 'a fs_state_scheme \<Rightarrow> bool" where
  "grown ip bn s s' \<longleftrightarrow>
     fstep s s' \<and> idle_count s' = idle_count s \<and>
     (\<exists>as. itable s' = (itable s)[ip := (itable s ! ip)\<lparr>i_addrs := as\<rparr>] \<and> length as = NDIRECT + 1) \<and>
     free_blocks s' \<subseteq> free_blocks s \<and>
     (\<forall>m < MAXFILE. m \<noteq> bn \<longrightarrow> fblock s' ip m = fblock s ip m) \<and>
     (fblock s' ip bn = fblock s ip bn \<or>
      fblock s ip bn = 0 \<and> fblock s' ip bn \<in> free_blocks s - free_blocks s' \<and> fblock s' ip bn \<noteq> indirect s' ip \<and>
      view s' (fblock s' ip bn) = replicate BSIZE 0) \<and>
     (indirect s' ip = indirect s ip \<or>
      indirect s ip = 0 \<and> indirect s' ip \<in> free_blocks s - free_blocks s') \<and>
     (\<forall>x. x \<notin> free_blocks s \<longrightarrow> x \<notin> bitmap_blocks s \<longrightarrow> (x = indirect s ip \<longrightarrow> x = 0) \<longrightarrow>
        view s' x = view s x)"

lemma grown_blocks:
  assumes g: "grown ip bn s s'" and bn: "bn < MAXFILE"
  shows "file_blocks s' ip \<subseteq> file_blocks s ip \<union> (free_blocks s - free_blocks s')"
proof -
  have "fblock s' ip m = fblock s ip m" if "m < MAXFILE" "m \<noteq> bn" for m
    using g that unfolding grown_def by blast
  moreover have "fblock s' ip bn = fblock s ip bn \<or> fblock s' ip bn \<in> free_blocks s - free_blocks s'"
    "indirect s' ip = indirect s ip \<or> indirect s' ip \<in> free_blocks s - free_blocks s'"
    using g unfolding grown_def by blast+
  ultimately show ?thesis using bn unfolding file_blocks_def by auto
qed

lemma grown_file_ok:
  assumes ok: "fs_ok s" "file_ok s ip" and g: "grown ip bn s s'" and bn: "bn < MAXFILE"
  shows "file_ok s' ip" "fs_ok s'"
proof -
  have sb: "fsb s' = fsb s" and reg: "log_region (klog s') = log_region (klog s)"
    using g fstepD unfolding grown_def by blast+
  have fr: "free_blocks s' \<subseteq> free_blocks s" using g by (simp add: grown_def)
  show "fs_ok s'" by (rule fs_ok_cong[OF ok(1) sb reg fr])
  obtain as where it: "itable s' = (itable s)[ip := (itable s ! ip)\<lparr>i_addrs := as\<rparr>]" "length as = NDIRECT + 1"
    using g unfolding grown_def by blast
  have old: "fblock s' ip m = fblock s ip m" if "m < MAXFILE" "m \<noteq> bn" for m
    using g that unfolding grown_def by blast
  have new: "fblock s' ip bn = fblock s ip bn \<or> fblock s ip bn = 0 \<and>
      fblock s' ip bn \<in> free_blocks s - free_blocks s' \<and> fblock s' ip bn \<noteq> indirect s' ip"
    and ind: "indirect s' ip = indirect s ip \<or> indirect s ip = 0 \<and> indirect s' ip \<in> free_blocks s - free_blocks s'"
    using g unfolding grown_def by blast+
  have nf: "fblock s ip m \<notin> free_blocks s" if "m < MAXFILE" "fblock s ip m \<noteq> 0" for m
    using file_block_facts(2)[OF ok fblock_in[OF that]] .
  have ni: "indirect s ip \<notin> free_blocks s" if "indirect s ip \<noteq> 0"
    using file_block_facts(2)[OF ok indirect_in[OF that]] .
  have blk: "data_start (fsb s) \<le> unat b \<and> unat b < unat (sb_size (fsb s)) \<and> b \<notin> free_blocks s'"
    if "b \<in> file_blocks s' ip" for b
    using subsetD[OF grown_blocks[OF g bn] that] ok fr unfolding fs_ok_def file_ok_def by (fastforce simp: free_blocks_def)
  have inj: "m = n" if "m < MAXFILE" "n < MAXFILE" "fblock s' ip m = fblock s' ip n" "fblock s' ip m \<noteq> 0" for m n
    using that old new nf ok(2) unfolding file_ok_def by (metis Diff_iff)
  have ap: "fblock s' ip m \<noteq> indirect s' ip" if "m < MAXFILE" "fblock s' ip m \<noteq> 0" for m
    using that old[of m] new ind nf[of m] ni ok(2) unfolding file_ok_def by (metis Diff_iff)
  show "file_ok s' ip"
    using ok(2) it blk inj ap unfolding file_ok_def sb by simp
qed

lemma grown_fbyte:
  assumes ok: "fs_ok s" "file_ok s ip" and g: "grown ip bn s s'" and k: "k < MAXFILE * BSIZE"
  shows "fbyte s' ip k = fbyte s ip k"
proof -
  let ?m = "k div BSIZE"
  have m: "?m < MAXFILE" using k by (simp add: less_mult_imp_div_less)
  have view: "view s' (fblock s ip ?m) = view s (fblock s ip ?m)" if "fblock s ip ?m \<noteq> 0"
    using g that file_block_facts(2,4)[OF ok fblock_in[OF m that]] ok(2) m unfolding grown_def file_ok_def by blast
  show ?thesis
  proof (cases "fblock s' ip ?m = fblock s ip ?m")
    case True
    then show ?thesis using view by (simp add: fbyte_def Let_def)
  next
    case False
    then have "fblock s ip ?m = 0" "view s' (fblock s' ip ?m) = replicate BSIZE 0"
      using g m unfolding grown_def by blast+
    then show ?thesis by (simp add: fbyte_def Let_def)
  qed
qed

lemma grown_refl: "file_ok s ip \<Longrightarrow> grown ip bn s s"
  unfolding grown_def by (auto simp: file_ok_def intro!: exI[of _ "i_addrs (itable s ! ip)"])

lemma bitmap_blocks_cong: "fsb s' = fsb s \<Longrightarrow> bitmap_blocks s' = bitmap_blocks s"
  by (simp add: bitmap_blocks_def)

text \<open>Giving the file a free block, directly or as its indirect block.\<close>

definition set_addr :: "nat \<Rightarrow> nat \<Rightarrow> uint \<Rightarrow> 'a fs_state_scheme \<Rightarrow> 'a fs_state_scheme" where
  "set_addr ip n a s = upd_inode ip (\<lambda>x. x\<lparr>i_addrs := (i_addrs x)[n := a]\<rparr>) s"

lemma set_addr_facts:
  assumes "file_ok s ip" "itable s1 = itable s" "n \<le> NDIRECT"
  shows "indirect (set_addr ip n a s1) ip = (if n = NDIRECT then a else indirect s ip)"
    "m < NDIRECT \<Longrightarrow> fblock (set_addr ip n a s1) ip m = (if m = n then a else fblock s ip m)"
    "view (set_addr ip n a s1) = view s1" "free_blocks (set_addr ip n a s1) = free_blocks s1"
    "itable (set_addr ip n a s1) = (itable s)[ip := (itable s ! ip)\<lparr>i_addrs := (i_addrs (itable s ! ip))[n := a]\<rparr>]"
  using assms
  by (auto simp: set_addr_def indirect_def fblock_def file_ok_def free_blocks_def nth_list_update)

lemma allocated_view_old:
  assumes "fs_ok s" "file_ok s ip" "allocated a s s1" "x \<in> file_blocks s ip"
  shows "view s1 x = view s x" "x \<noteq> a"
  using assms file_block_facts(2,4)[OF assms(1,2,4)] by (auto simp: allocated_def)

lemma allocated_keeps:
  assumes "allocated a s s1"
  shows "x \<notin> free_blocks s \<Longrightarrow> x \<notin> bitmap_blocks s \<Longrightarrow> view s1 x = view s x"
    "a \<in> free_blocks s" "free_blocks s1 = free_blocks s - {a}" "view s1 a = replicate BSIZE 0"
  using assms by (auto simp: allocated_def)

lemma direct_grown:
  assumes ok: "fs_ok s" "file_ok s ip" and al: "allocated a s s1" and q: "quiet s s1"
    and bn: "bn < NDIRECT" "fblock s ip bn = 0"
  shows "grown ip bn s (set_addr ip bn a s1)" "fblock (set_addr ip bn a s1) ip bn = a"
proof -
  let ?s = "set_addr ip bn a s1"
  have n: "bn \<le> NDIRECT" using bn(1) by simp
  note f = set_addr_facts[OF ok(2) quietD(2)[OF q] n, where a = a]
  show new: "fblock ?s ip bn = a" using f(2)[OF bn(1)] by simp
  have ind: "indirect ?s ip = indirect s ip" using f(1) bn(1) by simp
  have "fblock ?s ip m = fblock s ip m" if "m \<noteq> bn" for m
  proof (cases "m < NDIRECT")
    case False
    then show ?thesis using allocated_view_old(1)[OF ok al indirect_in] ind f(3) by (auto simp: fblock_def)
  qed (use f(2) that in simp)
  moreover have "a \<noteq> indirect s ip"
    using allocated_view_old(2)[OF ok al indirect_in] al free_data(3)[OF ok(1)] by (auto simp: allocated_def)
  moreover have "fstep s ?s" using fstep_trans[OF quietD(1)[OF q]] by (simp add: set_addr_def)
  moreover have "idle_count ?s = idle_count s" using quietD(3)[OF q] by (simp add: set_addr_def)
  ultimately show "grown ip bn s ?s"
    using allocated_keeps[OF al] bn new ind f(3-5) ok(2) unfolding grown_def by (auto simp: file_ok_def)
qed

lemma indirect_grown:
  assumes ok: "fs_ok s" "file_ok s ip" and al: "allocated a s s1" and q: "quiet s s1"
    and ind0: "indirect s ip = 0" and bn: "bn < MAXFILE"
  shows "grown ip bn s (set_addr ip NDIRECT a s1)" "indirect (set_addr ip NDIRECT a s1) ip = a"
proof -
  let ?s = "set_addr ip NDIRECT a s1"
  note f = set_addr_facts[OF ok(2) quietD(2)[OF q] order_refl, where a = a]
  show ind: "indirect ?s ip = a" using f(1) by simp
  have "fblock ?s ip m = fblock s ip m" if "m < MAXFILE" for m
  proof (cases "m < NDIRECT")
    case False
    have "get32 (replicate BSIZE 0) (4 * (m - NDIRECT)) = 0" by (simp add: get32_def)
    then show ?thesis using False ind ind0 f(3) al by (simp add: fblock_def allocated_def)
  qed (use f(2) in simp)
  moreover have "fstep s ?s" using fstep_trans[OF quietD(1)[OF q]] by (simp add: set_addr_def)
  moreover have "idle_count ?s = idle_count s" using quietD(3)[OF q] by (simp add: set_addr_def)
  ultimately show "grown ip bn s ?s"
    using allocated_keeps[OF al] bn ind ind0 f(3-5) ok(2) unfolding grown_def by (auto simp: file_ok_def)
qed

lemma grown_trans:
  assumes ok: "fs_ok s" and g: "grown ip bn s t" and h: "grown ip bn t u"
  shows "grown ip bn s u"
proof -
  have st: "fstep s t" "fstep t u" using g h unfolding grown_def by blast+
  have bm: "bitmap_blocks t = bitmap_blocks s" by (rule bitmap_blocks_cong[OF fstepD(1)[OF st(1)]])
  have fr: "free_blocks t \<subseteq> free_blocks s" "free_blocks u \<subseteq> free_blocks t" using g h unfolding grown_def by blast+
  have nz: "x \<noteq> 0" "x \<notin> bitmap_blocks s" if "x \<in> free_blocks s" for x
    using free_data(3,4)[OF ok that] by (auto simp: bitmap_blocks_def)
  obtain as where t: "itable t = (itable s)[ip := (itable s ! ip)\<lparr>i_addrs := as\<rparr>]" using g unfolding grown_def by blast
  obtain as' where u: "itable u = (itable t)[ip := (itable t ! ip)\<lparr>i_addrs := as'\<rparr>]" "length as' = NDIRECT + 1"
    using h unfolding grown_def by blast
  have it: "itable u = (itable s)[ip := (itable s ! ip)\<lparr>i_addrs := as'\<rparr>]"
    unfolding u(1) t by (cases "ip < length (itable s)") (simp_all add: list_update_beyond)
  have ind: "indirect t ip = indirect s ip \<or> indirect s ip = 0 \<and> indirect t ip \<in> free_blocks s - free_blocks t"
    "indirect u ip = indirect t ip \<or> indirect t ip = 0 \<and> indirect u ip \<in> free_blocks t - free_blocks u"
    using g h unfolding grown_def by blast+
  have v1: "view t x = view s x" if "x \<notin> free_blocks s" "x \<notin> bitmap_blocks s" "x = indirect s ip \<longrightarrow> x = 0" for x
    using g that unfolding grown_def by blast
  have v2: "view u x = view t x" if "x \<notin> free_blocks t" "x \<notin> bitmap_blocks s" "x = indirect t ip \<longrightarrow> x = 0" for x
    using h that unfolding grown_def bm by blast
  have v: "view u x = view s x" if "x \<notin> free_blocks s" "x \<notin> bitmap_blocks s" "x = indirect s ip \<longrightarrow> x = 0" for x
  proof -
    have "x = indirect t ip \<longrightarrow> x = 0" using ind(1) that(1,3) by auto
    then show ?thesis using v1[OF that] v2[of x] that(1,2) fr(1) by auto
  qed
  have b: "fblock t ip bn = fblock s ip bn \<or> fblock s ip bn = 0 \<and> fblock t ip bn \<in> free_blocks s - free_blocks t \<and>
      fblock t ip bn \<noteq> indirect t ip \<and> view t (fblock t ip bn) = replicate BSIZE 0"
    "fblock u ip bn = fblock t ip bn \<or> fblock t ip bn = 0 \<and> fblock u ip bn \<in> free_blocks t - free_blocks u \<and>
      fblock u ip bn \<noteq> indirect u ip \<and> view u (fblock u ip bn) = replicate BSIZE 0"
    using g h unfolding grown_def by blast+
  have new: "fblock u ip bn = fblock s ip bn \<or> fblock s ip bn = 0 \<and> fblock u ip bn \<in> free_blocks s - free_blocks u \<and>
      fblock u ip bn \<noteq> indirect u ip \<and> view u (fblock u ip bn) = replicate BSIZE 0"
  proof (cases "fblock t ip bn = fblock s ip bn")
    case True
    then show ?thesis using b(2) fr by auto
  next
    case False
    then have t: "fblock s ip bn = 0" "fblock t ip bn \<in> free_blocks s" "fblock t ip bn \<notin> free_blocks t"
      "fblock t ip bn \<noteq> indirect t ip" "view t (fblock t ip bn) = replicate BSIZE 0" using b(1) by auto
    have "fblock u ip bn = fblock t ip bn" using b(2) nz(1)[OF t(2)] by auto
    moreover have "fblock t ip bn \<noteq> indirect u ip" using ind(2) t(3,4) by auto
    moreover have "view u (fblock t ip bn) = view t (fblock t ip bn)" using v2[OF t(3) nz(2)[OF t(2)]] t(4) by blast
    ultimately show ?thesis using t fr(2) by auto
  qed
  have new_ind: "indirect u ip = indirect s ip \<or> indirect s ip = 0 \<and> indirect u ip \<in> free_blocks s - free_blocks u"
  proof (cases "indirect t ip = indirect s ip")
    case True
    then show ?thesis using ind(2) fr by auto
  next
    case False
    then have "indirect s ip = 0" "indirect t ip \<in> free_blocks s" "indirect t ip \<notin> free_blocks t" using ind(1) by auto
    then show ?thesis using ind(2) nz(1) fr(2) by auto
  qed
  have rest: "idle_count u = idle_count s" "\<forall>m < MAXFILE. m \<noteq> bn \<longrightarrow> fblock u ip m = fblock s ip m"
    using g h unfolding grown_def by simp_all
  show ?thesis unfolding grown_def
    by (intro conjI exI[of _ as'] fstep_trans[OF st] rest it u(2) order_trans[OF fr(2,1)] new new_ind)
       (use v in blast)
qed

lemma fs_update_held:
  assumes T: "txn H (Suc k) s" and h: "handle s b bn" and reg: "bn \<notin> log_region (klog s)" and d: "length d = BSIZE"
  shows "\<exists>s1 s2. log_write b (set_bdata b d s) = Ret s1 \<and> brelse b s1 = Ret s2 \<and> txn (H - {bn}) k s2 \<and>
     view s2 = (view s)(bn := d) \<and> fstep_but {bn} s s2 \<and> itable s2 = itable s \<and> idle_count s2 = idle_count s"
proof -
  let ?t = "set_bdata b d s"
  have p: "txn H (Suc k) ?t" "view ?t = (view s)(bn := d)" "txn_step {} s ?t" using wal.put_law[OF T h d] by auto
  have "handle ?t b bn" using txn_step_handle[OF p(3) h] by simp
  from wal.lw_law[OF p(1) this] reg txn_step_region[OF p(3)] obtain s1 where s1: "log_write b ?t = Ret s1"
    "txn H (if bn \<in> set (logged (klog ?t)) then Suc k else k) s1" "view s1 = view ?t" "txn_step {} ?t s1"
    "set (logged (klog s1)) = insert bn (set (logged (klog ?t)))" by metis
  have T1: "txn H k s1" using s1(2) wal.T_less[of H "Suc k" s1 k] by (auto split: if_splits)
  have "handle s1 b bn" using txn_step_handle[OF s1(4) \<open>handle ?t b bn\<close>] by simp
  from wal.rel_law[OF T1 this] s1(5) obtain s2 where s2: "brelse b s1 = Ret s2" "txn (H - {bn}) k s2"
    "view s2 = view s1" "txn_step {bn} s1 s2" by auto
  have "txn_step {bn} s s2" using txn_step_trans[OF txn_step_trans[OF p(3) s1(4)] s2(4)] by simp
  then show ?thesis using s1 s2 p(2) txn_step_more by metis
qed

section \<open>bmap\<close>

text \<open>The second half of \<open>bmap\<close>: the entry of \<open>bn\<close> in an indirect block that is there.\<close>

definition bmap_entry :: "nat \<Rightarrow> nat \<Rightarrow> uint \<Rightarrow> 'a fs_state_scheme \<Rightarrow> (uint \<times> 'a fs_state_scheme) outcome" where
  "bmap_entry ip bn ind s =
     bindo (bread ROOTDEV ind s) (\<lambda>(bp, s).
       let addr = get32 (bdata bp s) (4 * (bn - NDIRECT))
       in bindo (if addr = 0
                 then bindo (balloc ROOTDEV s) (\<lambda>(addr, s).
                   if addr = 0 then Ret (addr, s)
                   else bindo (log_write bp (set_bdata bp (put32 (bdata bp s) (4 * (bn - NDIRECT)) addr) s)) (\<lambda>s.
                     Ret (addr, s)))
                 else Ret (addr, s)) (\<lambda>(addr, s).
          bindo (brelse bp s) (\<lambda>s. Ret (addr, s))))"

lemma entry_grown:
  assumes ok: "fs_ok s" "file_ok s ip" and bn: "NDIRECT \<le> bn" "bn < MAXFILE" "fblock s ip bn = 0"
    and ind: "ind = indirect s ip" "ind \<noteq> 0" and q: "quiet s s1" "view s1 = view s"
    and al: "allocated a s1 s2" "quiet s1 s2"
    and r: "fstep s s3" "itable s3 = itable s2" "idle_count s3 = idle_count s2"
      "view s3 = (view s2)(ind := put32 (view s2 ind) (4 * (bn - NDIRECT)) a)"
    and len: "length (view s ind) = BSIZE"
  shows "grown ip bn s s3" "fblock s3 ip bn = a" "free_blocks s3 = free_blocks s - {a}"
proof -
  have f: "free_blocks s1 = free_blocks s" "bitmap_blocks s1 = bitmap_blocks s"
    using free_blocks_cong[OF q(2)] bitmap_blocks_cong quietD(4)[OF q(1)] by blast+
  note al' = allocated_keeps[OF al(1), unfolded f q(2)]
  note ib = file_block_facts[OF ok indirect_in, folded ind(1), OF ind(2)]
  have vi: "view s2 ind = view s ind" by (rule al'(1)[OF ib(2,4)])
  have it: "itable s3 = itable s" using r(2) quietD(2)[OF al(2)] quietD(2)[OF q(1)] by simp
  have i3: "indirect s3 ip = ind" by (simp add: indirect_def it ind(1))
  have ai: "a \<noteq> ind" using al'(2) ib(2) by auto
  have b4: "4 * (bn - NDIRECT) + 4 \<le> length (view s2 ind)" using bn(2) len vi by simp
  show new: "fblock s3 ip bn = a"
    using bn(1) b4 ind(2) by (simp add: fblock_def i3 r(4) get32_put32_same)
  have old: "fblock s3 ip m = fblock s ip m" if m: "m < MAXFILE" "m \<noteq> bn" for m
  proof (cases "m < NDIRECT")
    case False
    have "4 * (m - NDIRECT) + 4 \<le> length (view s2 ind)" using m(1) len vi by simp
    moreover have "4 * (m - NDIRECT) + 4 \<le> 4 * (bn - NDIRECT) \<or> 4 * (bn - NDIRECT) + 4 \<le> 4 * (m - NDIRECT)"
      using m(2) bn(1) False by linarith
    ultimately show ?thesis
      using False b4 ind vi by (simp add: fblock_def i3 r(4) get32_put32_other)
  qed (simp add: fblock_def it)
  have sb: "fsb s3 = fsb s2" using fstepD(1)[OF r(1)] quietD(4)[OF al(2)] quietD(4)[OF q(1)] by simp
  have "ind \<notin> bitmap_blocks s2" using ib(4) bitmap_blocks_cong[OF quietD(4)[OF al(2)]] f(2) by simp
  then have "view s3 (BBLOCK b (fsb s2)) = view s2 (BBLOCK b (fsb s2))" if "unat b < unat (sb_size (fsb s2))" for b
    using that by (auto simp: r(4) bitmap_blocks_def)
  then have "free_blocks s3 = free_blocks s2" by (auto simp: free_blocks_def sb)
  then show fr: "free_blocks s3 = free_blocks s - {a}" using al'(3) by simp
  have idle: "idle_count s3 = idle_count s" using r(3) quietD(3)[OF al(2)] quietD(3)[OF q(1)] by simp
  have as: "itable s3 = (itable s)[ip := (itable s ! ip)\<lparr>i_addrs := i_addrs (itable s ! ip)\<rparr>]"
    "length (i_addrs (itable s ! ip)) = NDIRECT + 1" using it ok(2) by (simp_all add: file_ok_def)
  have "view s3 x = view s x" if "x \<notin> free_blocks s" "x \<notin> bitmap_blocks s" "x = indirect s ip \<longrightarrow> x = 0" for x
    using al'(1)[OF that(1,2)] that(3) ind by (auto simp: r(4))
  moreover have "view s3 a = replicate BSIZE 0" using al'(4) ai by (simp add: r(4))
  ultimately show "grown ip bn s s3"
    unfolding grown_def using r(1) idle as fr old new bn(3) al'(2) ai i3 ind(1) by blast
qed

lemma card_diff1: "finite A \<Longrightarrow> card A \<le> card (A - {a}) + 1"
  using card_Suc_Diff1[of A a] by (cases "a \<in> A") auto

lemma finite_free [simp]: "finite (free_blocks s)"
  by (rule finite_subset[OF subset_UNIV]) simp

lemma bmap_entry_maps:
  assumes T: "txn H (k + 3) s" and ok: "fs_ok s" "file_ok s ip" and bn: "NDIRECT \<le> bn" "bn < MAXFILE"
    and ind: "ind = indirect s ip" "ind \<noteq> 0" and free: "free_blocks s \<noteq> {}"
    and H: "H \<inter> (free_blocks s \<union> bitmap_blocks s \<union> file_blocks s ip) = {}" "finite H" "card H \<le> k"
  shows "\<exists>a s'. bmap_entry ip bn ind s = Ret (a, s') \<and> a \<noteq> 0 \<and> a = fblock s' ip bn \<and> txn H k s' \<and> grown ip bn s s' \<and>
     card (free_blocks s) \<le> card (free_blocks s') + 1"
proof -
  have iH: "ind \<notin> H" using H(1) indirect_in ind by auto
  note ib = file_block_facts[OF ok indirect_in, folded ind(1), OF ind(2)]
  have e: "fblock s ip bn = get32 (view s ind) (4 * (bn - NDIRECT))" using bn ind by (simp add: fblock_def)
  have c: "card H \<le> k + 3" using H(3) by simp
  show ?thesis
  proof (cases "fblock s ip bn = 0")
    case False
    from fs_peek[OF T iH c] obtain b s1 s2 where r: "bread ROOTDEV ind s = Ret (b, s1)" "bdata b s1 = view s ind"
      "brelse b s1 = Ret s2" "txn H (k + 3) s2" "view s2 = view s" "quiet s s2" by blast
    have it: "itable s2 = itable s" by (rule quietD(2)[OF r(6)])
    have f: "fblock s2 ip m = fblock s ip m" "indirect s2 ip = indirect s ip" for m
      by (simp_all add: fblock_def indirect_def it r(5))
    have fr: "free_blocks s2 = free_blocks s" by (rule free_blocks_cong[OF r(5) quietD(4)[OF r(6)]])
    have "bmap_entry ip bn ind s = Ret (fblock s ip bn, s2)"
      using r(1-3) e False by (simp add: bmap_entry_def)
    moreover have "grown ip bn s s2"
      unfolding grown_def using quietD(1,3)[OF r(6)] f fr r(5) it ok(2)
      by (auto simp: file_ok_def intro!: exI[of _ "i_addrs (itable s ! ip)"])
    ultimately show ?thesis using False f(1) fr wal.T_less[OF r(4), of k] by auto
  next
    case True
    from wal.rd_law[OF T iH c] obtain b s1 where r: "bread ROOTDEV ind s = Ret (b, s1)" "txn (insert ind H) (k + 3) s1"
      "handle s1 b ind" "view s1 = view s" "txn_step {} s s1" by blast
    note q = txn_quiet[OF r(5)]
    have f: "free_blocks s1 = free_blocks s" "bitmap_blocks s1 = bitmap_blocks s"
      using free_blocks_cong[OF r(4)] bitmap_blocks_cong quietD(4)[OF q] by blast+
    have "fs_ok s1" by (rule fs_ok_cong[OF ok(1)]) (simp_all add: quietD[OF q] f)
    moreover have "insert ind H \<inter> (free_blocks s1 \<union> bitmap_blocks s1) = {}" using H(1) ib(2,4) f by auto
    moreover have "card (insert ind H) \<le> Suc (k + 1)" using H(2,3) iH by simp
    moreover have "txn (insert ind H) (Suc (Suc (k + 1))) s1" using r(2) by (simp add: eval_nat_numeral)
    ultimately obtain a s2 where a: "balloc ROOTDEV s1 = Ret (a, s2)" "txn (insert ind H) (k + 1) s2"
      "allocated a s1 s2" "quiet s1 s2" using balloc_found[of "insert ind H" "k + 1" s1] free f(1) by metis
    have a0: "a \<noteq> 0" using free_data(3)[OF ok(1), of a] allocated_keeps(2)[OF a(3)] f(1) by simp
    have hd: "handle s2 b ind" by (rule quietD(7)[OF a(4) r(3)])
    have T2: "txn (insert ind H) (Suc k) s2" using a(2) by simp
    have len: "length (view s2 ind) = BSIZE" by (rule wal.T_len[OF T2])
    let ?d = "put32 (view s2 ind) (4 * (bn - NDIRECT)) a"
    have "length ?d = BSIZE" using len bn(2) by simp
    moreover have "ind \<notin> log_region (klog s2)" using ib(3) quietD(5)[OF q] quietD(5)[OF a(4)] by simp
    ultimately obtain s3 s4 where w: "log_write b (set_bdata b ?d s2) = Ret s3" "brelse b s3 = Ret s4"
      "txn (insert ind H - {ind}) k s4" "view s4 = (view s2)(ind := ?d)" "fstep_but {ind} s2 s4" "itable s4 = itable s2"
      "idle_count s4 = idle_count s2"
      using fs_update_held[OF T2 hd] by metis
    have st: "fstep s s4"
      using fstep_but_trans[OF fstep_trans[OF quietD(1)[OF q] quietD(1)[OF a(4)]] w(5)] iH
      by (intro fstep_free[OF T]) auto
    have lens: "length (view s ind) = BSIZE" by (rule wal.T_len[OF T])
    note g = entry_grown[OF ok bn True ind q r(4) a(3,4) st w(6,7,4) lens]
    have "bmap_entry ip bn ind s = Ret (a, s4)"
      using r(1) a(1) w(1,2) a0 e True wal.T_hnd[OF r(2,3)] wal.T_hnd[OF T2 hd] r(4)
      by (simp add: bmap_entry_def)
    moreover have "card (free_blocks s) \<le> card (free_blocks s4) + 1"
      using card_diff1[OF finite_free, of s a] by (simp add: g(3))
    ultimately show ?thesis using a0 g w(3) iH by auto
  qed
qed

text \<open>
  \<open>bmap\<close> in a transaction with five log blocks to spare and two free blocks: it returns the block of
  the file for \<open>bn\<close>, giving it one when it had none.
\<close>

lemma bmap_maps:
  assumes T: "txn H (k + 5) s" and ok: "fs_ok s" "file_ok s ip" and bn: "bn < MAXFILE"
    and free: "2 \<le> card (free_blocks s)"
    and H: "H \<inter> (free_blocks s \<union> bitmap_blocks s \<union> file_blocks s ip) = {}" "finite H" "card H \<le> k"
  shows "\<exists>a s'. bmap ip bn s = Ret (a, s') \<and> a \<noteq> 0 \<and> a = fblock s' ip bn \<and> txn H k s' \<and> grown ip bn s s' \<and>
     card (free_blocks s) \<le> card (free_blocks s') + 2"
proof -
  have dev: "i_dev (itable s ! ip) = ROOTDEV" using ok(2) by (simp add: file_ok_def)
  have T2: "txn H (Suc (Suc (k + 3))) s" using T by (simp add: eval_nat_numeral)
  have H2: "H \<inter> (free_blocks s \<union> bitmap_blocks s) = {}" "card H \<le> Suc (k + 3)" using H by auto
  have ne: "free_blocks s \<noteq> {}" using free by auto
  from balloc_found[OF T2 ok(1) H2 ne] obtain a s1 where
    a: "balloc ROOTDEV s = Ret (a, s1)" "txn H (k + 3) s1" "allocated a s s1" "quiet s s1" by blast
  have a0: "a \<noteq> 0" using free_data(3)[OF ok(1) allocated_keeps(2)[OF a(3)]] .
  have cf: "card (free_blocks s) \<le> card (free_blocks s1) + 1"
    using card_diff1[OF finite_free, of s a] by (simp add: allocated_keeps(3)[OF a(3)])
  show ?thesis
  proof (cases "bn < NDIRECT")
    case True
    show ?thesis
    proof (cases "fblock s ip bn = 0")
      case False
      then have "bmap ip bn s = Ret (fblock s ip bn, s)" using True by (simp add: bmap_def fblock_def Let_def)
      then show ?thesis using False grown_refl[OF ok(2)] wal.T_less[OF T, of k] by auto
    next
      case z: True
      let ?s = "set_addr ip bn a s1"
      have "bmap ip bn s = Ret (a, ?s)"
        using True z a(1) a0 dev by (simp add: bmap_def fblock_def Let_def set_addr_def)
      moreover have "txn H k ?s" using wal.T_less[OF a(2), of k] by (simp add: set_addr_def)
      moreover have "free_blocks ?s = free_blocks s1" by (simp add: set_addr_def free_blocks_def)
      ultimately show ?thesis using direct_grown[OF ok a(3,4) True z] a0 cf by auto
    qed
  next
    case False
    have b: "bn - NDIRECT < NINDIRECT" using bn by simp
    have unf: "bmap ip bn s = bindo (if indirect s ip = 0
        then bindo (balloc ROOTDEV s) (\<lambda>(a, s). Ret (a, if a = 0 then s else set_addr ip NDIRECT a s))
        else Ret (indirect s ip, s)) (\<lambda>(ind, s). if ind = 0 then Ret (0, s) else bmap_entry ip bn ind s)"
      unfolding bmap_def Let_def if_not_P[OF False] if_P[OF b] dev indirect_def set_addr_def bmap_entry_def by (rule refl)
    show ?thesis
    proof (cases "indirect s ip = 0")
      case True
      let ?s = "set_addr ip NDIRECT a s1"
      note g = indirect_grown[OF ok a(3,4) True bn]
      note ok' = grown_file_ok[OF ok g(1) bn]
      have fr: "free_blocks ?s = free_blocks s - {a}" using allocated_keeps(3)[OF a(3)] by (simp add: set_addr_def free_blocks_def)
      have "1 \<le> card (free_blocks ?s)" using free cf unfolding fr allocated_keeps(3)[OF a(3)] by linarith
      then have "free_blocks ?s \<noteq> {}" by auto
      moreover have "txn H (k + 3) ?s" using a(2) by (simp add: set_addr_def)
      moreover have "H \<inter> (free_blocks ?s \<union> bitmap_blocks ?s \<union> file_blocks ?s ip) = {}"
        using grown_blocks[OF g(1) bn] H(1) fr bitmap_blocks_cong[OF fstepD(1), of s ?s] g(1)
        unfolding grown_def by blast
      ultimately obtain c s' where c: "bmap_entry ip bn a ?s = Ret (c, s')" "c \<noteq> 0" "c = fblock s' ip bn" "txn H k s'"
        "grown ip bn ?s s'" "card (free_blocks ?s) \<le> card (free_blocks s') + 1"
        using bmap_entry_maps[OF _ ok'(2,1) _ bn g(2)[symmetric] a0] False H(2,3) by (metis not_less)
      have "bmap ip bn s = Ret (c, s')" using unf True a(1) a0 c(1) by simp
      then show ?thesis
        using c grown_trans[OF ok(1) g(1) c(5)] cf fr allocated_keeps(3)[OF a(3)] by auto
    next
      case False
      have "txn H (k + 3) s" by (rule wal.T_less[OF T]) simp
      from bmap_entry_maps[OF this ok _ bn refl False ne H] \<open>\<not> bn < NDIRECT\<close> show ?thesis
        using unf False by force
    qed
  qed
qed

end
