(* ===== verification/Fs_Data.thy ===== *)
theory Fs_Data
  imports Fs_Inode
begin

text \<open>
  The contents of a file as a byte list. \<open>readi\<close> delivers a section of it to the caller's buffer, inside or
  outside a transaction, and leaves the file system as it is.
\<close>

section \<open>The caller's buffer\<close>

lemma walk_loop_cong:
  "mem s' = mem s \<Longrightarrow> walk_loop n pt va False s = (fst (walk_loop n pt va False s), s) \<and>
    walk_loop n pt va False s' = (fst (walk_loop n pt va False s), s')"
  by (induction n arbitrary: pt) (auto simp: Let_def)

lemma walkaddr_cong: "mem s' = mem s \<Longrightarrow> walkaddr pt va s' = walkaddr pt va s"
  using walk_loop_cong[of s' s 2 pt va] by (auto simp: walkaddr_def walk_def split: prod.splits)

lemma copyin_cong: "mem s' = mem s \<Longrightarrow> copyin pt va n s' = copyin pt va n s"
proof (induction n arbitrary: va rule: less_induct)
  case (less n)
  show ?case
  proof (cases "n = 0")
    case False
    then have "in_page va n > 0" using in_page_bounds by simp
    then have ih: "copyin pt (PGROUNDDOWN va + PGSIZE) (n - in_page va n) s' =
        copyin pt (PGROUNDDOWN va + PGSIZE) (n - in_page va n) s"
      using less False by simp
    show ?thesis
      unfolding copyin.simps[of pt va n s'] copyin.simps[of pt va n s] Let_def walkaddr_cong[OF less.prems] less.prems ih
      by (rule refl)
  qed (simp add: copyin.simps)
qed

text \<open>\<open>readable src data s\<close>: the caller's buffer holds \<open>data\<close>, and every part of it can be copied in.\<close>

definition readable :: "place \<Rightarrow> uchar list \<Rightarrow> 'a fs_state_scheme \<Rightarrow> bool" where
  "readable src data s \<longleftrightarrow>
     (\<forall>i m. i + m \<le> length data \<longrightarrow> either_copyin (advance i src) m s = Ret (0, take m (drop i data)))"

lemma either_copyin_fstep:
  assumes "fstep_but X s s'" "running s"
  shows "either_copyin src m s' = either_copyin src m s"
proof -
  obtain i where i: "cur s = Some i" "i < length (procs s)" using assms(2) by (auto simp: running_def)
  note p = fstep_proc[OF assms(1) i]
  have "mem s' = mem s" using assms(1) by (simp add: fstep_def)
  then show ?thesis using copyin_cong[of s' s] i p by (cases src) (simp_all add: either_copyin_def myproc_def)
qed

lemma readable_fstep: "readable src data s \<Longrightarrow> fstep_but X s s' \<Longrightarrow> running s \<Longrightarrow> readable src data s'"
  by (simp add: readable_def either_copyin_fstep)

lemma advance_advance: "advance i (advance m src) = advance (m + i) src"
  by (cases src) (simp_all add: add.assoc add.commute)

lemma readable_advance:
  assumes "readable src data s" "m \<le> length data"
  shows "readable (advance m src) (drop m data) s"
  unfolding readable_def
proof (intro allI impI)
  fix i j assume "i + j \<le> length (drop m data)"
  then have "m + i + j \<le> length data" using assms(2) by simp
  then show "either_copyin (advance i (advance m src)) j s = Ret (0, take j (drop i (drop m data)))"
    using assms(1) unfolding readable_def by (simp add: advance_advance add.commute)
qed

lemma readable_Local: "readable (Local 0 data) data s"
  by (auto simp: readable_def either_copyin_def)

section \<open>Reading\<close>

text \<open>What steps of the cache leave alone.\<close>

lemma bio_frame_fs:
  fixes s s' :: "'a fs_state_scheme"
  assumes "bio_frame s s'"
  shows "fsb s' = fsb s" "itable s' = itable s" "klog s' = klog s"
proof -
  have "bio_state.more s' = bio_state.more s" using assms by (simp add: bio_frame_def)
  then show "fsb s' = fsb s" "itable s' = itable s" "klog s' = klog s"
    by (cases s; cases s'; simp add: bio_state.defs log_state.defs dev_state.defs fs_state.defs)+
qed

lemma bio_frame_ident:
  assumes "bio_frame s s'"
  shows "map p_ident (procs s') = map p_ident (procs s)"
proof -
  have "map p_ident (map (p_state_update (\<lambda>_. RUNNING)) (procs s')) = map p_ident (map (p_state_update (\<lambda>_. RUNNING)) (procs s))"
    using assms by (simp add: bio_frame_def)
  then show ?thesis by (simp add: comp_def)
qed

text \<open>The same caller, with the same page table, and the same pool of pages.\<close>

definition same_caller :: "'a proc_state_scheme \<Rightarrow> 'a proc_state_scheme \<Rightarrow> bool" where
  "same_caller s s' \<longleftrightarrow> freelist s' = freelist s \<and> kend s' = kend s \<and> cur s' = cur s \<and>
     map p_ident (procs s') = map p_ident (procs s)"

lemma same_caller_user:
  assumes "same_caller s s'" "running s"
  shows "user_pt s' = user_pt s"
proof -
  obtain i where i: "cur s = Some i" "i < length (procs s)" using assms(2) by (auto simp: running_def)
  have m: "map p_ident (procs s') = map p_ident (procs s)" "cur s' = cur s" using assms(1) by (simp_all add: same_caller_def)
  then have "i < length (procs s')" using i(2) by (metis length_map)
  then have "p_ident (procs s' ! i) = p_ident (procs s ! i)" using m(1) i(2) by (metis nth_map)
  then show ?thesis using i(1) m(2) by (simp add: user_pt_def myproc_def p_ident_def)
qed

lemma same_caller_dst:
  assumes "same_caller s s'" "running s" "mem s' = mem s"
  shows "dst_ok F dst n s' = dst_ok F dst n s" "faults dst n s' = faults dst n s"
  using dst_ok_cong[OF assms(3) _ _ _ same_caller_user[OF assms(1,2)]] assms(1) by (simp_all add: same_caller_def)

lemma bio_frame_caller: "bio_frame s s' \<Longrightarrow> same_caller s s'"
  using bio_frame_ident[of s s'] by (simp add: same_caller_def bio_frame_def)

text \<open>\<open>same_fs s s'\<close>: the file system looks the same; only the cache and the memory may differ.\<close>

definition same_fs :: "'a fs_state_scheme \<Rightarrow> 'a fs_state_scheme \<Rightarrow> bool" where
  "same_fs s s' \<longleftrightarrow> cache_inv s' \<and> cabs s' = cabs s \<and> fsb s' = fsb s \<and> itable s' = itable s \<and> klog s' = klog s \<and>
     same_caller s s'"

lemma same_fs_trans: "same_fs s t \<Longrightarrow> same_fs t u \<Longrightarrow> same_fs s u"
  by (simp add: same_fs_def same_caller_def)

lemma same_fs_refl: "cache_inv s \<Longrightarrow> same_fs s s"
  by (simp add: same_fs_def same_caller_def)

lemma cache_running: "cache_inv s \<Longrightarrow> running s"
  by (simp add: cache_inv_def)

lemma same_fs_view: "same_fs s s' \<Longrightarrow> view s' = view s"
  by (auto simp: same_fs_def dest: arg_cong[of _ _ cv_data])

lemma same_fs_file:
  assumes "same_fs s s'"
  shows "indirect s' ip = indirect s ip" "fblock s' ip = fblock s ip" "file_blocks s' ip = file_blocks s ip"
    "fbyte s' ip = fbyte s ip"
  using assms same_fs_view[OF assms]
  by (simp_all add: same_fs_def indirect_def fblock_def file_blocks_def fbyte_def Let_def fun_eq_iff)

text \<open>Looking at a block and releasing it, with a copy to the caller's memory in between.\<close>

lemma same_peek:
  assumes inv: "cache_inv s" and av: "avail (cabs s) a"
  shows "\<exists>b s1. bread ROOTDEV a s = Ret (b, s1) \<and> bdata b s1 = view s a \<and> mem s1 = mem s \<and> same_caller s s1 \<and>
     (\<forall>m. \<exists>s2. brelse b (s1\<lparr>mem := m\<rparr>) = Ret s2 \<and> same_fs s s2 \<and> mem s2 = m)"
proof -
  from bcache.rd_law[OF inv av] obtain b s1 where r: "bread ROOTDEV a s = Ret (b, s1)" "bstep {} s s1"
    "handle s1 b a" "cabs s1 = cv_read a (cabs s)" by blast
  have i1: "cache_inv s1" and bf: "bio_frame s s1" using r(2) by (simp_all add: bstep_def)
  have ul: "\<not> cv_locked (cabs s) a" using av by (simp add: avail_def)
  have cl: "cv_refs (cabs s1) a = 1 \<longrightarrow> cv_data (cabs s1) a = cv_disk (cabs s1) a"
    using bcache.clean[OF inv] by (simp add: r(4) cv_read_def)
  have fr: "fsb s1 = fsb s" "itable s1 = itable s" "klog s1 = klog s" using bio_frame_fs[OF bf] by simp_all
  have d: "bdata b s1 = view s a" using bcache.hnd_dat[OF i1 r(3)] by (simp add: r(4) cv_read_def)
  have "\<exists>s2. brelse b (s1\<lparr>mem := m\<rparr>) = Ret s2 \<and> same_fs s s2 \<and> mem s2 = m" for m
  proof -
    let ?t = "s1\<lparr>mem := m\<rparr>"
    note c = cache_same[of ?t s1]
    have t: "cache_inv ?t" "cabs ?t = cabs s1" "handle ?t b a" using c i1 r(3) by simp_all
    from bcache.rel_law[OF t(1,3)] cl t(2) obtain s2 where s2: "brelse b ?t = Ret s2" "bstep {a} ?t s2"
      "cabs s2 = cv_release a (cabs ?t)" by auto
    have bt: "bio_frame ?t s2" and i2: "cache_inv s2" using s2(2) by (simp_all add: bstep_def)
    have "cabs s2 = cabs s" using s2(3) t(2) r(4) cv_release_read[OF ul] by simp
    moreover have "same_caller s s2" using bio_frame_caller[OF bf] bio_frame_caller[OF bt] by (simp add: same_caller_def)
    moreover have "mem s2 = m" using bt by (simp add: bio_frame_def)
    ultimately show ?thesis using s2(1) i2 fr bio_frame_fs[OF bt] by (simp add: same_fs_def)
  qed
  moreover have "mem s1 = mem s" using bf by (simp add: bio_frame_def)
  ultimately show ?thesis using r(1) d bio_frame_caller[OF bf] by blast
qed

lemma bmap_present:
  assumes inv: "cache_inv s" and dev: "i_dev (itable s ! ip) = ROOTDEV" and bn: "bn < MAXFILE" "fblock s ip bn \<noteq> 0"
    and av: "\<forall>b \<in> file_blocks s ip. avail (cabs s) b"
  shows "\<exists>s'. bmap ip bn s = Ret (fblock s ip bn, s') \<and> same_fs s s' \<and> mem s' = mem s"
proof (cases "bn < NDIRECT")
  case True
  then have "bmap ip bn s = Ret (fblock s ip bn, s)" using bn by (simp add: bmap_def fblock_def Let_def)
  then show ?thesis using same_fs_refl[OF inv] by auto
next
  case False
  have ind: "indirect s ip \<noteq> 0" using bn(2) False by (auto simp: fblock_def)
  from same_peek[OF inv av[rule_format, OF indirect_in[OF ind]]] obtain b s1 where
    r: "bread ROOTDEV (indirect s ip) s = Ret (b, s1)" "bdata b s1 = view s (indirect s ip)" "mem s1 = mem s"
      "\<And>m. \<exists>s2. brelse b (s1\<lparr>mem := m\<rparr>) = Ret s2 \<and> same_fs s s2 \<and> mem s2 = m" by blast
  have "s1\<lparr>mem := mem s1\<rparr> = s1" by simp
  with r(4)[of "mem s1"] r(3) obtain s2 where s2: "brelse b s1 = Ret s2" "same_fs s s2" "mem s2 = mem s" by metis
  have "bmap ip bn s = Ret (fblock s ip bn, s2)"
    using r(1,2) s2(1) ind bn False dev by (simp add: bmap_def fblock_def Let_def) (simp add: indirect_def)
  then show ?thesis using s2 by blast
qed

text \<open>The bytes of the file from \<open>off\<close> on that lie in the block of \<open>off\<close>.\<close>

lemma block_bytes:
  assumes "fblock s ip (off div BSIZE) \<noteq> 0" "length (view s (fblock s ip (off div BSIZE))) = BSIZE"
    and "off mod BSIZE + m \<le> BSIZE"
  shows "take m (drop (off mod BSIZE) (view s (fblock s ip (off div BSIZE)))) = map (fbyte s ip) [off..<off + m]"
proof (rule nth_equalityI)
  show "length (take m (drop (off mod BSIZE) (view s (fblock s ip (off div BSIZE))))) = length (map (fbyte s ip) [off..<off + m])"
    using assms by simp
  fix i assume "i < length (take m (drop (off mod BSIZE) (view s (fblock s ip (off div BSIZE)))))"
  then have i: "i < m" by simp
  have off: "off + i = off div BSIZE * BSIZE + (off mod BSIZE + i)" "off mod BSIZE + i < BSIZE" using i assms(3) by auto
  then have "(off + i) div BSIZE = off div BSIZE" "(off + i) mod BSIZE = off mod BSIZE + i"
    by (metis div_mult_self3 div_less add_0_right zero_neq_numeral, metis mod_mult_self3 mod_less)
  then show "take m (drop (off mod BSIZE) (view s (fblock s ip (off div BSIZE)))) ! i = map (fbyte s ip) [off..<off + m] ! i"
    using i assms by (simp add: fbyte_def Let_def)
qed

text \<open>One turn of the loop: the bytes of one block go to the destination.\<close>

lemma readi_turn:
  assumes inv: "cache_inv s" "i_dev (itable s ! ip) = ROOTDEV" "\<forall>b \<in> file_blocks s ip. avail (cabs s) b"
    and n: "0 < n" "off + n \<le> MAXFILE * BSIZE" and p: "fblock s ip (off div BSIZE) \<noteq> 0" and dst: "dst_ok F dst n s"
  defines "m \<equiv> in_block off n"
  defines "bs \<equiv> map (fbyte s ip) [off..<off + m]"
  obtains (fault) k s' where "readi_loop ip dst off n s = Ret (None, stored dst (take k bs), s')" "same_fs s s'" "k < m"
      "delivered (user_pt s) dst (take k bs) (stored dst (take k bs)) (mem s) (mem s')" "faults dst k s"
  | (block) s1 where "readi_loop ip dst off n s =
         bindo (readi_loop ip (advance m (stored dst bs)) (off + m) (n - m) s1) (\<lambda>(t, d, s). Ret (map_option (\<lambda>t. m + t) t, d, s))"
      "same_fs s s1" "delivered (user_pt s) dst bs (stored dst bs) (mem s) (mem s1)"
      "dst_ok F (advance m (stored dst bs)) (n - m) s1" "\<And>k. faults (advance m (stored dst bs)) k s1 \<Longrightarrow> faults dst (m + k) s"
proof -
  let ?bn = "off div BSIZE"
  have bn: "?bn < MAXFILE" using n by (simp add: less_mult_imp_div_less)
  have m: "0 < m" "m \<le> n" "off mod BSIZE + m \<le> BSIZE" using in_block_pos[of n off] n(1) by (auto simp: m_def in_block_def)
  have run: "running s" by (rule cache_running[OF inv(1)])
  from bmap_present[OF inv(1,2) bn p inv(3)] obtain t where
    t: "bmap ip ?bn s = Ret (fblock s ip ?bn, t)" "same_fs s t" "mem t = mem s" by blast
  have ft: "cache_inv t" "cabs t = cabs s" "itable t = itable s" "same_caller s t" using t(2) by (simp_all add: same_fs_def)
  have av: "avail (cabs t) (fblock s ip ?bn)" using inv(3) fblock_in[OF bn p] ft(2) by simp
  from same_peek[OF ft(1) av] obtain b u where
    r: "bread ROOTDEV (fblock s ip ?bn) t = Ret (b, u)" "bdata b u = view t (fblock s ip ?bn)" "mem u = mem t" "same_caller t u"
      "\<And>m. \<exists>v. brelse b (u\<lparr>mem := m\<rparr>) = Ret v \<and> same_fs t v \<and> mem v = m" by blast
  have su: "same_caller s u" "mem u = mem s" using ft(4) r(3,4) t(3) by (simp_all add: same_caller_def)
  have bs: "take m (drop (off mod BSIZE) (bdata b u)) = bs" "length bs = m"
    using block_bytes[OF p view_length[OF inv(1)] m(3)] r(2) same_fs_view[OF t(2)] by (simp_all add: bs_def)
  have up: "user_pt u = user_pt s" by (rule same_caller_user[OF su(1) run])
  have du: "dst_ok F dst (length bs + (n - m)) u" using dst same_caller_dst(1)[OF su(1) run su(2)] m(2) bs(2) by simp
  then have "dst_ok F dst (length bs) u" by (simp add: dst_ok_def split: place.splits)
  moreover have "length bs < 2 ^ 64" using bs(2) m(3) by simp
  ultimately obtain r' k m' where e: "either_copyout dst bs u = Ret (r', stored dst (take k bs), u\<lparr>mem := m'\<rparr>)" "k \<le> length bs"
    "delivered (user_pt s) dst (take k bs) (stored dst (take k bs)) (mem s) m'"
    "r' = 0 \<and> k = length bs \<or> r' = - 1 \<and> k < length bs \<and> faults dst k s"
    using either_copyout_delivers[of F dst bs u] up su(2) same_caller_dst(2)[OF su(1) run su(2)] by auto
  from r(5)[of m'] obtain v where v: "brelse b (u\<lparr>mem := m'\<rparr>) = Ret v" "same_fs t v" "mem v = m'" by blast
  have sv: "same_fs s v" by (rule same_fs_trans[OF t(2) v(2)])
  have step: "readi_loop ip dst off n s = (if r' = - 1 then Ret (None, stored dst (take k bs), v)
      else bindo (readi_loop ip (advance m (stored dst (take k bs))) (off + m) (n - m) v) (\<lambda>(t, d, s). Ret (map_option (\<lambda>t. m + t) t, d, s)))"
    using t(1) p r(1) e(1) v(1) n(1) ft(3) inv(2) bs(1) by (subst readi_loop.simps) (simp add: Let_def m_def[symmetric])
  from e(4) show ?thesis
  proof
    assume "r' = - 1 \<and> k < length bs \<and> faults dst k s"
    then show ?thesis using step sv e(3) v(3) bs(2) by (intro fault[of k v]) auto
  next
    assume k: "r' = 0 \<and> k = length bs"
    then have dl: "delivered (user_pt u) dst bs (stored dst bs) (mem u) m'" using e(3) up su(2) by simp
    note adv = dst_ok_advance[OF du dl, unfolded bs(2)]
    have "same_caller (u\<lparr>mem := m'\<rparr>) v" using sv su(1) by (simp add: same_fs_def same_caller_def)
    moreover have "running (u\<lparr>mem := m'\<rparr>)" using run su(1) by (auto simp: running_def same_caller_def dest!: arg_cong[of _ _ length])
    ultimately have c: "dst_ok F d j v = dst_ok F d j (u\<lparr>mem := m'\<rparr>)" "faults d j v = faults d j (u\<lparr>mem := m'\<rparr>)" for d j
      using same_caller_dst[of "u\<lparr>mem := m'\<rparr>" v] v(3) by simp_all
    show ?thesis
      using step k sv dl up su(2) v(3) adv c same_caller_dst(2)[OF su(1) run su(2)] by (intro block[of v]) auto
  qed
qed

lemma readi_loop_reads:
  assumes "cache_inv s" "i_dev (itable s ! ip) = ROOTDEV" "\<forall>b \<in> file_blocks s ip. avail (cabs s) b"
    and "off + n \<le> MAXFILE * BSIZE" "\<And>k. off \<le> k \<Longrightarrow> k < off + n \<Longrightarrow> fblock s ip (k div BSIZE) \<noteq> 0" "dst_ok F dst n s"
  shows "\<exists>t k d s'. readi_loop ip dst off n s = Ret (t, d, s') \<and> same_fs s s' \<and> k \<le> n \<and>
     delivered (user_pt s) dst (take k (map (fbyte s ip) [off..<off + n])) d (mem s) (mem s') \<and>
     (t = Some n \<and> k = n \<or> t = None \<and> k < n \<and> faults dst k s)"
  using assms
proof (induction n arbitrary: dst off s rule: less_induct)
  case (less n)
  let ?m = "in_block off n" and ?all = "map (fbyte s ip) [off..<off + n]"
  let ?bs = "map (fbyte s ip) [off..<off + ?m]"
  show ?case
  proof (cases "n = 0")
    case True
    then show ?thesis using same_fs_refl[OF less.prems(1)]
      by (intro exI[of _ "Some 0"] exI[of _ 0] exI[of _ dst] exI[of _ s]) (simp add: readi_loop.simps)
  next
    case False
    have m: "0 < ?m" "?m \<le> n" using in_block_pos[of n off] False by (auto simp: in_block_def)
    have all: "?all = ?bs @ map (fbyte s ip) [off + ?m..<off + n]"
      using m(2) upt_add_eq_append[of off "off + ?m" "n - ?m"] by (simp flip: map_append)
    have p: "fblock s ip (off div BSIZE) \<noteq> 0" and n0: "0 < n" using less.prems(5)[of off] False by simp_all
    show ?thesis
    proof (cases rule: readi_turn[OF less.prems(1-3) n0 less.prems(4) p less.prems(6)])
      case (1 k s')
      then show ?thesis using all m
        by (intro exI[of _ None] exI[of _ k] exI[of _ "stored dst (take k ?bs)"] exI[of _ s']) auto
    next
      case (2 s1)
      note f = same_fs_file[OF 2(2), of ip]
      have "n - ?m < n" using m by simp
      moreover have "cache_inv s1" "i_dev (itable s1 ! ip) = ROOTDEV" "\<forall>b \<in> file_blocks s1 ip. avail (cabs s1) b"
        using 2(2) less.prems(2,3) f(3) by (simp_all add: same_fs_def)
      moreover have "fblock s1 ip (k div BSIZE) \<noteq> 0" if "off + ?m \<le> k" "k < off + ?m + (n - ?m)" for k
        using less.prems(5)[of k] that m(2) f(2) by simp
      moreover have "off + ?m + (n - ?m) \<le> MAXFILE * BSIZE" "off + ?m + (n - ?m) = off + n" using less.prems(4) m(2) by simp_all
      ultimately obtain t k d s' where
        r: "readi_loop ip (advance ?m (stored dst ?bs)) (off + ?m) (n - ?m) s1 = Ret (t, d, s')" "same_fs s1 s'" "k \<le> n - ?m"
          "delivered (user_pt s1) (advance ?m (stored dst ?bs)) (take k (map (fbyte s1 ip) [off + ?m..<off + n])) d (mem s1) (mem s')"
          "t = Some (n - ?m) \<and> k = n - ?m \<or> t = None \<and> k < n - ?m \<and> faults (advance ?m (stored dst ?bs)) k s1"
        using less.IH[of "n - ?m" s1 "off + ?m" "advance ?m (stored dst ?bs)"] 2(4) by metis
      let ?cs = "take k (map (fbyte s ip) [off + ?m..<off + n])"
      have "user_pt s1 = user_pt s" using same_caller_user[of s s1] 2(2) cache_running[OF less.prems(1)] by (simp add: same_fs_def)
      then have "delivered (user_pt s) (advance (length ?bs) (stored dst ?bs)) ?cs d (mem s1) (mem s')" using r(4) f(4) by simp
      moreover have "length ?bs + length ?cs < 2 ^ 64" using less.prems(4) m(2) by simp
      moreover have "i + length ?bs + length ?cs \<le> length v" if "dst = Local i v" for i v
        using less.prems(6) that m(2) by (simp add: dst_ok_def)
      ultimately have "delivered (user_pt s) dst (?bs @ ?cs) d (mem s) (mem s')" using delivered_append[OF 2(3)] by blast
      moreover have "?bs @ ?cs = take (?m + k) ?all" unfolding all by simp
      ultimately show ?thesis using 2(1,5) r(1,3,5) same_fs_trans[OF 2(2) r(2)] m(2)
        by (intro exI[of _ "map_option (\<lambda>t. ?m + t) t"] exI[of _ "?m + k"] exI[of _ d] exI[of _ s']) auto
    qed
  qed
qed

text \<open>The contents of a file.\<close>

definition contents :: "'a fs_state_scheme \<Rightarrow> nat \<Rightarrow> uchar list" where
  "contents s ip = map (fbyte s ip) [0..<unat (i_size (itable s ! ip))]"

definition complete :: "'a fs_state_scheme \<Rightarrow> nat \<Rightarrow> bool" where
  "complete s ip \<longleftrightarrow> unat (i_size (itable s ! ip)) \<le> MAXFILE * BSIZE \<and>
     (\<forall>k < unat (i_size (itable s ! ip)). fblock s ip (k div BSIZE) \<noteq> 0)"

lemma readi_contents:
  assumes inv: "cache_inv s" "i_dev (itable s ! ip) = ROOTDEV" "\<forall>b \<in> file_blocks s ip. avail (cabs s) b"
    and c: "complete s ip" and nw: "off \<le> off + n" and dst: "dst_ok F dst (unat n) s"
    and bs: "bs = take (unat n) (drop (unat off) (contents s ip))"
  shows "\<exists>r k d s'. readi ip dst off n s = Ret (r, d, s') \<and> same_fs s s' \<and>
     delivered (user_pt s) dst (take k bs) d (mem s) (mem s') \<and>
     (r = int (length bs) \<and> k = length bs \<or> r = - 1 \<and> k < length bs \<and> faults dst k s)"
proof (cases "off > i_size (itable s ! ip)")
  case True
  then have "bs = []" by (simp add: bs contents_def word_less_nat_alt)
  then show ?thesis using True same_fs_refl[OF inv(1)]
    by (intro exI[of _ 0] exI[of _ dst] exI[of _ s]) (simp add: readi_def Let_def)
next
  case False
  let ?z = "i_size (itable s ! ip)"
  define l where "l = (if off + n > ?z then ?z - off else n)"
  have uo: "unat off \<le> unat ?z" using False by (simp add: word_le_nat_alt not_less)
  have sum: "unat (off + n) = unat off + unat n" using nw by (metis unat_plus_simple)
  have ul: "unat l = min (unat n) (unat ?z - unat off)"
  proof (cases "off + n > ?z")
    case True
    then have "unat ?z < unat off + unat n" using sum by (simp add: word_less_nat_alt)
    then show ?thesis using True uo by (simp add: l_def unat_sub word_le_nat_alt)
  next
    case F: False
    then have "unat off + unat n \<le> unat ?z" using sum by (simp add: word_le_nat_alt not_less)
    then show ?thesis using F by (simp add: l_def)
  qed
  then have l: "unat off + unat l \<le> unat ?z" "bs = map (fbyte s ip) [unat off..<unat off + unat l]" "length bs = unat l"
    using uo by (auto simp: bs contents_def drop_map take_map intro!: arg_cong[where f = "map _"] nth_equalityI)
  have "dst_ok F dst (unat l) s" using dst ul by (auto simp: dst_ok_def split: place.splits)
  moreover have "unat off + unat l \<le> MAXFILE * BSIZE" using c l(1) by (simp add: complete_def)
  moreover have "fblock s ip (k div BSIZE) \<noteq> 0" if "k < unat off + unat l" for k using c l(1) that by (auto simp: complete_def)
  ultimately obtain t k d s' where "readi_loop ip dst (unat off) (unat l) s = Ret (t, d, s')" "same_fs s s'"
    "delivered (user_pt s) dst (take k bs) d (mem s) (mem s')" "t = Some (unat l) \<and> k = unat l \<or> t = None \<and> k < unat l \<and> faults dst k s"
    using readi_loop_reads[OF inv, of "unat off" "unat l" F dst] unfolding l(2) by blast
  then show ?thesis using False nw l(3)
    by (intro exI[of _ "case t of None \<Rightarrow> - 1 | Some t \<Rightarrow> int t"] exI[of _ k] exI[of _ d] exI[of _ s'])
      (auto simp: readi_def Let_def l_def[symmetric] not_less)
qed

end
