(* ===== verification/Fs_Contract.thy ===== *)
theory Fs_Contract
  imports Fs_Data Fslog_Crash
begin

text \<open>
  A concrete file system in the layout of \<^verbatim>\<open>mkfs\<close>, with one small file and a transaction begun; and
  the contracts of the block allocator, of the inodes on disk and of \<open>readi\<close>, shown on it.
\<close>

section \<open>A file system with one file\<close>

text \<open>
  Blocks 0 to 47 are marked used in the bitmap (block 45); the data block 46 holds the file. The caller has one page
  of user memory.
\<close>

definition ex_disk :: "uint \<Rightarrow> block" where
  "ex_disk b = (if b = 45 then replicate 6 255 @ replicate (BSIZE - 6) 0
                else if b = 46 then [104, 101, 108, 108, 111] @ replicate (BSIZE - 5) 0
                else replicate BSIZE 0)"

definition ex_inode :: inode where
  "ex_inode = \<lparr>i_dev = ROOTDEV, i_inum = 1, i_ref = 1, i_lock = initsleeplock, i_valid = True, i_type = T_FILE,
     i_major = 0, i_minor = 0, i_nlink = 1, i_size = 5, i_addrs = 46 # replicate NDIRECT 0\<rparr>"

definition ex_cold :: fs_state where
  "ex_cold = dev_state.extend (log_state.extend ((cold_log ex_disk op_log)\<lparr>mem := mem ex_user, freelist := freelist ex_user,
       kend := kend ex_user, procs := [ex_proc], cur := Some 0\<rparr>)
     (dev_state.fields (replicate 32 0) 0 0 [] [] [] [] False (replicate 128 0) 0 0 0)) (fs_state.fields mkfs_sb (replicate NINODE ex_inode))"

definition ex_fs :: fs_state where
  "ex_fs = binit ex_cold"

lemma ex_cold_simps [simp]:
  "bcache ex_cold = replicate (Suc NBUF) zero_buf" "disk ex_cold = ex_disk" "running ex_cold" "dwrites ex_cold = []"
  "klog ex_cold = op_log" "fsb ex_cold = mkfs_sb" "itable ex_cold = replicate NINODE ex_inode"
  by (simp_all add: ex_cold_def cold_log_def cold_bio_def running_def bio_state.defs log_state.defs dev_state.defs
      fs_state.defs)

lemma ex_fs_txn: "txn {} 29 ex_fs" "view ex_fs = ex_disk" "cache_inv ex_fs"
  and ex_fs_simps [simp]: "klog ex_fs = op_log" "fsb ex_fs = mkfs_sb" "itable ex_fs = replicate NINODE ex_inode"
proof -
  have c: "cache_inv (binit ex_cold)" "cabs (binit ex_cold) = \<lparr>cv_data = ex_disk, cv_disk = ex_disk,
      cv_writes = [], cv_refs = (\<lambda>_. 0), cv_locked = (\<lambda>_. False)\<rparr>"
    using binit_cold(1,2)[of ex_cold] by (simp_all add: ex_disk_def)
  show s: "klog ex_fs = op_log" "fsb ex_fs = mkfs_sb" "itable ex_fs = replicate NINODE ex_inode"
    by (simp_all add: ex_fs_def binit_def Let_def)
  show "view ex_fs = ex_disk" using arg_cong[OF c(2), of cv_data] by (simp add: ex_fs_def)
  show "cache_inv ex_fs" using c(1) by (simp add: ex_fs_def)
  have "refs ex_fs = (\<lambda>_. 0)" "blocked ex_fs = (\<lambda>_. False)"
    using arg_cong[OF c(2), of cv_refs] arg_cong[OF c(2), of cv_locked] by (simp_all add: ex_fs_def)
  then show "txn {} 29 ex_fs" using c(1) by (simp add: txn_def log_inv_def s op_log_simps NBUF_def ex_fs_def[symmetric])
qed

lemma ex_fs_caller: "mem ex_fs = mem ex_user" "freelist ex_fs = freelist ex_user" "kend ex_fs = kend ex_user" "cur ex_fs = Some 0" "procs ex_fs = [ex_proc]"
  by (simp_all add: ex_fs_def binit_def Let_def ex_cold_def cold_log_def cold_bio_def bio_state.defs log_state.defs dev_state.defs fs_state.defs)

lemma ex_bitmap:
  "bit_free (ex_disk (BBLOCK b mkfs_sb)) (unat b mod BPB) \<longleftrightarrow> 48 \<le> unat b" if "unat b < 2000"
proof -
  have b: "BBLOCK b mkfs_sb = 45" "unat b mod BPB = unat b"
    using that by (simp_all add: BBLOCK_def mkfs_sb_def word_unat_eq_iff unat_word_ariths unat_div)
  show ?thesis
  proof (cases "48 \<le> unat b")
    case False
    then have "unat b \<in> set [0..<48]" by simp
    moreover have "\<forall>i \<in> set [0..<48]. \<not> bit_free (ex_disk 45) i" by code_simp
    ultimately show ?thesis using False b by auto
  next
    case True
    then have "6 \<le> unat b div 8" "unat b div 8 < BSIZE" using that by simp_all
    then have "ex_disk 45 ! (unat b div 8) = 0" by (simp add: ex_disk_def nth_append del: replicate.simps)
    then show ?thesis using True b by (simp add: bit_free_def)
  qed
qed

lemma ex_free: "free_blocks ex_fs = {b. 48 \<le> unat b \<and> unat b < 2000}"
  using ex_bitmap by (auto simp: free_blocks_def ex_fs_txn(2)) (simp_all add: mkfs_sb_def)

lemma ex_region: "x \<in> log_region op_log \<Longrightarrow> unat x < 32"
proof -
  assume "x \<in> log_region op_log"
  then obtain i where i: "x = u32 (2 + i)" "0 \<le> i" "i < 30" by (auto simp: log_region_def op_log_simps)
  then have "uint x = 2 + i" by (simp only: uint_word_of_int) simp
  moreover have "unat x = nat (uint x)" by simp
  ultimately show "unat x < 32" using i(2,3) by linarith
qed

lemma ex_ok: "fs_ok ex_fs"
  using ex_region by (auto simp: fs_ok_def fs_layout_def ex_free data_start_def) (auto simp: mkfs_sb_def)

lemma ex_card: "2 \<le> card (free_blocks ex_fs)"
proof -
  have "card {48, 49 :: uint} \<le> card (free_blocks ex_fs)" by (rule card_mono) (auto simp: ex_free)
  then show ?thesis by simp
qed

lemma ex_blocks: "ip < NINODE \<Longrightarrow> indirect ex_fs ip = 0" "ip < NINODE \<Longrightarrow> fblock ex_fs ip m = (if m = 0 then 46 else 0)"
  "ip < NINODE \<Longrightarrow> file_blocks ex_fs ip = {46}"
proof -
  show i: "indirect ex_fs ip = 0" if "ip < NINODE" using that by (simp add: indirect_def ex_inode_def)
  show b: "fblock ex_fs ip m = (if m = 0 then 46 else 0)" if "ip < NINODE" for m
    using that i[OF that] by (cases m) (auto simp: fblock_def ex_inode_def nth_Cons')
  show "file_blocks ex_fs ip = {46}" if "ip < NINODE"
    using i[OF that] b[OF that] by (auto simp: file_blocks_def)
qed

lemma ex_file: "ip < NINODE \<Longrightarrow> file_ok ex_fs ip" "ip < NINODE \<Longrightarrow> complete ex_fs ip"
  "ip < NINODE \<Longrightarrow> contents ex_fs ip = [104, 101, 108, 108, 111]"
proof -
  assume ip: "ip < NINODE"
  show "file_ok ex_fs ip" using ip by (auto simp: file_ok_def ex_blocks ex_free data_start_def ex_inode_def mkfs_sb_def)
  show "complete ex_fs ip" using ip by (auto simp: complete_def ex_blocks ex_inode_def)
  have "[0..<5] = [0, 1, 2, 3, 4 :: nat]" by code_simp
  then show "contents ex_fs ip = [104, 101, 108, 108, 111]"
    using ip by (simp add: contents_def ex_inode_def fbyte_def ex_blocks ex_fs_txn(2) ex_disk_def del: upt_Suc)
qed

section \<open>The block allocator\<close>

text \<open>
  C14. \<open>balloc\<close> in a transaction takes a block that the bitmap has as free, marks it used, zeroes it and
  leaves every other block but the bitmap as it was; \<open>bfree\<close> of that block makes the set of free blocks
  what it was before, and again no other block changes.
\<close>

theorem balloc_bfree_roundtrip:
  assumes T: "txn {} (Suc (Suc (Suc k))) s" and ok: "fs_ok s" and fr: "free_blocks s \<noteq> {}"
  shows "\<exists>a s1 s2. balloc ROOTDEV s = Ret (a, s1) \<and> a \<in> free_blocks s \<and> free_blocks s1 = free_blocks s - {a} \<and>
     view s1 a = replicate BSIZE 0 \<and> (\<forall>x. x \<noteq> a \<longrightarrow> x \<notin> bitmap_blocks s \<longrightarrow> view s1 x = view s x) \<and>
     bfree ROOTDEV a s1 = Ret s2 \<and> txn {} k s2 \<and> free_blocks s2 = free_blocks s \<and>
     (\<forall>x. x \<noteq> a \<longrightarrow> x \<notin> bitmap_blocks s \<longrightarrow> view s2 x = view s x)"
proof -
  from balloc_found[OF T ok _ _ fr] obtain a s1 where
    a: "balloc ROOTDEV s = Ret (a, s1)" "txn {} (Suc k) s1" "allocated a s s1" "quiet s s1" by auto
  note q = quietD[OF a(4)]
  have fa: "a \<in> free_blocks s" "free_blocks s1 = free_blocks s - {a}" using a(3) by (simp_all add: allocated_def)
  have l: "fs_layout (fsb s1) (log_region (klog s1))" using ok by (simp add: fs_ok_def q)
  have lt: "unat a < unat (sb_size (fsb s1))" using free_data(2)[OF ok fa(1)] by (simp add: q)
  from bfree_frees[OF a(2) l lt] fa obtain s2 where
    b: "bfree ROOTDEV a s1 = Ret s2" "txn {} k s2" "freed a s1 s2" by auto
  have "bitmap_blocks s1 = bitmap_blocks s" by (simp add: bitmap_blocks_def q)
  then show ?thesis using a(1,3) b fa by (intro exI[of _ a] exI[of _ s1] exI[of _ s2]) (auto simp: allocated_def freed_def)
qed

theorem balloc_bfree_roundtrip_witness:
  "\<exists>a s1 s2. balloc ROOTDEV ex_fs = Ret (a, s1) \<and> 48 \<le> unat a \<and> bfree ROOTDEV a s1 = Ret s2 \<and>
     free_blocks s2 = {b. 48 \<le> unat b \<and> unat b < 2000} \<and> view s2 46 = ex_disk 46"
proof -
  have T: "txn {} (Suc (Suc (Suc 26))) ex_fs" using ex_fs_txn(1) by simp
  have "(46 :: uint) \<notin> bitmap_blocks ex_fs"
    by (auto simp: bitmap_blocks_def BBLOCK_def mkfs_sb_def word_unat_eq_iff unat_word_ariths unat_div)
  moreover have "(48 :: uint) \<in> free_blocks ex_fs" by (simp add: ex_free)
  then have "free_blocks ex_fs \<noteq> {}" by blast
  from balloc_bfree_roundtrip[OF T ex_ok this] obtain a s1 s2 where
    r: "balloc ROOTDEV ex_fs = Ret (a, s1)" "a \<in> free_blocks ex_fs" "bfree ROOTDEV a s1 = Ret s2"
      "free_blocks s2 = free_blocks ex_fs" "\<forall>x. x \<noteq> a \<longrightarrow> x \<notin> bitmap_blocks ex_fs \<longrightarrow> view s2 x = view ex_fs x" by blast
  moreover have "48 \<le> unat a" "46 \<noteq> a" using r(2) by (auto simp: ex_free)
  ultimately show ?thesis
    by (intro exI[of _ a] exI[of _ s1] exI[of _ s2]) (simp add: ex_free[symmetric] ex_fs_txn(2)[symmetric])
qed

section \<open>Inodes on disk\<close>

text \<open>
  C15. What \<open>iupdate\<close> writes, \<open>ilock\<close> reads: after \<open>iupdate\<close> of an inode, any free entry of the inode
  table that is set up for the same inode number and locked holds the same type, device numbers, link count, size
  and block addresses; and no other inode on disk has changed.
\<close>

theorem iupdate_ilock_roundtrip:
  assumes T: "txn {} (Suc k) s" and l: "fs_layout (fsb s) (log_region (klog s))"
    and x: "x = itable s ! ip" "i_dev x = ROOTDEV" "unat (i_inum x) < unat (sb_ninodes (fsb s))"
      "length (i_addrs x) = NDIRECT + 1" "i_type x \<noteq> 0"
    and y: "jp < length (itable s)" "i_dev y = ROOTDEV" "i_inum y = i_inum x" "1 \<le> i_ref y" "\<not> sl_locked (i_lock y)"
      "\<not> i_valid y"
  shows "\<exists>s1 s2. iupdate ip s = Ret s1 \<and> ilock (Some jp) (upd_inode jp (\<lambda>_. y) s1) = Ret s2 \<and> txn {} k s2 \<and>
     dinode_of (itable s2 ! jp) = dinode_of x \<and> i_valid (itable s2 ! jp) \<and>
     holdingsleep (i_lock (itable s2 ! jp)) s2 = Ret True \<and>
     (\<forall>n. unat n < unat (sb_ninodes (fsb s)) \<longrightarrow> n \<noteq> i_inum x \<longrightarrow> dinode_at s2 n = dinode_at s n)"
proof -
  from iupdate_writes[OF T l x(1-4)] obtain s1 where s1: "iupdate ip s = Ret s1" "txn {} k s1" "quiet s s1"
    "\<forall>n. unat n < unat (sb_ninodes (fsb s)) \<longrightarrow> dinode_at s1 n = (if n = i_inum x then dinode_of x else dinode_at s n)"
    by auto
  note q = quietD[OF s1(3)]
  let ?t = "upd_inode jp (\<lambda>_. y) s1"
  have t: "itable ?t ! jp = y" "jp < length (itable ?t)" using y(1) by (simp_all add: q)
  have d: "dinode_at ?t n = dinode_at s1 n" for n by (simp add: dinode_at_def)
  have dx: "dinode_at ?t (i_inum y) = dinode_of x" using s1(4) x(3) y(3) d by simp
  have T1: "txn {} k ?t" using s1(2) by simp
  have ty: "di_type (dinode_at ?t (i_inum y)) \<noteq> 0" using dx x(5) by (simp add: dinode_of_def)
  from ilock_loads[OF T1 t(1)[symmetric] t(2) y(2,4-6) ty] obtain s2 z where
    s2: "ilock (Some jp) ?t = Ret s2" "txn {} k s2" "fstep ?t s2" "view s2 = view ?t" "itable s2 = (itable ?t)[jp := z]"
      "dinode_of z = dinode_of x" "i_valid z" "holdingsleep (i_lock z) s2 = Ret True" using dx by auto
  have "dinode_at s2 n = dinode_at s1 n" for n using s2(4) fstepD(1)[OF s2(3)] by (simp add: dinode_at_def)
  then show ?thesis using s1(1,4) s2 t(2) by (intro exI[of _ s1] exI[of _ s2]) simp
qed

theorem iupdate_ilock_roundtrip_witness:
  "\<exists>s1 s2. iupdate 0 ex_fs = Ret s1 \<and> ilock (Some 3) (upd_inode 3 (\<lambda>_. ex_inode\<lparr>i_valid := False, i_size := 9\<rparr>) s1) = Ret s2 \<and>
     dinode_of (itable s2 ! 3) = dinode_of ex_inode"
proof -
  have T: "txn {} (Suc 28) ex_fs" using ex_fs_txn(1) by simp
  have l: "fs_layout (fsb ex_fs) (log_region (klog ex_fs))" using ex_ok by (simp add: fs_ok_def)
  from iupdate_ilock_roundtrip[OF T l, of ex_inode 0 3 "ex_inode\<lparr>i_valid := False, i_size := 9\<rparr>"] show ?thesis
    by (auto simp: ex_inode_def mkfs_sb_def initsleeplock_def)
qed

section \<open>Reading a file\<close>


text \<open>The caller of the example can take any bytes at address 100.\<close>

lemma ex_fs_dst: "user_pt ex_fs = 0x80001000" "dst_ok [] (User 100) n ex_fs" "k < 100 \<Longrightarrow> \<not> faults (User 100) k ex_fs"
proof -
  have p: "procs ex_fs ! 0 = ex_proc" by (simp add: ex_fs_caller)
  note d = ex_dst_ok[OF ex_fs_caller(1-4) p]
  show "user_pt ex_fs = 0x80001000" "dst_ok [] (User 100) n ex_fs" by (rule d)+
  show "k < 100 \<Longrightarrow> \<not> faults (User 100) k ex_fs" by (rule d(3)) (simp add: unat_word_ariths unat_of_nat)
qed


end
