(* ===== verification/Fs_Write.thy ===== *)
theory Fs_Write
  imports Fs_Contract
begin

text \<open>
  Writing: \<open>writei\<close> inside a transaction replaces a section of the contents of a file, or extends
  them, allocating blocks as needed, and touches no other file.
\<close>

section \<open>The effect of writing bytes\<close>

text \<open>
  \<open>wrote ip off bs s s'\<close>: the bytes \<open>bs\<close> are in the file at \<open>off\<close>, all other bytes are as before; new
  blocks came from the free blocks, and no block outside the file has changed but for the bitmap.
\<close>

definition wrote :: "nat \<Rightarrow> nat \<Rightarrow> uchar list \<Rightarrow> 'a fs_state_scheme \<Rightarrow> 'a fs_state_scheme \<Rightarrow> bool" where
  "wrote ip off bs s s' \<longleftrightarrow>
     fstep s s' \<and> fs_ok s' \<and> file_ok s' ip \<and>
     (\<exists>as. itable s' = (itable s)[ip := (itable s ! ip)\<lparr>i_addrs := as\<rparr>]) \<and>
     free_blocks s' \<subseteq> free_blocks s \<and> file_blocks s' ip \<subseteq> file_blocks s ip \<union> free_blocks s \<and>
     (\<forall>x. x \<notin> free_blocks s \<longrightarrow> x \<notin> bitmap_blocks s \<longrightarrow> x \<notin> file_blocks s ip \<longrightarrow> view s' x = view s x) \<and>
     (\<forall>k < MAXFILE * BSIZE. fbyte s' ip k =
        (if off \<le> k \<and> k < off + length bs then bs ! (k - off) else fbyte s ip k)) \<and>
     (\<forall>k. off \<le> k \<longrightarrow> k < off + length bs \<longrightarrow> fblock s' ip (k div BSIZE) \<noteq> 0) \<and>
     (\<forall>m < MAXFILE. fblock s ip m \<noteq> 0 \<longrightarrow> fblock s' ip m \<noteq> 0)"

lemma wroteD:
  assumes "wrote ip off bs s s'"
  shows "fstep s s'" "fs_ok s'" "file_ok s' ip" "free_blocks s' \<subseteq> free_blocks s"
    "file_blocks s' ip \<subseteq> file_blocks s ip \<union> free_blocks s"
    "x \<notin> free_blocks s \<Longrightarrow> x \<notin> bitmap_blocks s \<Longrightarrow> x \<notin> file_blocks s ip \<Longrightarrow> view s' x = view s x"
    "k < MAXFILE * BSIZE \<Longrightarrow> fbyte s' ip k = (if off \<le> k \<and> k < off + length bs then bs ! (k - off) else fbyte s ip k)"
    "off \<le> k \<Longrightarrow> k < off + length bs \<Longrightarrow> fblock s' ip (k div BSIZE) \<noteq> 0"
    "m < MAXFILE \<Longrightarrow> fblock s ip m \<noteq> 0 \<Longrightarrow> fblock s' ip m \<noteq> 0"
  using assms unfolding wrote_def by blast+

lemma wrote_itable:
  assumes "wrote ip off bs s s'"
  obtains as where "itable s' = (itable s)[ip := (itable s ! ip)\<lparr>i_addrs := as\<rparr>]"
  using assms unfolding wrote_def by blast

lemma wrote_inode:
  assumes "wrote ip off bs s s'" "ip < length (itable s)"
  shows "i_size (itable s' ! ip) = i_size (itable s ! ip)" "i_inum (itable s' ! ip) = i_inum (itable s ! ip)"
    "j \<noteq> ip \<Longrightarrow> itable s' ! j = itable s ! j" "length (itable s') = length (itable s)"
proof -
  obtain as where "itable s' = (itable s)[ip := (itable s ! ip)\<lparr>i_addrs := as\<rparr>]" by (rule wrote_itable[OF assms(1)])
  then show "i_size (itable s' ! ip) = i_size (itable s ! ip)" "i_inum (itable s' ! ip) = i_inum (itable s ! ip)"
    "j \<noteq> ip \<Longrightarrow> itable s' ! j = itable s ! j" "length (itable s') = length (itable s)"
    using assms(2) by simp_all
qed

lemma wrote_trans:
  assumes w: "wrote ip off bs s t" and v: "wrote ip (off + length bs) cs t u" and len: "off + length (bs @ cs) \<le> MAXFILE * BSIZE"
  shows "wrote ip off (bs @ cs) s u"
proof -
  note a = wroteD[OF w] and b = wroteD[OF v]
  obtain as where t: "itable t = (itable s)[ip := (itable s ! ip)\<lparr>i_addrs := as\<rparr>]" by (rule wrote_itable[OF w])
  obtain as' where u: "itable u = (itable t)[ip := (itable t ! ip)\<lparr>i_addrs := as'\<rparr>]" by (rule wrote_itable[OF v])
  have it: "itable u = (itable s)[ip := (itable s ! ip)\<lparr>i_addrs := as'\<rparr>]"
    unfolding u t by (cases "ip < length (itable s)") (simp_all add: list_update_beyond)
  have bm: "bitmap_blocks t = bitmap_blocks s" by (rule bitmap_blocks_cong[OF fstepD(1)[OF a(1)]])
  have view: "view u x = view s x" if "x \<notin> free_blocks s" "x \<notin> bitmap_blocks s" "x \<notin> file_blocks s ip" for x
    using a(6)[OF that] b(6)[of x] that a(4,5) bm by auto
  have byte: "fbyte u ip k = (if off \<le> k \<and> k < off + length (bs @ cs) then (bs @ cs) ! (k - off) else fbyte s ip k)"
    if "k < MAXFILE * BSIZE" for k
    using a(7)[OF that] b(7)[OF that] by (auto simp: nth_append)
  have blk: "fblock u ip (k div BSIZE) \<noteq> 0" if "off \<le> k" "k < off + length (bs @ cs)" for k
  proof (cases "k < off + length bs")
    case True
    have "k div BSIZE < MAXFILE" using that(2) len by (intro less_mult_imp_div_less) simp
    then show ?thesis using a(8)[OF that(1) True] b(9) by blast
  next
    case False
    then show ?thesis using b(8)[of k] that(2) by simp
  qed
  show ?thesis
    unfolding wrote_def
    using fstep_trans[OF a(1) b(1)] b(2,3) it order_trans[OF b(4) a(4)] a(4,5,9) b(5,9) view byte blk by blast
qed

lemma grown_wrote:
  assumes ok: "fs_ok s" "file_ok s ip" and g: "grown ip bn s s'" and bn: "bn < MAXFILE"
  shows "wrote ip off [] s s'"
proof -
  have "fblock s' ip m \<noteq> 0" if "m < MAXFILE" "fblock s ip m \<noteq> 0" for m
    using g that unfolding grown_def by metis
  moreover have "view s' x = view s x" if "x \<notin> free_blocks s" "x \<notin> bitmap_blocks s" "x \<notin> file_blocks s ip" for x
    using g that indirect_in[of s ip] unfolding grown_def by metis
  ultimately show ?thesis
    using grown_file_ok[OF ok g bn] grown_fbyte[OF ok g] grown_blocks[OF g bn] g
    unfolding wrote_def grown_def by auto
qed

lemma same_block:
  assumes "off mod BSIZE + n \<le> BSIZE" "off \<le> k" "k < off + n"
  shows "k div BSIZE = off div BSIZE"
proof (rule div_nat_eqI)
  have e: "off = BSIZE * (off div BSIZE) + off mod BSIZE" by simp
  show "BSIZE * (off div BSIZE) \<le> k" using e assms(2) by linarith
  show "k < BSIZE * Suc (off div BSIZE)" using e assms(1,3) unfolding mult_Suc_right by linarith
qed

lemma data_written:
  assumes ok: "fs_ok s" "file_ok s ip" and bn: "off div BSIZE < MAXFILE" and a: "a = fblock s ip (off div BSIZE)" "a \<noteq> 0"
    and len: "length (view s a) = BSIZE" "off mod BSIZE + length bs \<le> BSIZE"
    and st: "fstep s s'" "itable s' = itable s"
      "view s' = (view s)(a := overwrite (view s a) (off mod BSIZE) bs)"
  shows "wrote ip off bs s s'" "free_blocks s' = free_blocks s"
proof -
  have ain: "a \<in> file_blocks s ip" using fblock_in[OF bn] a by simp
  note fb = file_block_facts[OF ok ain]
  have sb: "fsb s' = fsb s" by (rule fstepD(1)[OF st(1)])
  have "view s' (BBLOCK b (fsb s)) = view s (BBLOCK b (fsb s))" if "unat b < unat (sb_size (fsb s))" for b
    using fb(4) that by (auto simp: st(3) bitmap_blocks_def)
  then show fr: "free_blocks s' = free_blocks s" by (auto simp: free_blocks_def sb)
  have ia: "a \<noteq> indirect s ip" using ok(2) bn a by (auto simp: file_ok_def)
  have ind: "indirect s' ip = indirect s ip" by (simp add: indirect_def st(2))
  have blk: "fblock s' ip m = fblock s ip m" for m using ia ind by (auto simp: fblock_def st(2,3))
  have fbs: "file_blocks s' ip = file_blocks s ip" by (simp add: file_blocks_def blk ind)
  have "fs_ok s'" by (rule fs_ok_cong[OF ok(1) sb fstepD(2)[OF st(1)]]) (simp add: fr)
  moreover have "file_ok s' ip" using ok(2) by (simp add: file_ok_def fr fbs blk ind st(2) sb)
  moreover have "fbyte s' ip k = (if off \<le> k \<and> k < off + length bs then bs ! (k - off) else fbyte s ip k)"
    if k: "k < MAXFILE * BSIZE" for k
  proof (cases "k div BSIZE = off div BSIZE")
    case True
    have e: "k = off div BSIZE * BSIZE + k mod BSIZE" "off = off div BSIZE * BSIZE + off mod BSIZE"
      using True by (metis div_mult_mod_eq)+
    have "overwrite (view s a) (off mod BSIZE) bs ! (k mod BSIZE) =
        (if off mod BSIZE \<le> k mod BSIZE \<and> k mod BSIZE < off mod BSIZE + length bs
         then bs ! (k mod BSIZE - off mod BSIZE) else view s a ! (k mod BSIZE))"
      using len by (intro nth_overwrite) simp_all
    moreover have "off mod BSIZE \<le> k mod BSIZE \<longleftrightarrow> off \<le> k" "k mod BSIZE < off mod BSIZE + length bs \<longleftrightarrow> k < off + length bs"
      "k mod BSIZE - off mod BSIZE = k - off" using e by linarith+
    ultimately show ?thesis using a True by (simp add: fbyte_def Let_def blk st(3))
  next
    case False
    have kb: "k div BSIZE < MAXFILE" using k by (simp add: less_mult_imp_div_less)
    have "\<not> (off \<le> k \<and> k < off + length bs)" using same_block[OF len(2)] False by blast
    moreover have "fblock s ip (k div BSIZE) \<noteq> a" using ok(2) kb bn False a unfolding file_ok_def by metis
    ultimately show ?thesis by (auto simp: fbyte_def Let_def blk st(3))
  qed
  moreover have "fblock s' ip (k div BSIZE) \<noteq> 0" if "off \<le> k" "k < off + length bs" for k
    using same_block[OF len(2) that] a by (simp add: blk)
  moreover have "\<exists>as. itable s' = (itable s)[ip := (itable s ! ip)\<lparr>i_addrs := as\<rparr>]"
    by (rule exI[of _ "i_addrs (itable s ! ip)"]) (simp add: st(2))
  moreover have "view s' x = view s x" if "x \<notin> file_blocks s ip" for x using that ain by (auto simp: st(3))
  ultimately show "wrote ip off bs s s'" unfolding wrote_def using st(1) unfolding fr fbs blk by blast
qed

section \<open>The loop of writei\<close>

lemma txn_running: "txn H k s \<Longrightarrow> running s"
  by (simp add: txn_def log_inv_def cache_inv_def)

lemma readable_start:
  assumes "readable src data s" "m \<le> length data"
  shows "either_copyin src m s = Ret (0, take m data)"
proof -
  have "advance 0 src = src" by (cases src) simp_all
  then show ?thesis using assms unfolding readable_def by (metis add_0 drop0)
qed

text \<open>One turn of the loop, with six log blocks to spare and two free blocks.\<close>

lemma writei_turn:
  assumes T: "txn {} (k + 6) s" and ok: "fs_ok s" "file_ok s ip" and bn: "off div BSIZE < MAXFILE"
    and free: "2 \<le> card (free_blocks s)" and src: "readable src data s" "m \<le> length data" and m: "off mod BSIZE + m \<le> BSIZE"
  shows "\<exists>a s1 b s2 s3 s4. bmap ip (off div BSIZE) s = Ret (a, s1) \<and> a \<noteq> 0 \<and>
     bread (i_dev (itable s1 ! ip)) a s1 = Ret (b, s2) \<and> either_copyin src m s2 = Ret (0, take m data) \<and>
     log_write b (set_bdata b (overwrite (bdata b s2) (off mod BSIZE) (take m data)) s2) = Ret s3 \<and>
     brelse b s3 = Ret s4 \<and> txn {} k s4 \<and> wrote ip off (take m data) s s4 \<and>
     card (free_blocks s) \<le> card (free_blocks s4) + 2"
proof -
  have T5: "txn {} (Suc k + 5) s" using T by (simp add: eval_nat_numeral)
  from bmap_maps[OF T5 ok bn free] obtain a s1 where
    a: "bmap ip (off div BSIZE) s = Ret (a, s1)" "a \<noteq> 0" "a = fblock s1 ip (off div BSIZE)" "txn {} (Suc k) s1"
      "grown ip (off div BSIZE) s s1" "card (free_blocks s) \<le> card (free_blocks s1) + 2" by auto
  note ok1 = grown_file_ok[OF ok a(5) bn]
  have dev: "i_dev (itable s1 ! ip) = ROOTDEV" using ok1(1) by (simp add: file_ok_def)
  from wal.rd_law[OF a(4), of a] obtain b s2 where
    r: "bread ROOTDEV a s1 = Ret (b, s2)" "txn {a} (Suc k) s2" "handle s2 b a" "view s2 = view s1" "txn_step {} s1 s2" by auto
  note q = txn_quiet[OF r(5)]
  have f01: "fstep s s1" using a(5) by (simp add: grown_def)
  have f02: "fstep s s2" by (rule fstep_trans[OF f01 quietD(1)[OF q]])
  have cin: "either_copyin src m s2 = Ret (0, take m data)"
    by (rule readable_start[OF readable_fstep[OF src(1) f02 txn_running[OF T]] src(2)])
  have len: "length (view s1 a) = BSIZE" by (rule wal.T_len[OF a(4)])
  have d: "bdata b s2 = view s1 a" using wal.T_hnd[OF r(2,3)] r(4) by simp
  let ?d = "overwrite (view s1 a) (off mod BSIZE) (take m data)"
  have "length ?d = BSIZE" using len m src(2) by simp
  moreover have "a \<notin> log_region (klog s2)"
    using file_block_facts(3)[OF ok1(2,1) fblock_in[OF bn]] a(2,3) quietD(5)[OF q] by simp
  ultimately obtain s3 s4 where w: "log_write b (set_bdata b ?d s2) = Ret s3" "brelse b s3 = Ret s4"
    "txn ({a} - {a}) k s4" "view s4 = (view s2)(a := ?d)" "fstep_but {a} s2 s4" "itable s4 = itable s2"
    using fs_update_held[OF r(2,3)] by metis
  have st: "fstep s1 s4"
    using fstep_but_trans[OF quietD(1)[OF q] w(5)] by (intro fstep_free[OF a(4)]) auto
  have v4: "view s4 = (view s1)(a := ?d)" using w(4) r(4) by simp
  have it4: "itable s4 = itable s1" using w(6) quietD(2)[OF q] by simp
  have m': "off mod BSIZE + length (take m data) \<le> BSIZE" using m src(2) by simp
  note dw = data_written[OF ok1(2,1) bn a(3,2) len m' st it4 v4]
  have "off + length ([] @ take m data) \<le> MAXFILE * BSIZE"
  proof -
    have "off = BSIZE * (off div BSIZE) + off mod BSIZE" "off div BSIZE \<le> MAXFILE - 1" using bn by simp_all
    then show ?thesis using m' unfolding append_Nil by linarith
  qed
  then have "wrote ip off ([] @ take m data) s s4"
    using wrote_trans[OF grown_wrote[OF ok a(5) bn, of off], of "take m data" s4] dw(1) by simp
  then show ?thesis using a(1,2,6) r(1) dev cin d w(1-3) dw(2) by auto
qed

lemma writei_loop_writes:
  assumes "txn {} (k + 6 * j) s" "fs_ok s" "file_ok s ip" "2 * j \<le> card (free_blocks s)"
    and "readable src data s" "data \<noteq> [] \<Longrightarrow> off mod BSIZE + length data \<le> j * BSIZE" "off + length data \<le> MAXFILE * BSIZE"
  shows "\<exists>s'. writei_loop ip src off (length data) s = Ret (length data, s') \<and> txn {} k s' \<and> wrote ip off data s s'"
  using assms
proof (induction j arbitrary: src data off s)
  case 0
  have g: "grown ip 0 s s" by (rule grown_refl[OF 0(3)])
  have "data = []" using 0(6) by (cases "data = []") auto
  then show ?case using 0(1) grown_wrote[OF 0(2,3) g, of off] by (simp add: writei_loop.simps)
next
  case (Suc j)
  show ?case
  proof (cases "data = []")
    case True
    have g: "grown ip 0 s s" by (rule grown_refl[OF Suc.prems(3)])
    show ?thesis
      using True grown_wrote[OF Suc.prems(2,3) g, of off] wal.T_less[OF Suc.prems(1), of k] by (simp add: writei_loop.simps)
  next
    case False
    let ?n = "length data" and ?m = "in_block off (length data)"
    have n: "0 < ?n" using False by simp
    have m: "0 < ?m" "?m \<le> ?n" "off mod BSIZE + ?m \<le> BSIZE" using in_block_pos[OF n, of off] by (auto simp: in_block_def)
    have bn: "off div BSIZE < MAXFILE" using Suc.prems(7) n by (intro less_mult_imp_div_less) linarith
    have T: "txn {} ((k + 6 * j) + 6) s" using Suc.prems(1) by (simp add: algebra_simps)
    have fr: "2 \<le> card (free_blocks s)" using Suc.prems(4) by simp
    from writei_turn[OF T Suc.prems(2,3) bn fr Suc.prems(5) m(2,3)] obtain a s1 b s2 s3 s4 where
      r: "bmap ip (off div BSIZE) s = Ret (a, s1)" "a \<noteq> 0" "bread (i_dev (itable s1 ! ip)) a s1 = Ret (b, s2)"
      "either_copyin src ?m s2 = Ret (0, take ?m data)"
      "log_write b (set_bdata b (overwrite (bdata b s2) (off mod BSIZE) (take ?m data)) s2) = Ret s3"
      "brelse b s3 = Ret s4" "txn {} (k + 6 * j) s4" "wrote ip off (take ?m data) s s4"
      "card (free_blocks s) \<le> card (free_blocks s4) + 2" by blast
    note w = wroteD[OF r(8)]
    have rd: "readable (advance ?m src) (drop ?m data) s4"
      using readable_advance[OF readable_fstep[OF Suc.prems(5) w(1) txn_running[OF Suc.prems(1)]] m(2)] .
    have next_block: "(off + ?m) mod BSIZE + length (drop ?m data) \<le> j * BSIZE" if "drop ?m data \<noteq> []"
    proof -
      have "?m < ?n" using that by simp
      then have e: "?m = BSIZE - off mod BSIZE" by (simp add: in_block_def)
      have "off mod BSIZE \<le> BSIZE" by (simp add: less_imp_le)
      then have "off + ?m = BSIZE * (off div BSIZE + 1)" unfolding e distrib_left
        using mult_div_mod_eq[of BSIZE off] by linarith
      then have "(off + ?m) mod BSIZE = 0" by (metis mod_mult_self1_is_0)
      then show ?thesis using Suc.prems(6)[OF False] e by simp
    qed
    have "\<exists>s'. writei_loop ip (advance ?m src) (off + ?m) (length (drop ?m data)) s4 = Ret (length (drop ?m data), s') \<and>
        txn {} k s' \<and> wrote ip (off + ?m) (drop ?m data) s4 s'"
      using r(7,9) w(2,3) rd next_block Suc.prems(4,7) m(2) by (intro Suc.IH) simp_all
    then obtain s' where s': "writei_loop ip (advance ?m src) (off + ?m) (?n - ?m) s4 = Ret (?n - ?m, s')" "txn {} k s'"
      "wrote ip (off + ?m) (drop ?m data) s4 s'" by auto
    have "writei_loop ip src off ?n s = Ret (?n, s')"
      using r(1-6) s'(1) n m(2) by (subst writei_loop.simps) (simp add: Let_def)
    moreover have "wrote ip off (take ?m data @ drop ?m data) s s'"
      using wrote_trans[OF r(8), of "drop ?m data" s'] s'(3) m(2) Suc.prems(7) by simp
    ultimately show ?thesis using s'(2) by auto
  qed
qed

section \<open>writei\<close>

text \<open>A file whose blocks and addresses are untouched is the same file.\<close>

lemma file_kept:
  assumes ok: "fs_ok s" "file_ok s ip" and sb: "fsb s' = fsb s" "log_region (klog s') = log_region (klog s)"
    and it: "i_dev (itable s' ! ip) = i_dev (itable s ! ip)" "i_inum (itable s' ! ip) = i_inum (itable s ! ip)"
      "i_addrs (itable s' ! ip) = i_addrs (itable s ! ip)" "length (itable s') = length (itable s)"
    and fr: "free_blocks s' = free_blocks s" and v: "\<And>x. x \<in> file_blocks s ip \<Longrightarrow> view s' x = view s x"
  shows "fs_ok s'" "file_ok s' ip" "fblock s' ip m = fblock s ip m" "file_blocks s' ip = file_blocks s ip"
    "k < MAXFILE * BSIZE \<Longrightarrow> fbyte s' ip k = fbyte s ip k"
proof -
  have ind: "indirect s' ip = indirect s ip" by (simp add: indirect_def it)
  show blk: "fblock s' ip m = fblock s ip m" for m using ind v[OF indirect_in] by (auto simp: fblock_def it)
  show fb: "file_blocks s' ip = file_blocks s ip" by (simp add: file_blocks_def ind blk)
  show "fs_ok s'" by (rule fs_ok_cong[OF ok(1) sb]) (simp add: fr)
  show "file_ok s' ip" using ok(2) by (simp add: file_ok_def fr fb blk ind it sb)
  show "fbyte s' ip k = fbyte s ip k" if "k < MAXFILE * BSIZE"
    using v[OF fblock_in[of "k div BSIZE"]] that by (auto simp: fbyte_def Let_def blk less_mult_imp_div_less)
qed

text \<open>Files do not share blocks.\<close>

definition separate :: "'a fs_state_scheme \<Rightarrow> nat \<Rightarrow> nat \<Rightarrow> bool" where
  "separate s ip jp \<longleftrightarrow> ip \<noteq> jp \<and> file_blocks s ip \<inter> file_blocks s jp = {}"

lemma contents_overwrite:
  assumes "off + length data \<le> MAXFILE * BSIZE" "unat (i_size (itable s ! ip)) \<le> MAXFILE * BSIZE"
    and "off \<le> unat (i_size (itable s ! ip))" "unat (i_size (itable s' ! ip)) = max (unat (i_size (itable s ! ip))) (off + length data)"
    and "\<And>k. k < MAXFILE * BSIZE \<Longrightarrow>
      fbyte s' ip k = (if off \<le> k \<and> k < off + length data then data ! (k - off) else fbyte s ip k)"
  shows "contents s' ip = overwrite (contents s ip) off data"
proof (rule nth_equalityI)
  let ?z = "unat (i_size (itable s ! ip))"
  show "length (contents s' ip) = length (overwrite (contents s ip) off data)"
    using assms(3,4) by (simp add: contents_def overwrite_def max_def)
  fix k assume "k < length (contents s' ip)"
  then have k: "k < max ?z (off + length data)" using assms(4) by (simp add: contents_def)
  then have "fbyte s' ip k = (if off \<le> k \<and> k < off + length data then data ! (k - off) else fbyte s ip k)"
    using assms(1,2) by (intro assms(5)) auto
  moreover have "contents s' ip ! k = fbyte s' ip k" using k assms(4) by (simp add: contents_def)
  moreover have "overwrite (contents s ip) off data ! k =
      (if off \<le> k \<and> k < off + length data then data ! (k - off) else fbyte s ip k)"
    using k assms(3) by (auto simp: overwrite_def nth_append contents_def max_def split: if_splits)
  ultimately show "contents s' ip ! k = overwrite (contents s ip) off data ! k" by simp
qed

text \<open>\<open>iupdate\<close> changes no data block and no bit of the bitmap.\<close>

lemma iupdate_keeps:
  assumes T: "txn {} (Suc k) s" and ok: "fs_ok s" "file_ok s ip"
  shows "\<exists>s'. iupdate ip s = Ret s' \<and> txn {} k s' \<and> quiet s s' \<and> free_blocks s' = free_blocks s \<and>
     (\<forall>n. unat n < unat (sb_ninodes (fsb s)) \<longrightarrow>
        dinode_at s' n = (if n = i_inum (itable s ! ip) then dinode_of (itable s ! ip) else dinode_at s n)) \<and>
     (\<forall>x. x \<noteq> IBLOCK (i_inum (itable s ! ip)) (fsb s) \<longrightarrow> view s' x = view s x)"
proof -
  have l: "fs_layout (fsb s) (log_region (klog s))" using ok(1) by (simp add: fs_ok_def)
  have x: "i_dev (itable s ! ip) = ROOTDEV" "unat (i_inum (itable s ! ip)) < unat (sb_ninodes (fsb s))"
    "length (i_addrs (itable s ! ip)) = NDIRECT + 1" using ok(2) by (simp_all add: file_ok_def)
  from iupdate_writes[OF T l refl x] obtain s' where
    s': "iupdate ip s = Ret s'" "txn {} k s'" "quiet s s'"
    "\<forall>n. unat n < unat (sb_ninodes (fsb s)) \<longrightarrow>
        dinode_at s' n = (if n = i_inum (itable s ! ip) then dinode_of (itable s ! ip) else dinode_at s n)"
    "\<forall>x. x \<noteq> IBLOCK (i_inum (itable s ! ip)) (fsb s) \<longrightarrow> view s' x = view s x" by auto
  have "view s' (BBLOCK b (fsb s)) = view s (BBLOCK b (fsb s))" if "unat b < unat (sb_size (fsb s))" for b
    using IBLOCK_bounds(4)[OF l x(2) that] s'(5) by metis
  then have "free_blocks s' = free_blocks s" by (auto simp: free_blocks_def quietD(4)[OF s'(3)])
  then show ?thesis using s' by blast
qed

lemma writei_result:
  assumes T: "txn {} (Suc k + 6 * j) s" and ok: "fs_ok s" "file_ok s ip" and fr: "2 * j \<le> card (free_blocks s)"
    and src: "readable src data s" "length data = unat n"
    and off: "off \<le> i_size (itable s ! ip)" "unat off + unat n \<le> MAXFILE * BSIZE" "unat off mod BSIZE + unat n \<le> j * BSIZE"
  shows "\<exists>s' s1. writei ip src off n s = Ret (int (unat n), s') \<and> txn {} k s' \<and> fstep s s' \<and>
     wrote ip (unat off) data s s1 \<and> fs_ok s' \<and> file_ok s' ip \<and> free_blocks s' = free_blocks s1 \<and>
     file_blocks s' ip = file_blocks s1 ip \<and> (\<forall>m. fblock s' ip m = fblock s1 ip m) \<and>
     (\<forall>k < MAXFILE * BSIZE. fbyte s' ip k = fbyte s1 ip k) \<and>
     itable s' = (itable s1)[ip := (itable s1 ! ip)\<lparr>i_size := max (i_size (itable s ! ip)) (off + n)\<rparr>] \<and>
     (\<forall>m. unat m < unat (sb_ninodes (fsb s)) \<longrightarrow>
        dinode_at s' m = (if m = i_inum (itable s ! ip) then dinode_of (itable s' ! ip) else dinode_at s1 m)) \<and>
     (\<forall>x. x \<noteq> IBLOCK (i_inum (itable s ! ip)) (fsb s) \<longrightarrow> view s' x = view s1 x)"
proof -
  have ip: "ip < length (itable s)" using ok(2) by (simp add: file_ok_def)
  have small: "unat off + unat n < 2 ^ 32" using off(2) by simp
  have sum: "unat (off + n) = unat off + unat n" using small by (simp add: unat_word_ariths)
  have guards: "\<not> (off > i_size (itable s ! ip) \<or> off + n < off)" "\<not> off + n > of_nat (MAXFILE * BSIZE)"
    using off(1,2) sum by (simp_all add: word_less_nat_alt word_le_nat_alt)
  have "unat off + length data \<le> MAXFILE * BSIZE" "data \<noteq> [] \<Longrightarrow> unat off mod BSIZE + length data \<le> j * BSIZE"
    using off src(2) by simp_all
  from writei_loop_writes[OF T ok fr src(1) this(2,1)] src(2) obtain s1 where
    w: "writei_loop ip src (unat off) (unat n) s = Ret (unat n, s1)" "txn {} (Suc k) s1" "wrote ip (unat off) data s s1" by auto
  note d = wroteD[OF w(3)] and i1 = wrote_inode[OF w(3) ip]
  let ?z = "max (i_size (itable s ! ip)) (off + n)"
  define s2 where "s2 = (if off + n > i_size (itable s1 ! ip) then upd_inode ip (\<lambda>x. x\<lparr>i_size := off + n\<rparr>) s1 else s1)"
  have it2: "itable s2 = (itable s1)[ip := (itable s1 ! ip)\<lparr>i_size := ?z\<rparr>]"
  proof (cases "off + n > i_size (itable s1 ! ip)")
    case False
    then have "?z = i_size (itable s1 ! ip)" using i1(1) by (auto simp: max_def)
    then have "(itable s1 ! ip)\<lparr>i_size := ?z\<rparr> = itable s1 ! ip" by simp
    then show ?thesis using False by (simp add: s2_def)
  qed (simp add: s2_def i1(1) max_def less_imp_le)
  have s2: "txn {} (Suc k) s2" "view s2 = view s1" "fsb s2 = fsb s1" "klog s2 = klog s1" "fstep s1 s2"
    using w(2) by (simp_all add: s2_def)
  have ip1: "ip < length (itable s1)" using ip i1(4) by simp
  have fr2: "free_blocks s2 = free_blocks s1" by (simp add: free_blocks_def s2(2,3))
  have lr: "log_region (klog s2) = log_region (klog s1)" by (simp add: s2(4))
  have i2: "i_dev (itable s2 ! ip) = i_dev (itable s1 ! ip)" "i_inum (itable s2 ! ip) = i_inum (itable s1 ! ip)"
    "i_addrs (itable s2 ! ip) = i_addrs (itable s1 ! ip)" "length (itable s2) = length (itable s1)"
    using ip1 by (simp_all add: it2)
  note k2 = file_kept[OF d(2,3) s2(3) lr i2 fr2 fun_cong[OF s2(2)]]
  from iupdate_keeps[OF s2(1) k2(1,2)] obtain s3 where
    s3: "iupdate ip s2 = Ret s3" "txn {} k s3" "quiet s2 s3" "free_blocks s3 = free_blocks s2"
      "\<forall>m. unat m < unat (sb_ninodes (fsb s2)) \<longrightarrow>
        dinode_at s3 m = (if m = i_inum (itable s2 ! ip) then dinode_of (itable s2 ! ip) else dinode_at s2 m)"
      "\<forall>x. x \<noteq> IBLOCK (i_inum (itable s2 ! ip)) (fsb s2) \<longrightarrow> view s3 x = view s2 x" by blast
  have inum: "i_inum (itable s2 ! ip) = i_inum (itable s ! ip)" using i2(2) i1(2) by simp
  have sb: "fsb s2 = fsb s" using s2(3) fstepD(1)[OF d(1)] by simp
  have nf: "x \<noteq> IBLOCK (i_inum (itable s2 ! ip)) (fsb s2)" if "x \<in> file_blocks s2 ip" for x
    using file_block_facts(5)[OF k2(1,2) that] k2(2) by (simp add: file_ok_def)
  note q = quietD[OF s3(3)]
  have v3: "view s3 x = view s2 x" if "x \<in> file_blocks s2 ip" for x using s3(6) nf[OF that] by blast
  have it3: "i_dev (itable s3 ! ip) = i_dev (itable s2 ! ip)" "i_inum (itable s3 ! ip) = i_inum (itable s2 ! ip)"
    "i_addrs (itable s3 ! ip) = i_addrs (itable s2 ! ip)" "length (itable s3) = length (itable s2)" by (simp_all add: q(2))
  note k3 = file_kept[OF k2(1,2) q(4,5) it3 s3(4) v3]
  have "writei ip src off n s = Ret (int (unat n), s3)"
    using w(1) s3(1) guards by (auto simp: writei_def Let_def s2_def split: if_splits)
  moreover have "fstep s s3" by (rule fstep_trans[OF fstep_trans[OF d(1) s2(5)] q(1)])
  moreover have "dinode_at s2 m = dinode_at s1 m" for m by (simp add: dinode_at_def s2(2,3))
  ultimately show ?thesis
    using s3(2,4-6) w(3) k3 k2(3-5) it2 inum sb q(2) s2(2) fr2
    by (intro exI[of _ s3] exI[of _ s1]) auto
qed

text \<open>What a write leaves alone: the other inodes, and the files that share no block with this one.\<close>

lemma complete_wrote:
  assumes w: "wrote ip off data s s1" and c: "complete s ip"
    and len: "off + length data \<le> MAXFILE * BSIZE" "off \<le> unat (i_size (itable s ! ip))"
    and k: "k < max (unat (i_size (itable s ! ip))) (off + length data)"
  shows "fblock s1 ip (k div BSIZE) \<noteq> 0"
proof (cases "k < unat (i_size (itable s ! ip))")
  case True
  then have "k < MAXFILE * BSIZE" "fblock s ip (k div BSIZE) \<noteq> 0" using c by (simp_all add: complete_def)
  then show ?thesis using wroteD(9)[OF w] less_mult_imp_div_less by blast
next
  case False
  then show ?thesis using wroteD(8)[OF w] k len by auto
qed

lemma dinode_wrote:
  assumes w: "wrote ip off data s s1" and ok: "fs_ok s" "file_ok s ip" and m: "unat m < unat (sb_ninodes (fsb s))"
  shows "dinode_at s1 m = dinode_at s m"
proof -
  have l: "fs_layout (fsb s) (log_region (klog s))" using ok(1) by (simp add: fs_ok_def)
  note d = wroteD[OF w]
  let ?b = "IBLOCK m (fsb s)"
  have "?b \<notin> file_blocks s ip" using file_block_facts(5)[OF ok _ m] by blast
  moreover have "?b \<notin> bitmap_blocks s" using IBLOCK_bounds(4)[OF l m] by (auto simp: bitmap_blocks_def)
  moreover have "?b \<notin> free_blocks s"
  proof
    assume "?b \<in> free_blocks s"
    then have "data_start (fsb s) \<le> unat ?b" using ok(1) by (auto simp: fs_ok_def)
    then show False using IBLOCK_bounds(2)[OF l m] by (simp add: data_start_def)
  qed
  ultimately have "view s1 ?b = view s ?b" by (intro d(6))
  then show ?thesis using fstepD(1)[OF d(1)] by (simp add: dinode_at_def)
qed

lemma other_file:
  assumes w: "wrote ip off data s s1" and ok: "fs_ok s" "file_ok s ip" and s': "fstep s s'" "free_blocks s' = free_blocks s1"
    and it: "itable s' ! jp = itable s ! jp" "length (itable s') = length (itable s)"
    and jp: "file_ok s jp" "complete s jp" "separate s ip jp"
    and n: "unat n < unat (sb_ninodes (fsb s))" and v: "\<And>x. x \<noteq> IBLOCK n (fsb s) \<Longrightarrow> view s' x = view s1 x"
  shows "file_ok s' jp \<and> contents s' jp = contents s jp \<and> itable s' ! jp = itable s ! jp"
proof -
  note d = wroteD[OF w]
  have sb: "fsb s' = fsb s" "log_region (klog s') = log_region (klog s)" using s'(1) by (simp_all add: fstep_def)
  have vw: "view s' x = view s x" if "x \<in> file_blocks s jp" for x
    using file_block_facts[OF ok(1) jp(1) that] jp(3) that v[of x] d(6)[of x] n by (auto simp: separate_def)
  have ind: "indirect s' jp = indirect s jp" by (simp add: indirect_def it)
  have blk: "fblock s' jp m = fblock s jp m" for m using ind vw[OF indirect_in] by (auto simp: fblock_def it)
  have fb: "file_blocks s' jp = file_blocks s jp" by (simp add: file_blocks_def ind blk)
  have "fbyte s' jp k = fbyte s jp k" if "k < MAXFILE * BSIZE" for k
    using vw[OF fblock_in[of "k div BSIZE"]] that by (auto simp: fbyte_def Let_def blk less_mult_imp_div_less)
  then have "contents s' jp = contents s jp" using jp(2) by (auto simp: contents_def complete_def it)
  moreover have "file_ok s' jp" using jp(1) d(4) s'(2) by (auto simp: file_ok_def fb blk ind it sb)
  ultimately show ?thesis using it by simp
qed

lemma writei_complete:
  assumes T: "txn {} (Suc k + 6 * j) s" and ok: "fs_ok s" "file_ok s ip" "complete s ip"
    and fr: "2 * j \<le> card (free_blocks s)" and src: "readable src data s" "length data = unat n"
    and off: "off \<le> i_size (itable s ! ip)" "unat off + unat n \<le> MAXFILE * BSIZE" "unat off mod BSIZE + unat n \<le> j * BSIZE"
  shows "\<exists>s'. writei ip src off n s = Ret (int (unat n), s') \<and> txn {} k s' \<and> fstep s s' \<and>
     fs_ok s' \<and> file_ok s' ip \<and> complete s' ip \<and>
     contents s' ip = overwrite (contents s ip) (unat off) data \<and>
     (\<forall>m. unat m < unat (sb_ninodes (fsb s)) \<longrightarrow>
        dinode_at s' m = (if m = i_inum (itable s ! ip) then dinode_of (itable s' ! ip) else dinode_at s m)) \<and>
     (\<forall>jp. file_ok s jp \<longrightarrow> complete s jp \<longrightarrow> separate s ip jp \<longrightarrow>
        file_ok s' jp \<and> contents s' jp = contents s jp \<and> itable s' ! jp = itable s ! jp)"
proof -
  from writei_result[OF T ok(1,2) fr src off] obtain s' s1 where
    r: "writei ip src off n s = Ret (int (unat n), s')" "txn {} k s'" "fstep s s'"
      "wrote ip (unat off) data s s1" "fs_ok s'" "file_ok s' ip" "free_blocks s' = free_blocks s1"
      "\<forall>m. fblock s' ip m = fblock s1 ip m" "\<forall>k < MAXFILE * BSIZE. fbyte s' ip k = fbyte s1 ip k"
      "itable s' = (itable s1)[ip := (itable s1 ! ip)\<lparr>i_size := max (i_size (itable s ! ip)) (off + n)\<rparr>]"
      "\<forall>m. unat m < unat (sb_ninodes (fsb s)) \<longrightarrow>
        dinode_at s' m = (if m = i_inum (itable s ! ip) then dinode_of (itable s' ! ip) else dinode_at s1 m)"
      "\<forall>x. x \<noteq> IBLOCK (i_inum (itable s ! ip)) (fsb s) \<longrightarrow> view s' x = view s1 x" by blast
  have ip: "ip < length (itable s)" "unat (i_inum (itable s ! ip)) < unat (sb_ninodes (fsb s))"
    using ok(2) by (simp_all add: file_ok_def)
  note d = wroteD[OF r(4)] and i1 = wrote_inode[OF r(4) ip(1)]
  have sum: "unat (off + n) = unat off + unat n" using off(2) by (simp add: unat_word_ariths)
  have z: "unat (i_size (itable s' ! ip)) = max (unat (i_size (itable s ! ip))) (unat off + length data)"
    using ip(1) i1(4) src(2) by (simp add: r(10) max_def word_le_nat_alt sum)
  have len: "unat off + length data \<le> MAXFILE * BSIZE" "unat (i_size (itable s ! ip)) \<le> MAXFILE * BSIZE"
    "unat off \<le> unat (i_size (itable s ! ip))"
    using off ok(3) src(2) by (simp_all add: complete_def word_le_nat_alt)
  have "contents s' ip = overwrite (contents s ip) (unat off) data"
    by (rule contents_overwrite[OF len z]) (use r(9) d(7) in simp)
  moreover have "complete s' ip"
    using complete_wrote[OF r(4) ok(3) len(1,3)] z r(8) len by (simp add: complete_def)
  moreover have "dinode_at s1 m = dinode_at s m" if "unat m < unat (sb_ninodes (fsb s))" for m
    by (rule dinode_wrote[OF r(4) ok(1,2) that])
  moreover have "file_ok s' jp \<and> contents s' jp = contents s jp \<and> itable s' ! jp = itable s ! jp"
    if "file_ok s jp" "complete s jp" "separate s ip jp" for jp
  proof -
    have "itable s' ! jp = itable s ! jp" "length (itable s') = length (itable s)"
      using that(3) i1(3)[of jp] i1(4) by (simp_all add: r(10) separate_def)
    then show ?thesis using other_file[OF r(4) ok(1,2) r(3,7) _ _ that ip(2)] r(12) by blast
  qed
  ultimately show ?thesis using r(1,2,3,5,6,11) by (intro exI[of _ s']) simp
qed

text \<open>
  C2. Inside a transaction with enough reserved log blocks and enough free blocks, \<open>writei\<close> with data
  readable at \<open>src\<close> writes all of it: it returns \<open>n\<close>, the contents of the file are the old contents with
  the data put over them from offset \<open>off\<close> (and extended when the data reach past the end), the inode on
  disk is the one in memory, no other inode on disk changes, and every file that shares no block with this one
  has the contents it had. The transaction and the file system stay well-formed.
\<close>

theorem writei_overwrites:
  assumes T: "txn {} (Suc k + 6 * j) s" and ok: "fs_ok s" "file_ok s ip" "complete s ip"
    and fr: "2 * j \<le> card (free_blocks s)" and src: "readable src data s" "length data = unat n"
    and off: "off \<le> i_size (itable s ! ip)" "unat off + unat n \<le> MAXFILE * BSIZE" "unat off mod BSIZE + unat n \<le> j * BSIZE"
  shows "\<exists>s'. writei ip src off n s = Ret (int (unat n), s') \<and> txn {} k s' \<and>
     fs_ok s' \<and> file_ok s' ip \<and> complete s' ip \<and>
     contents s' ip = overwrite (contents s ip) (unat off) data \<and>
     (\<forall>m. unat m < unat (sb_ninodes (fsb s)) \<longrightarrow>
        dinode_at s' m = (if m = i_inum (itable s ! ip) then dinode_of (itable s' ! ip) else dinode_at s m)) \<and>
     (\<forall>jp. file_ok s jp \<longrightarrow> complete s jp \<longrightarrow> separate s ip jp \<longrightarrow>
        file_ok s' jp \<and> contents s' jp = contents s jp \<and> itable s' ! jp = itable s ! jp)"
  using writei_complete[OF assms] by blast

theorem writei_overwrites_witness:
  "\<exists>s'. writei 0 (Local 0 [112, 33]) 4 2 ex_fs = Ret (2, s') \<and> contents s' 0 = [104, 101, 108, 108, 112, 33] \<and>
     dinode_at s' 1 = dinode_of (itable s' ! 0)"
proof -
  have T: "txn {} (Suc 22 + 6 * 1) ex_fs" using ex_fs_txn(1) by simp
  have card: "2 * 1 \<le> card (free_blocks ex_fs)" using ex_card by simp
  have x: "i_size ex_inode = 5" "i_inum ex_inode = 1" "unat (sb_ninodes mkfs_sb) = 200"
    by (simp_all add: ex_inode_def mkfs_sb_def)
  from writei_overwrites[OF T ex_ok ex_file(1,2)[of 0] card readable_Local, of "[112, 33]" 2 4] show ?thesis
    by (fastforce simp: x ex_file(3) overwrite_def)
qed

text \<open>
  C11. What \<open>writei\<close> writes, \<open>readi\<close> reads: under the hypotheses of a complete write, reading \<open>n\<close> bytes at the same offset
  to any destination, user address, physical address or variable of the kernel, delivers the data written and returns
  \<open>n\<close>, or, at a user address, stops with -1 at the first address that is not mapped, having delivered the data before it.
\<close>

theorem writei_readi_roundtrip:
  assumes T: "txn {} (Suc k + 6 * j) s" and ok: "fs_ok s" "file_ok s ip" "complete s ip"
    and fr: "2 * j \<le> card (free_blocks s)" and src: "readable src data s" "length data = unat n"
    and off: "off \<le> i_size (itable s ! ip)" "unat off + unat n \<le> MAXFILE * BSIZE" "unat off mod BSIZE + unat n \<le> j * BSIZE"
    and dst: "dst_ok F dst (unat n) s"
  shows "\<exists>s1 r l d s2. writei ip src off n s = Ret (int (unat n), s1) \<and> mem s1 = mem s \<and>
     readi ip dst off n s1 = Ret (r, d, s2) \<and> delivered (user_pt s) dst (take l data) d (mem s) (mem s2) \<and>
     (r = int (unat n) \<and> l = unat n \<or> r = - 1 \<and> l < unat n \<and> faults dst l s)"
proof -
  from writei_complete[OF T ok fr src off] obtain s1 where
    w: "writei ip src off n s = Ret (int (unat n), s1)" "txn {} k s1" "fstep s s1" "file_ok s1 ip" "complete s1 ip"
      "contents s1 ip = overwrite (contents s ip) (unat off) data" by blast
  have a: "avail (cabs s1) b" for b by (rule txn_avail[OF w(2)]) simp_all
  have i: "cache_inv s1" "i_dev (itable s1 ! ip) = ROOTDEV" "\<forall>b \<in> file_blocks s1 ip. avail (cabs s1) b"
    using w(2,4) a by (simp_all add: txn_def log_inv_def file_ok_def)
  have run: "running s" by (rule txn_running[OF T])
  have sc: "same_caller s s1" "mem s1 = mem s" using w(3) by (simp_all add: same_caller_def fstep_def)
  note sd = same_caller_dst[OF sc(1) run sc(2)]
  have nw: "off \<le> off + n" using off(2) by (simp add: word_le_nat_alt unat_word_ariths)
  have "unat off \<le> length (contents s ip)" using off(1) by (simp add: contents_def word_le_nat_alt)
  then have c: "data = take (unat n) (drop (unat off) (contents s1 ip))" using src(2) by (simp add: w(6) overwrite_def)
  have d1: "dst_ok F dst (unat n) s1" using dst sd(1) by simp
  from readi_contents[OF i w(5) nw d1 c] obtain r l d s2 where
    "readi ip dst off n s1 = Ret (r, d, s2)" "delivered (user_pt s1) dst (take l data) d (mem s1) (mem s2)"
    "r = int (unat n) \<and> l = unat n \<or> r = - 1 \<and> l < unat n \<and> faults dst l s1" using src(2) by auto
  then show ?thesis using w(1) sc(2) sd(2) same_caller_user[OF sc(1) run] by (intro exI[of _ s1] exI) auto
qed

theorem writei_readi_roundtrip_witness:
  "\<exists>s1 d s2. writei 0 (Local 0 [112, 33]) 4 2 ex_fs = Ret (2, s1) \<and> readi 0 (User 100) 4 2 s1 = Ret (2, d, s2) \<and>
     umem (mem s2) 0x80001000 100 = Some 112 \<and> umem (mem s2) 0x80001000 101 = Some 33"
proof -
  have T: "txn {} (Suc 22 + 6 * 1) ex_fs" using ex_fs_txn(1) by simp
  have card: "2 * 1 \<le> card (free_blocks ex_fs)" using ex_card by simp
  have x: "(4 :: uint) \<le> i_size (itable ex_fs ! 0)" by (simp add: ex_inode_def)
  have l: "length [112, 33 :: uchar] = unat (2 :: uint)" "unat (4 :: uint) + unat (2 :: uint) \<le> MAXFILE * BSIZE"
    "unat (4 :: uint) mod BSIZE + unat (2 :: uint) \<le> 1 * BSIZE" by simp_all
  have f: "file_ok ex_fs 0" "complete ex_fs 0" by (simp_all add: ex_file)
  from writei_readi_roundtrip[OF T ex_ok f card readable_Local l(1) x l(2,3) ex_fs_dst(2)] obtain s1 r k d s2 where
    r: "writei 0 (Local 0 [112, 33]) 4 2 ex_fs = Ret (int (unat (2 :: uint)), s1)" "readi 0 (User 100) 4 2 s1 = Ret (r, d, s2)"
      "delivered 0x80001000 (User 100) (take k [112, 33]) d (mem ex_fs) (mem s2)"
      "r = int (unat (2 :: uint)) \<and> k = unat (2 :: uint) \<or> r = - 1 \<and> k < unat (2 :: uint) \<and> faults (User 100) k ex_fs"
    unfolding ex_fs_dst(1) by blast
  have "r = 2" "k = 2" using r(4) ex_fs_dst(3)[of k] by auto
  then show ?thesis using r(1-3) by (auto simp: delivered_def)
qed

end
