(* ===== verification/Spec2Isabelle.thy ===== *)
theory Spec2Isabelle
  imports Fslog_Crash Vm_Fork Pipe_Laws Trap Spinlock Sleep_Wakeup Grep Fs_Write
begin

text \<open>
  A verification development of xv6 for RISC-V: the C code of the kernel under \<^verbatim>\<open>src/kernel\<close>, and of the user
  programs under \<^verbatim>\<open>src/user\<close> the library, \<open>printf\<close> and \<open>grep\<close>.

  \<^bold>\<open>How the code is translated.\<close> A kernel function is a HOL function on the kernel state. It returns an
  \<open>outcome\<close> (\<^verbatim>\<open>Xv6_Prelude\<close>): \<open>Ret\<close> with its result and the new state, \<open>Panic\<close> with the message, \<open>Sleeps\<close>
  when it waits for something another process must do, \<open>Undef\<close> where the C code has no defined behaviour, \<open>Loops\<close> where it
  spins. The state is a record that grows along the dependencies of the code:
  \<open>kmem_state\<close> (memory, free list), \<open>proc_state\<close> (process table, running process, ticks), \<open>bio_state\<close> (buffer
  cache, disk), \<open>log_state\<close>, \<open>dev_state\<close> (console, uart), \<open>fs_state\<close> (superblock, inode table), \<open>file_state\<close> (open files,
  pipes), \<open>vd_state\<close> (disk queue), \<open>trap_state\<close> (registers). Memory is byte-addressed and page tables, free pages
  and trap frames live in it. Machine integers are words, with wrap-around; C objects of known size are byte
  lists. Code outside the sources is a parameter: the addresses the linker assigns (\<open>ksyms\<close>), the values read of
  device registers, what \<open>read\<close> returns to a user program.

  \<^bold>\<open>The theories.\<close>
  \<^item> \<^verbatim>\<open>Xv6_Prelude\<close>: types, parameters of \<^verbatim>\<open>param.h\<close>, outcomes, memory accesses, shared lemmas.
  \<^item> \<^verbatim>\<open>Kstring\<close>: \<^verbatim>\<open>kernel/string.c\<close>. \<^verbatim>\<open>Kalloc\<close>: \<^verbatim>\<open>kernel/kalloc.c\<close>, with the locale \<open>page_allocator\<close> for
    its contract. \<^verbatim>\<open>Ring\<close>: the circular buffers shared by the console, the uart and pipes, locale \<open>byte_fifo\<close>.
  \<^item> \<^verbatim>\<open>Vm\<close>: \<^verbatim>\<open>kernel/vm.c\<close>. \<^verbatim>\<open>Vm_Laws\<close>, \<^verbatim>\<open>Vm_User\<close>, \<^verbatim>\<open>Vm_Fork\<close>: what a page table maps, and that walking, mapping,
    unmapping, copying in and out and \<open>uvmcopy\<close> do what they promise in terms of it.
  \<^item> \<^verbatim>\<open>Proc_Table\<close> and \<^verbatim>\<open>Proc\<close>: \<^verbatim>\<open>kernel/proc.c\<close>. \<^verbatim>\<open>Copy\<close> and \<^verbatim>\<open>Copy_Laws\<close>: \<open>either_copyout\<close>, \<open>either_copyin\<close> and the
    three kinds of buffers they serve. \<^verbatim>\<open>Sleeplock\<close>: \<^verbatim>\<open>kernel/sleeplock.c\<close>.
  \<^item> \<^verbatim>\<open>Spinlock\<close> and \<^verbatim>\<open>Sleep_Wakeup\<close>: \<^verbatim>\<open>kernel/spinlock.c\<close> and \<open>sleep\<close>, \<open>wakeup\<close>, \<open>kill\<close> as step relations in which the CPUs
    interleave, with invariants by rule induction.
  \<^item> \<^verbatim>\<open>Bio\<close>, \<^verbatim>\<open>Bio_Laws\<close>: \<^verbatim>\<open>kernel/bio.c\<close>, the invariant of the ring of buffers, and the locale \<open>block_cache\<close>, the block
    store it refines. \<^verbatim>\<open>Fslog\<close>, \<^verbatim>\<open>Fslog_Txn\<close>, \<^verbatim>\<open>Fslog_Crash\<close>: \<^verbatim>\<open>kernel/log.c\<close>, its transactions (locale
    \<open>txn_store\<close>) and its recovery after crashes between any two disk writes.
  \<^item> \<^verbatim>\<open>Fs\<close>: \<^verbatim>\<open>kernel/fs.c\<close>. \<^verbatim>\<open>Fs_Laws\<close>, \<^verbatim>\<open>Fs_Inode\<close>, \<^verbatim>\<open>Fs_Data\<close>, \<^verbatim>\<open>Fs_Contract\<close>, \<^verbatim>\<open>Fs_Write\<close>: the block allocator, the inodes on
    disk, and reading and writing the contents of a file.
  \<^item> \<^verbatim>\<open>Console\<close>, \<^verbatim>\<open>Console_Laws\<close>: \<^verbatim>\<open>kernel/console.c\<close>, \<^verbatim>\<open>kernel/uart.c\<close>. \<^verbatim>\<open>Printf\<close>: \<^verbatim>\<open>kernel/printf.c\<close> and \<^verbatim>\<open>user/printf.c\<close>.
  \<^item> \<^verbatim>\<open>File\<close>, \<^verbatim>\<open>Pipe_Laws\<close>: \<^verbatim>\<open>kernel/file.c\<close>, \<^verbatim>\<open>kernel/pipe.c\<close>. \<^verbatim>\<open>Exec\<close>: \<^verbatim>\<open>kernel/exec.c\<close>. \<^verbatim>\<open>Sysfile\<close>: \<^verbatim>\<open>kernel/syscall.c\<close>,
    \<^verbatim>\<open>kernel/sysproc.c\<close>, \<^verbatim>\<open>kernel/sysfile.c\<close>. \<^verbatim>\<open>Virtio\<close>: \<^verbatim>\<open>kernel/virtio_disk.c\<close>. \<^verbatim>\<open>Trap\<close>: \<^verbatim>\<open>kernel/trap.c\<close>,
    \<^verbatim>\<open>kernel/plic.c\<close>, \<^verbatim>\<open>kernel/main.c\<close>.
  \<^item> \<^verbatim>\<open>Ulib\<close>: \<^verbatim>\<open>user/ulib.c\<close>. \<^verbatim>\<open>Grep\<close>: \<^verbatim>\<open>user/grep.c\<close>.

  \<^bold>\<open>What is shown.\<close> The blocks of text that open with a number C1, C2, ... state the main theorems; the rest are the
  lemmas they rest on. For the log: crashes at any point leave all of a transaction or nothing of it. For the file system:
  what \<open>writei\<close> writes \<open>readi\<close> delivers, to any kind of destination, and nothing else changes. For memory: the
  allocator's pool, the maps of page tables, \<open>fork\<close>'s copy, the copies between kernel and user. For concurrency: mutual exclusion and no
  lost wakeup. For devices and pipes: bytes arrive in order, and where one is lost. For the user code: \<open>grep\<close>
  decides the language of its pattern and selects lines under the stated bounds, numbers are printed and read back in the stated
  ranges. \<open>exec\<close>, the system calls, the disk driver, the traps, directories and path names, and the life of processes are
  modelled without theorems of their own.

  \<^bold>\<open>Bounds.\<close> Every loop of the code is a total function: structural recursion on a count or list, or a measure.
  Walks along links that a broken structure could make circular count their steps (\<open>scan\<close> stops after \<open>NBUF\<close> buffers, which is
  enough, since the ring has that many). A loop that waits takes the values it reads as a list.

  \<^bold>\<open>Simplifications.\<close>
  \<^item> Outside \<^verbatim>\<open>Spinlock\<close> and \<^verbatim>\<open>Sleep_Wakeup\<close> a critical section is one step and an operation that sleeps stops there; what other processes do in
    between is another call of the model.
  \<^item> In \<^verbatim>\<open>Sleep_Wakeup\<close> a process enters the functions only at the places named there; preemption inside a caller's own
    code is not a step, since it touches neither the channel nor the state \<open>SLEEPING\<close>.
  \<^item> The buffer cache treats a disk transfer as one step on the block it names. The driver computes a sector number of 32 bits,
    so that blocks that differ by \<open>2\<^sup>3\<^sup>1\<close> would share sectors; the cache model keeps them apart. The disks
    of \<^verbatim>\<open>mkfs\<close> have 2000 blocks.
  \<^item> A disk write is atomic for a block, the assumption the code makes.

  \<^bold>\<open>Not modelled.\<close> The assembly (\<^verbatim>\<open>entry.S\<close>, \<^verbatim>\<open>kernelvec.S\<close>, \<^verbatim>\<open>swtch.S\<close>, \<^verbatim>\<open>trampoline.S\<close>, \<^verbatim>\<open>initcode.S\<close>, the stubs of \<^verbatim>\<open>usys.pl\<close>) and the
  switch \<open>sched\<close>; the machine-mode code of \<^verbatim>\<open>start.c\<close>; \<^verbatim>\<open>ramdisk.c\<close>, which is not compiled; the image builder \<^verbatim>\<open>mkfs.c\<close>; and
  of the user programs the shell, the allocator \<^verbatim>\<open>umalloc.c\<close>, and all programs but \<^verbatim>\<open>grep\<close>: \<^verbatim>\<open>ls\<close>, \<^verbatim>\<open>find\<close>, \<^verbatim>\<open>xargs\<close>, \<^verbatim>\<open>cat\<close>, \<^verbatim>\<open>wc\<close>, \<^verbatim>\<open>echo\<close>,
  \<^verbatim>\<open>primes\<close>, \<^verbatim>\<open>pingpong\<close>, \<^verbatim>\<open>sleep\<close>, \<^verbatim>\<open>init\<close>, \<^verbatim>\<open>kill\<close>, \<^verbatim>\<open>ln\<close>, \<^verbatim>\<open>mkdir\<close>, \<^verbatim>\<open>rm\<close>, \<^verbatim>\<open>zombie\<close>, \<^verbatim>\<open>forktest\<close>, and the
  tests \<^verbatim>\<open>usertests\<close>, \<^verbatim>\<open>grind\<close> and \<^verbatim>\<open>stressfs\<close>.
\<close>

end
